(* ===== verification/Prelude.thy ===== *)
theory Prelude
  imports Main "HOL-Library.Word" "HOL-Library.Signed_Division"
begin

text \<open>
  What the components share: Go's fixed-width integers as words, instants,
  UUIDs, and the generic lemmas that carry the component proofs.

  A Go \<open>int64\<close> is a 64 bit word read with \<open>sint\<close>; \<open>+\<close>, \<open>-\<close> and \<open>*\<close> wrap
  as they do in Go. Go's integer division truncates towards zero, which is
  \<open>sdiv\<close> and \<open>smod\<close> on the signed values. A \<open>time.Time\<close> is a number of
  nanoseconds after the zero time, so \<open>IsZero\<close> is equality with 0. A
  \<open>uuid.UUID\<close> is its sixteen bytes as one 128 bit word and \<open>uuid.Nil\<close> is 0;
  its text form belongs to a library outside the repository and is a
  parameter wherever it is used.
\<close>

section \<open>Types\<close>

type_synonym i64 = "64 word"
type_synonym i32 = "32 word"
type_synonym u64 = "64 word"
type_synonym uuid = "128 word"
type_synonym instant = int

abbreviation (input) nil_uuid :: uuid where
  "nil_uuid \<equiv> 0"

abbreviation (input) zero_time :: instant where
  "zero_time \<equiv> 0"

named_theorems sint_arith \<open>signed readings of word arithmetic that does not wrap\<close>

section \<open>Signed 64 bit arithmetic\<close>

definition fits64 :: "int \<Rightarrow> bool" where
  "fits64 x \<longleftrightarrow> - (2 ^ 63) \<le> x \<and> x < 2 ^ 63"

definition max_int64 :: i64 where
  "max_int64 = 9223372036854775807"

definition min_int64 :: i64 where
  "min_int64 = 9223372036854775808"

definition go_quot :: "'a::len word \<Rightarrow> 'a word \<Rightarrow> 'a word" where
  "go_quot x y = word_of_int (sint x sdiv sint y)"

definition go_rem :: "'a::len word \<Rightarrow> 'a word \<Rightarrow> 'a word" where
  "go_rem x y = word_of_int (sint x smod sint y)"

lemma sint_bounds64: "- (2 ^ 63) \<le> sint (x :: i64) \<and> sint x < 2 ^ 63"
  using sint_greater_eq [of x] sint_lt [of x] by simp

lemma fits64_sint [simp, intro!]: "fits64 (sint (x :: i64))"
  using sint_bounds64 [of x] by (simp add: fits64_def)

lemma sint_max_int64 [simp]: "sint max_int64 = 2 ^ 63 - 1"
  by (simp add: max_int64_def)

lemma sint_min_int64 [simp]: "sint min_int64 = - (2 ^ 63)"
  by (simp add: min_int64_def)

lemma sint_of_int64 [sint_arith]:
  "fits64 x \<Longrightarrow> sint (word_of_int x :: i64) = x"
  by (simp add: fits64_def signed_of_int signed_take_bit_int_eq_self)

lemma sint_wrap64: "sint (word_of_int x :: i64) = signed_take_bit 63 x"
  by (simp add: signed_of_int)

lemma plus64_of_int: "x + y = (word_of_int (sint x + sint y) :: i64)"
  by simp

lemma minus64_of_int: "x - y = (word_of_int (sint x - sint y) :: i64)"
  by simp

lemma mult64_of_int: "x * y = (word_of_int (sint x * sint y) :: i64)"
  by simp

lemma sint_plus64 [sint_arith]:
  "fits64 (sint x + sint y) \<Longrightarrow> sint (x + y :: i64) = sint x + sint y"
  by (subst plus64_of_int) (rule sint_of_int64)

lemma sint_minus64 [sint_arith]:
  "fits64 (sint x - sint y) \<Longrightarrow> sint (x - y :: i64) = sint x - sint y"
  by (subst minus64_of_int) (rule sint_of_int64)

lemma sint_mult64 [sint_arith]:
  "fits64 (sint x * sint y) \<Longrightarrow> sint (x * y :: i64) = sint x * sint y"
  by (subst mult64_of_int) (rule sint_of_int64)

lemma sint_eq_iff64: "(x :: i64) = y \<longleftrightarrow> sint x = sint y"
  by (rule word_eq_iff_signed)

lemma sint_zero_iff64 [simp]: "sint (x :: i64) = 0 \<longleftrightarrow> x = 0"
  by (rule signed_eq_0_iff)

lemma word_sless_iff64: "(x :: i64) <s y \<longleftrightarrow> sint x < sint y"
  by (rule word_sless_alt)

lemma word_sle_iff64: "(x :: i64) \<le>s y \<longleftrightarrow> sint x \<le> sint y"
  by (rule word_sle_eq)

section \<open>Truncated division\<close>

lemma sdiv_bounds: "0 < (d::int) \<Longrightarrow> \<bar>n sdiv d\<bar> \<le> \<bar>n\<bar>"
  using zdiv_mono2 [of "\<bar>n\<bar>" 1 d]
  by (auto simp: signed_divide_int_def abs_mult abs_sgn_eq pos_imp_zdiv_nonneg_iff)

lemma smod_bounds: "0 < (d::int) \<Longrightarrow> \<bar>n smod d\<bar> < d"
  by (simp add: signed_modulo_int_def abs_mult abs_sgn_eq)

lemma smod_sign: "0 < (d::int) \<Longrightarrow> (n < 0 \<longrightarrow> n smod d \<le> 0) \<and> (0 \<le> n \<longrightarrow> 0 \<le> n smod d)"
  by (simp add: signed_modulo_int_def sgn_if)

lemma sdiv_smod_eq: "(n::int) = n sdiv d * d + n smod d"
  by (simp add: sdiv_mult_smod_eq)

lemma sint_go_quot64:
  assumes "0 < sint y"
  shows "sint (go_quot x y :: i64) = sint x sdiv sint y"
proof -
  have mag: "\<bar>sint x sdiv sint y\<bar> \<le> \<bar>sint x\<bar>" using assms by (rule sdiv_bounds)
  have "sint x < 0 \<Longrightarrow> sint x sdiv sint y \<le> 0"
    using assms by (simp add: signed_divide_int_def sgn_if pos_imp_zdiv_nonneg_iff)
  with mag have "fits64 (sint x sdiv sint y)"
    using sint_bounds64 [of x] by (cases "sint x < 0") (auto simp: fits64_def)
  then show ?thesis by (simp add: go_quot_def sint_of_int64)
qed

lemma sint_go_rem64:
  assumes "0 < sint y"
  shows "sint (go_rem x y :: i64) = sint x smod sint y"
proof -
  have "\<bar>sint x smod sint y\<bar> < sint y" using assms by (rule smod_bounds)
  then have "fits64 (sint x smod sint y)"
    using sint_bounds64 [of y] by (auto simp: fits64_def)
  then show ?thesis by (simp add: go_rem_def sint_of_int64)
qed

end
