(* ===== verification/Money.thy ===== *)
theory Money
  imports Prelude
begin

text \<open>
  The money type of \<open>internal/platform/money/money.go\<close>: currencies, amounts
  of minor units, checked addition and subtraction, sums, and the two
  basis-point splits. Every Go operation is one definition; a Go error is a
  constructor of \<open>money_error\<close> (the sentinel the message wraps). The lemmas
  read each operation over the integers: it returns the exact result or
  refuses, and never wraps.
\<close>

section \<open>Data\<close>

datatype money_error =
    ErrInvalidCurrency | ErrCurrencyMismatch | ErrOverflow | ErrNoAmounts
  | ErrRateOutOfRange | ErrInvalidRounding | ErrMalformedJSON | ErrNotMinorUnits

type_synonym currency = string

record amount =
  minor :: i64
  currency_of :: currency

abbreviation zero_value :: amount where
  "zero_value \<equiv> \<lparr>minor = 0, currency_of = []\<rparr>"

datatype rounding =
    RoundUnspecified | RoundTowardZero | RoundAwayFromZero | RoundFloor
  | RoundCeil | RoundHalfAwayFromZero | RoundHalfEven | RoundOther "8 word"

type_synonym basis_points = i32

section \<open>Currencies and construction\<close>

definition upper_letter :: "char \<Rightarrow> bool" where
  "upper_letter ch \<longleftrightarrow> (65::nat) \<le> of_char ch \<and> of_char ch \<le> (90::nat)"

definition currency_valid :: "currency \<Rightarrow> bool" where
  "currency_valid c \<longleftrightarrow> (if length c \<noteq> 3 then False else list_all upper_letter c)"

definition parse_currency :: "string \<Rightarrow> money_error + currency" where
  "parse_currency s = (if \<not> currency_valid s then Inl ErrInvalidCurrency else Inr s)"

definition new_amount :: "i64 \<Rightarrow> currency \<Rightarrow> money_error + amount" where
  "new_amount m c =
     (if \<not> currency_valid c then Inl ErrInvalidCurrency
      else Inr \<lparr>minor = m, currency_of = c\<rparr>)"

definition zero_amount :: "currency \<Rightarrow> money_error + amount" where
  "zero_amount c = new_amount 0 c"

definition validate_amount :: "amount \<Rightarrow> money_error option" where
  "validate_amount a =
     (if \<not> currency_valid (currency_of a) then Some ErrInvalidCurrency else None)"

definition is_zero :: "amount \<Rightarrow> bool" where
  "is_zero a \<longleftrightarrow> minor a = 0"

definition is_positive :: "amount \<Rightarrow> bool" where
  "is_positive a \<longleftrightarrow> 0 <s minor a"

definition is_negative :: "amount \<Rightarrow> bool" where
  "is_negative a \<longleftrightarrow> minor a <s 0"

definition amount_equal :: "amount \<Rightarrow> amount \<Rightarrow> bool" where
  "amount_equal a b \<longleftrightarrow> minor a = minor b \<and> currency_of a = currency_of b"

section \<open>Checked arithmetic\<close>

definition pairwise :: "amount \<Rightarrow> amount \<Rightarrow> money_error option" where
  "pairwise a b =
     (case validate_amount a of
        Some e \<Rightarrow> Some e
      | None \<Rightarrow>
          (case validate_amount b of
             Some e \<Rightarrow> Some e
           | None \<Rightarrow>
               if currency_of a \<noteq> currency_of b then Some ErrCurrencyMismatch else None))"

definition add_minor :: "i64 \<Rightarrow> i64 \<Rightarrow> i64 option" where
  "add_minor x y =
     (if 0 <s y \<and> max_int64 - y <s x then None
      else if y <s 0 \<and> x <s min_int64 - y then None
      else Some (x + y))"

definition sub_minor :: "i64 \<Rightarrow> i64 \<Rightarrow> i64 option" where
  "sub_minor x y =
     (if y <s 0 \<and> max_int64 + y <s x then None
      else if 0 <s y \<and> x <s min_int64 + y then None
      else Some (x - y))"

definition add_amount :: "amount \<Rightarrow> amount \<Rightarrow> money_error + amount" where
  "add_amount a b =
     (case pairwise a b of
        Some e \<Rightarrow> Inl e
      | None \<Rightarrow>
          (case add_minor (minor a) (minor b) of
             None \<Rightarrow> Inl ErrOverflow
           | Some t \<Rightarrow> Inr \<lparr>minor = t, currency_of = currency_of a\<rparr>))"

definition sub_amount :: "amount \<Rightarrow> amount \<Rightarrow> money_error + amount" where
  "sub_amount a b =
     (case pairwise a b of
        Some e \<Rightarrow> Inl e
      | None \<Rightarrow>
          (case sub_minor (minor a) (minor b) of
             None \<Rightarrow> Inl ErrOverflow
           | Some d \<Rightarrow> Inr \<lparr>minor = d, currency_of = currency_of a\<rparr>))"

definition neg_amount :: "amount \<Rightarrow> money_error + amount" where
  "neg_amount a =
     (case validate_amount a of
        Some e \<Rightarrow> Inl e
      | None \<Rightarrow>
          (case sub_minor 0 (minor a) of
             None \<Rightarrow> Inl ErrOverflow
           | Some n \<Rightarrow> Inr \<lparr>minor = n, currency_of = currency_of a\<rparr>))"

definition abs_amount :: "amount \<Rightarrow> money_error + amount" where
  "abs_amount a =
     (case validate_amount a of
        Some e \<Rightarrow> Inl e
      | None \<Rightarrow> if 0 \<le>s minor a then Inr a else neg_amount a)"

definition cmp_amount :: "amount \<Rightarrow> amount \<Rightarrow> money_error + int" where
  "cmp_amount a b =
     (case pairwise a b of
        Some e \<Rightarrow> Inl e
      | None \<Rightarrow>
          if minor a <s minor b then Inr (- 1)
          else if minor b <s minor a then Inr 1
          else Inr 0)"

fun sum_from :: "amount \<Rightarrow> amount list \<Rightarrow> money_error + amount" where
  "sum_from acc [] = Inr acc"
| "sum_from acc (next # rest) =
     (case add_amount acc next of Inl e \<Rightarrow> Inl e | Inr t \<Rightarrow> sum_from t rest)"

fun sum_amounts :: "amount list \<Rightarrow> money_error + amount" where
  "sum_amounts [] = Inl ErrNoAmounts"
| "sum_amounts (a # rest) =
     (case validate_amount a of Some e \<Rightarrow> Inl e | None \<Rightarrow> sum_from a rest)"

section \<open>Rates and splits\<close>

definition basis_points_scale :: basis_points where
  "basis_points_scale = 10000"

definition scale_minor :: i64 where
  "scale_minor = 10000"

definition rate_valid :: "basis_points \<Rightarrow> bool" where
  "rate_valid b \<longleftrightarrow> 0 \<le>s b \<and> b \<le>s basis_points_scale"

fun rounding_valid :: "rounding \<Rightarrow> bool" where
  "rounding_valid RoundUnspecified = False"
| "rounding_valid (RoundOther _) = False"
| "rounding_valid _ = True"

definition rounds_away :: "i64 \<Rightarrow> i64 \<Rightarrow> bool \<Rightarrow> rounding \<Rightarrow> bool" where
  "rounds_away units fraction negative mode =
     (if fraction = 0 then False
      else case mode of
          RoundAwayFromZero \<Rightarrow> True
        | RoundFloor \<Rightarrow> negative
        | RoundCeil \<Rightarrow> \<not> negative
        | RoundHalfAwayFromZero \<Rightarrow> scale_minor \<le>s 2 * fraction
        | RoundHalfEven \<Rightarrow>
            (if scale_minor <s 2 * fraction then True
             else if 2 * fraction <s scale_minor then False
             else go_rem units 2 \<noteq> 0)
        | _ \<Rightarrow> False)"

definition split_units :: "i64 \<Rightarrow> basis_points \<Rightarrow> rounding \<Rightarrow> i64" where
  "split_units m rate mode =
     (let multiplier = word_of_int (sint rate) :: i64;
          whole = go_quot m scale_minor;
          part = go_rem m scale_minor * multiplier;
          units = whole * multiplier + go_quot part scale_minor;
          fraction = go_rem part scale_minor;
          negative = (m <s 0);
          fraction = (if fraction <s 0 then - fraction else fraction)
      in if rounds_away units fraction negative mode
         then (if negative then units - 1 else units + 1)
         else units)"

definition split_amount ::
  "amount \<Rightarrow> basis_points \<Rightarrow> rounding \<Rightarrow> money_error + (amount \<times> amount)" where
  "split_amount a rate mode =
     (case validate_amount a of
        Some e \<Rightarrow> Inl e
      | None \<Rightarrow>
          if \<not> rate_valid rate then Inl ErrRateOutOfRange
          else if \<not> rounding_valid mode then Inl ErrInvalidRounding
          else
            (let share = \<lparr>minor = split_units (minor a) rate mode, currency_of = currency_of a\<rparr>
             in case sub_amount a share of
                  Inl e \<Rightarrow> Inl e
                | Inr remainder \<Rightarrow> Inr (share, remainder)))"

definition split_rate ::
  "basis_points \<Rightarrow> basis_points \<Rightarrow> rounding \<Rightarrow> money_error + (basis_points \<times> basis_points)" where
  "split_rate b rate mode =
     (if \<not> rate_valid b then Inl ErrRateOutOfRange
      else if \<not> rate_valid rate then Inl ErrRateOutOfRange
      else if \<not> rounding_valid mode then Inl ErrInvalidRounding
      else
        (let product = b * rate;
             units = go_quot product basis_points_scale;
             units =
               (if rounds_away (word_of_int (sint units))
                     (word_of_int (sint (go_rem product basis_points_scale))) False mode
                then units + 1 else units)
         in Inr (units, b - units)))"

section \<open>Checked arithmetic is exact\<close>

lemma validate_amount_None [simp]:
  "validate_amount a = None \<longleftrightarrow> currency_valid (currency_of a)"
  by (simp add: validate_amount_def)

lemma add_minor_eq:
  "add_minor x y = (if fits64 (sint x + sint y) then Some (x + y) else None)"
proof -
  have hi: "0 < sint y \<Longrightarrow> sint (max_int64 - y) = 2 ^ 63 - 1 - sint y"
    using sint_bounds64 [of y] by (subst sint_minus64) (auto simp: fits64_def)
  have lo: "sint y < 0 \<Longrightarrow> sint (min_int64 - y) = - (2 ^ 63) - sint y"
    using sint_bounds64 [of y] by (subst sint_minus64) (auto simp: fits64_def)
  show ?thesis
    using hi lo sint_bounds64 [of x] sint_bounds64 [of y]
    by (cases "0 < sint y"; cases "sint y < 0")
       (auto simp: add_minor_def word_sless_iff64 fits64_def)
qed

lemma sub_minor_eq:
  "sub_minor x y = (if fits64 (sint x - sint y) then Some (x - y) else None)"
proof -
  have hi: "sint y < 0 \<Longrightarrow> sint (max_int64 + y) = 2 ^ 63 - 1 + sint y"
    using sint_bounds64 [of y] by (subst sint_plus64) (auto simp: fits64_def)
  have lo: "0 < sint y \<Longrightarrow> sint (min_int64 + y) = - (2 ^ 63) + sint y"
    using sint_bounds64 [of y] by (subst sint_plus64) (auto simp: fits64_def)
  show ?thesis
    using hi lo sint_bounds64 [of x] sint_bounds64 [of y]
    by (cases "0 < sint y"; cases "sint y < 0")
       (auto simp: sub_minor_def word_sless_iff64 fits64_def)
qed

lemma pairwise_None [simp]:
  "pairwise a b = None \<longleftrightarrow>
     currency_valid (currency_of a) \<and> currency_of b = currency_of a"
  by (auto simp: pairwise_def validate_amount_def split: option.splits)

lemma add_amount_Inr:
  "add_amount a b = Inr c \<longleftrightarrow>
     currency_valid (currency_of a) \<and> currency_of b = currency_of a \<and>
     fits64 (sint (minor a) + sint (minor b)) \<and>
     c = \<lparr>minor = minor a + minor b, currency_of = currency_of a\<rparr>"
  by (auto simp: add_amount_def add_minor_eq pairwise_def validate_amount_def)

lemma sub_amount_Inr:
  "sub_amount a b = Inr c \<longleftrightarrow>
     currency_valid (currency_of a) \<and> currency_of b = currency_of a \<and>
     fits64 (sint (minor a) - sint (minor b)) \<and>
     c = \<lparr>minor = minor a - minor b, currency_of = currency_of a\<rparr>"
  by (auto simp: sub_amount_def sub_minor_eq pairwise_def validate_amount_def)

lemma neg_amount_Inr:
  "neg_amount a = Inr c \<longleftrightarrow>
     currency_valid (currency_of a) \<and> fits64 (- sint (minor a)) \<and>
     c = \<lparr>minor = - minor a, currency_of = currency_of a\<rparr>"
  by (auto simp: neg_amount_def sub_minor_eq validate_amount_def)

lemma sint_neg64 [sint_arith]:
  "fits64 (- sint x) \<Longrightarrow> sint (- x :: i64) = - sint x"
  using sint_minus64 [of 0 x] by simp

lemma add_amount_sint:
  "add_amount a b = Inr c \<Longrightarrow>
     sint (minor c) = sint (minor a) + sint (minor b) \<and> currency_of c = currency_of a"
  by (auto simp: add_amount_Inr sint_plus64)

text \<open>The sum the loop computes, and when it computes one at all.\<close>

lemma sum_from_sound:
  "sum_from acc as = Inr t \<Longrightarrow>
     sint (minor t) = sint (minor acc) + (\<Sum>a\<leftarrow>as. sint (minor a)) \<and>
     currency_of t = currency_of acc \<and> (\<forall>a\<in>set as. currency_of a = currency_of acc)"
proof (induction as arbitrary: acc)
  case Nil
  then show ?case by simp
next
  case (Cons a as)
  then obtain m where m: "add_amount acc a = Inr m" "sum_from m as = Inr t"
    by (auto split: sum.splits)
  with Cons.IH [OF m(2)] show ?case
    using add_amount_sint [OF m(1)] by (auto simp: add_amount_Inr)
qed

section \<open>Rounding, as a reference\<close>

text \<open>
  What each mode means, over the integers: the quotient \<open>n / d\<close> taken to a
  whole number in the named direction. This is the abstract specification the
  word arithmetic of \<open>split_units\<close> is measured against.
\<close>

definition ceil_div :: "int \<Rightarrow> int \<Rightarrow> int" where
  "ceil_div n d = - ((- n) div d)"

fun round_div :: "rounding \<Rightarrow> int \<Rightarrow> int \<Rightarrow> int" where
  "round_div RoundFloor n d = n div d"
| "round_div RoundCeil n d = ceil_div n d"
| "round_div RoundTowardZero n d = (if n < 0 then ceil_div n d else n div d)"
| "round_div RoundAwayFromZero n d = (if n < 0 then n div d else ceil_div n d)"
| "round_div RoundHalfAwayFromZero n d =
     (if n < 0 then - ((2 * (- n) + d) div (2 * d)) else (2 * n + d) div (2 * d))"
| "round_div RoundHalfEven n d =
     (let q = n div d; r = n mod d in
      if 2 * r < d then q else if d < 2 * r then q + 1 else if even q then q else q + 1)"
| "round_div RoundUnspecified n d = n"
| "round_div (RoundOther _) n d = n"

text \<open>The same step as the code takes it: truncate, then maybe move one away from zero.\<close>

definition moves_away :: "rounding \<Rightarrow> int \<Rightarrow> int \<Rightarrow> int \<Rightarrow> bool \<Rightarrow> bool" where
  "moves_away mode d q f negative \<longleftrightarrow> f \<noteq> 0 \<and>
     (case mode of
        RoundAwayFromZero \<Rightarrow> True
      | RoundFloor \<Rightarrow> negative
      | RoundCeil \<Rightarrow> \<not> negative
      | RoundHalfAwayFromZero \<Rightarrow> d \<le> 2 * f
      | RoundHalfEven \<Rightarrow> d < 2 * f \<or> (2 * f = d \<and> odd q)
      | _ \<Rightarrow> False)"

lemma div_add_half:
  assumes "0 < (d::int)"
  shows "(2 * n + d) div (2 * d) = n div d + (if d \<le> 2 * (n mod d) then 1 else 0)"
proof -
  let ?q = "n div d" and ?r = "n mod d"
  have n: "2 * n = 2 * (d * ?q) + 2 * ?r"
    using mult_div_mod_eq [of d n] by linarith
  have r: "0 \<le> ?r" "?r < d" using assms by auto
  show ?thesis
  proof (cases "d \<le> 2 * ?r")
    case True
    have "2 * n + d = (2 * d) * (?q + 1) + (2 * ?r - d)" using n by (simp add: algebra_simps)
    then have "(2 * n + d) div (2 * d) = ?q + 1"
      by (rule int_div_pos_eq) (use True r in linarith)+
    with True show ?thesis by simp
  next
    case False
    have "2 * n + d = (2 * d) * ?q + (2 * ?r + d)" using n by (simp add: algebra_simps)
    then have "(2 * n + d) div (2 * d) = ?q"
      by (rule int_div_pos_eq) (use False r in linarith)+
    with False show ?thesis by simp
  qed
qed

lemma neg_div_pos:
  assumes "0 < (d::int)"
  shows "(- n) div d = - (n div d) - (if n mod d = 0 then 0 else 1)"
  using assms zdiv_zminus1_eq_if [of d n] by simp

lemma neg_mod_pos:
  assumes "0 < (d::int)"
  shows "(- n) mod d = (if n mod d = 0 then 0 else d - n mod d)"
  using assms zmod_zminus1_eq_if [of n d] by simp

lemma sdiv_smod_nonneg:
  fixes d n :: int
  assumes "0 \<le> n" and "0 < d"
  shows "n sdiv d = n div d" and "n smod d = n mod d"
  using assms
  by (auto simp: signed_divide_int_def signed_modulo_int_def sgn_if)

lemma round_div_moves:
  fixes d n :: int
  assumes "0 < d" and "rounding_valid mode"
  defines "q \<equiv> n sdiv d" and "f \<equiv> \<bar>n smod d\<bar>"
  shows "round_div mode n d =
           (if moves_away mode d q f (n < 0) then (if n < 0 then q - 1 else q + 1) else q)"
proof (cases "n < 0")
  case False
  then have qf: "q = n div d" "f = n mod d"
    using assms(1) by (simp_all add: q_def f_def sdiv_smod_nonneg)
  show ?thesis
    using False assms(1,2)
    by (cases mode)
       (auto simp: qf moves_away_def ceil_div_def neg_div_pos div_add_half Let_def)
next
  case True
  define k where "k = - n"
  have k: "0 < k" "n = - k" using True by (simp_all add: k_def)
  have qf: "q = - (k div d)" "f = k mod d"
    using assms(1) k by (simp_all add: q_def f_def sdiv_smod_nonneg)
  have r: "0 \<le> k mod d" "k mod d < d" using assms(1) by auto
  show ?thesis
    using k assms(1,2) r
    by (cases mode)
       (auto simp: qf moves_away_def ceil_div_def neg_div_pos neg_mod_pos div_add_half Let_def)
qed

section \<open>The split is exact\<close>

text \<open>Dividing first and multiplying after gives the same truncated quotient.\<close>

lemma split_quotient_nonneg:
  fixes A m d :: int
  assumes "0 \<le> A" "0 \<le> m" "0 < d"
  shows "(A div d) * m + ((A mod d) * m) div d = (A * m) div d"
    and "((A mod d) * m) mod d = (A * m) mod d"
proof -
  have "A * m = (A mod d) * m + ((A div d) * m) * d"
    using div_mult_mod_eq [of A d] by (metis add.commute distrib_right mult.assoc mult.commute)
  then show "(A div d) * m + ((A mod d) * m) div d = (A * m) div d"
    using assms(3) by simp
  show "((A mod d) * m) mod d = (A * m) mod d"
    by (rule mod_mult_left_eq)
qed

lemma split_quotient:
  fixes A m d :: int
  assumes "0 \<le> m" "0 < d"
  shows "(A sdiv d) * m + ((A smod d) * m) sdiv d = (A * m) sdiv d"
    and "((A smod d) * m) smod d = (A * m) smod d"
proof -
  have pos: "(B sdiv d) * m + ((B smod d) * m) sdiv d = (B * m) sdiv d
      \<and> ((B smod d) * m) smod d = (B * m) smod d" if "0 \<le> B" for B
    using that assms split_quotient_nonneg [of B m d] by (simp add: sdiv_smod_nonneg)
  show "(A sdiv d) * m + ((A smod d) * m) sdiv d = (A * m) sdiv d"
    using pos [of A] pos [of "- A"] by (cases "0 \<le> A") auto
  show "((A smod d) * m) smod d = (A * m) smod d"
    using pos [of A] pos [of "- A"] by (cases "0 \<le> A") auto
qed

definition between_zero_and :: "int \<Rightarrow> int \<Rightarrow> bool" where
  "between_zero_and A y \<longleftrightarrow> (if A < 0 then A \<le> y \<and> y \<le> 0 else 0 \<le> y \<and> y \<le> A)"

lemma between_zero_and_fits: "between_zero_and A y \<Longrightarrow> fits64 A \<Longrightarrow> fits64 y"
  by (auto simp: between_zero_and_def fits64_def split: if_splits)

lemma between_zero_and_minus: "between_zero_and (- A) (- y) \<longleftrightarrow> between_zero_and A y"
  by (auto simp: between_zero_and_def)

lemma between_whole:
  assumes "0 \<le> M" "M \<le> d" "0 < (d::int)"
  shows "between_zero_and A ((A sdiv d) * M)"
proof -
  have pos: "between_zero_and B ((B sdiv d) * M)" if "0 \<le> B" for B
  proof -
    have "(B div d) * M \<le> (B div d) * d"
      using that assms by (intro mult_left_mono) (auto simp: pos_imp_zdiv_nonneg_iff)
    also have "\<dots> \<le> B"
      using assms(3) by (simp add: minus_mod_eq_div_mult [symmetric])
    finally show ?thesis
      using that assms by (simp add: between_zero_and_def sdiv_smod_nonneg pos_imp_zdiv_nonneg_iff)
  qed
  show ?thesis
    using pos [of A] pos [of "- A"] between_zero_and_minus [of A "(A sdiv d) * M"]
    by (cases "0 \<le> A") auto
qed

lemma between_quotient:
  assumes "0 \<le> M" "M \<le> d" "0 < (d::int)"
  shows "between_zero_and A ((A * M) sdiv d)"
    and "(A * M) smod d \<noteq> 0 \<Longrightarrow> A < 0 \<Longrightarrow> between_zero_and A ((A * M) sdiv d - 1)"
    and "(A * M) smod d \<noteq> 0 \<Longrightarrow> \<not> A < 0 \<Longrightarrow> between_zero_and A ((A * M) sdiv d + 1)"
proof -
  have pos: "0 \<le> (B * M) sdiv d \<and> (B * M) sdiv d \<le> B \<and>
      ((B * M) smod d \<noteq> 0 \<longrightarrow> (B * M) sdiv d + 1 \<le> B)" if "0 \<le> B" for B
  proof -
    have le: "B * M \<le> B * d" using that assms by (intro mult_left_mono) auto
    have "(B * M) div d \<le> B"
      using zdiv_mono1 [OF le assms(3)] assms(3) by simp
    moreover have "(B * M) div d < B" if "(B * M) mod d \<noteq> 0"
    proof -
      have "(B * M) div d * d < B * M"
        using that assms(3) by (metis add.right_neutral add_less_cancel_left div_mult_mod_eq
            le_neq_trans pos_mod_sign)
      with le have "(B * M) div d * d < B * d" by linarith
      then show ?thesis using assms(3) by simp
    qed
    ultimately show ?thesis
      using that assms by (auto simp: sdiv_smod_nonneg pos_imp_zdiv_nonneg_iff)
  qed
  show "between_zero_and A ((A * M) sdiv d)"
    using pos [of A] pos [of "- A"] by (cases "0 \<le> A") (auto simp: between_zero_and_def)
  show "(A * M) smod d \<noteq> 0 \<Longrightarrow> A < 0 \<Longrightarrow> between_zero_and A ((A * M) sdiv d - 1)"
    using pos [of "- A"] by (auto simp: between_zero_and_def)
  show "(A * M) smod d \<noteq> 0 \<Longrightarrow> \<not> A < 0 \<Longrightarrow> between_zero_and A ((A * M) sdiv d + 1)"
    using pos [of A] by (auto simp: between_zero_and_def)
qed

lemma sint_scale_minor [simp]: "sint scale_minor = 10000"
  by (simp add: scale_minor_def)

lemma smod_2_eq_0: "(k::int) smod 2 = 0 \<longleftrightarrow> even k"
proof -
  have "even k \<longleftrightarrow> \<bar>k\<bar> mod 2 = 0" by (simp only: even_iff_mod_2_eq_zero [symmetric] dvd_abs_iff)
  then show ?thesis by (auto simp: signed_modulo_int_def sgn_if)
qed

lemma rounds_away_iff:
  assumes "0 \<le> sint f" "sint f < 10000"
  shows "rounds_away u f negative mode = moves_away mode 10000 (sint u) (sint f) negative"
proof -
  have two: "sint (2 * f) = 2 * sint f"
    using assms by (subst sint_mult64) (auto simp: fits64_def)
  have "sint (go_rem u 2) = sint u smod 2" by (simp add: sint_go_rem64)
  then have odd: "go_rem u 2 = 0 \<longleftrightarrow> even (sint u)"
    by (metis sint_zero_iff64 smod_2_eq_0)
  show ?thesis
    by (cases mode)
       (auto simp: rounds_away_def moves_away_def word_sless_iff64 word_sle_iff64 two odd)
qed

lemma split_units_correct:
  assumes M: "0 \<le> sint rate" "sint rate \<le> 10000" and mode: "rounding_valid mode"
  shows "sint (split_units m rate mode) = round_div mode (sint m * sint rate) 10000"
    and "between_zero_and (sint m) (sint (split_units m rate mode))"
proof -
  let ?A = "sint m" and ?M = "sint rate"
  define mult where "mult = (word_of_int (sint rate) :: i64)"
  have mult: "sint mult = ?M"
    unfolding mult_def by (rule sint_of_int64) (use M in \<open>simp add: fits64_def\<close>)
  define whole where "whole = go_quot m scale_minor"
  have whole: "sint whole = ?A sdiv 10000" by (simp add: whole_def sint_go_quot64)
  define part where "part = go_rem m scale_minor * mult"
  have rem: "\<bar>?A smod 10000\<bar> < 10000" by (rule smod_bounds) simp
  have part_le: "\<bar>(?A smod 10000) * ?M\<bar> \<le> 10000 * 10000"
    using rem M unfolding abs_mult by (intro mult_mono) auto
  have part: "sint part = (?A smod 10000) * ?M"
    unfolding part_def using part_le
    by (subst sint_mult64) (auto simp: sint_go_rem64 mult fits64_def abs_le_iff)
  define units where "units = whole * mult + go_quot part scale_minor"
  have w: "sint (whole * mult) = (?A sdiv 10000) * ?M"
    using between_zero_and_fits [OF between_whole [OF M, of ?A]]
    by (subst sint_mult64) (auto simp: whole mult)
  have units: "sint units = (?A * ?M) sdiv 10000"
  proof -
    have "fits64 ((?A sdiv 10000) * ?M + ((?A smod 10000) * ?M) sdiv 10000)"
      using between_zero_and_fits [OF between_quotient(1) [OF M, of ?A]] M
      by (simp add: split_quotient(1))
    then show ?thesis
      unfolding units_def using M
      by (subst sint_plus64) (simp_all add: w part sint_go_quot64 split_quotient(1))
  qed
  define rest where "rest = go_rem part scale_minor"
  have rest: "sint rest = (?A * ?M) smod 10000"
    using M by (simp add: rest_def sint_go_rem64 part split_quotient(2))
  have rest_le: "\<bar>(?A * ?M) smod 10000\<bar> < 10000" by (rule smod_bounds) simp
  define fraction where "fraction = (if rest <s 0 then - rest else rest)"
  have fraction: "sint fraction = \<bar>(?A * ?M) smod 10000\<bar>"
    using rest_le by (auto simp: fraction_def word_sless_iff64 rest sint_neg64 fits64_def)
  have neg: "moves_away mode 10000 q \<bar>(?A * ?M) smod 10000\<bar> (?A < 0)
      = moves_away mode 10000 q \<bar>(?A * ?M) smod 10000\<bar> (?A * ?M < 0)" for q
  proof (cases "?M = 0")
    case False
    with M have "0 < ?M" by simp
    then show ?thesis by (simp add: mult_less_0_iff)
  qed (simp add: moves_away_def)
  have away: "rounds_away units fraction (m <s 0) mode
      = moves_away mode 10000 ((?A * ?M) sdiv 10000) \<bar>(?A * ?M) smod 10000\<bar> (?A < 0)"
    using rest_le by (subst rounds_away_iff) (simp_all add: fraction units word_sless_iff64)
  have body: "split_units m rate mode =
      (if rounds_away units fraction (m <s 0) mode
       then (if m <s 0 then units - 1 else units + 1) else units)"
    unfolding split_units_def Let_def fraction_def rest_def units_def part_def whole_def mult_def
    by (rule refl)
  have body: "split_units m rate mode =
      (if moves_away mode 10000 ((?A * ?M) sdiv 10000) \<bar>(?A * ?M) smod 10000\<bar> (?A < 0)
       then (if ?A < 0 then units - 1 else units + 1) else units)"
    unfolding body away by (simp only: word_sless_iff64 sint_0)
  have step: "sint (split_units m rate mode) =
      (if moves_away mode 10000 ((?A * ?M) sdiv 10000) \<bar>(?A * ?M) smod 10000\<bar> (?A < 0)
       then (if ?A < 0 then (?A * ?M) sdiv 10000 - 1 else (?A * ?M) sdiv 10000 + 1)
       else (?A * ?M) sdiv 10000)
     \<and> between_zero_and ?A (sint (split_units m rate mode))"
  proof (cases "moves_away mode 10000 ((?A * ?M) sdiv 10000) \<bar>(?A * ?M) smod 10000\<bar> (?A < 0)")
    case True
    then have f: "(?A * ?M) smod 10000 \<noteq> 0" by (auto simp: moves_away_def)
    show ?thesis
    proof (cases "?A < 0")
      case True
      with between_quotient(2) [OF M _ f] have b: "between_zero_and ?A ((?A * ?M) sdiv 10000 - 1)"
        by simp
      with between_zero_and_fits [OF this] True
        \<open>moves_away _ _ _ _ _\<close> show ?thesis
        by (simp add: body sint_minus64 units)
    next
      case False
      with between_quotient(3) [OF M _ f] have b: "between_zero_and ?A ((?A * ?M) sdiv 10000 + 1)"
        by simp
      with between_zero_and_fits [OF this] False
        \<open>moves_away _ _ _ _ _\<close> show ?thesis
        by (simp add: body sint_plus64 units)
    qed
  next
    case False
    with between_quotient(1) [OF M, of ?A] show ?thesis
      by (simp add: body units)
  qed
  then show "between_zero_and ?A (sint (split_units m rate mode))" ..
  have "?A < 0 \<longleftrightarrow> ?A * ?M < 0"
    if "moves_away mode 10000 q \<bar>(?A * ?M) smod 10000\<bar> (?A < 0)" for q
    using that M by (auto simp: moves_away_def mult_less_0_iff le_less)
  with step show "sint (split_units m rate mode) = round_div mode (?A * ?M) 10000"
    unfolding round_div_moves [of 10000, OF _ mode, simplified] neg [symmetric] by auto
qed

lemma sint_basis_points_scale [simp]: "sint basis_points_scale = 10000"
  by (simp add: basis_points_scale_def)

lemma rate_valid_iff: "rate_valid b \<longleftrightarrow> 0 \<le> sint b \<and> sint b \<le> 10000"
  by (simp add: rate_valid_def word_sle_eq)

text \<open>The remainder never overflows, so a split with valid inputs always succeeds.\<close>

lemma split_amount_Inr:
  assumes "currency_valid (currency_of a)" and "rate_valid rate" and "rounding_valid mode"
  defines "u \<equiv> split_units (minor a) rate mode"
  shows "split_amount a rate mode =
     Inr (\<lparr>minor = u, currency_of = currency_of a\<rparr>,
          \<lparr>minor = minor a - u, currency_of = currency_of a\<rparr>)"
    and "sint (minor a - u) = sint (minor a) - sint u"
proof -
  have b: "between_zero_and (sint (minor a)) (sint u)"
    unfolding u_def using assms(2,3) by (intro split_units_correct(2)) (auto simp: rate_valid_iff)
  then have fits: "fits64 (sint (minor a) - sint u)"
    using sint_bounds64 [of "minor a"] sint_bounds64 [of u]
    by (auto simp: between_zero_and_def fits64_def split: if_splits)
  then show "sint (minor a - u) = sint (minor a) - sint u" by (rule sint_minus64)
  have "sub_amount a \<lparr>minor = u, currency_of = currency_of a\<rparr> =
      Inr \<lparr>minor = minor a - u, currency_of = currency_of a\<rparr>"
    using fits assms(1) by (simp add: sub_amount_Inr)
  then show "split_amount a rate mode =
     Inr (\<lparr>minor = u, currency_of = currency_of a\<rparr>,
          \<lparr>minor = minor a - u, currency_of = currency_of a\<rparr>)"
    using assms by (simp add: split_amount_def validate_amount_def Let_def)
qed

text \<open>(C19) Splitting an amount never loses or invents a minor unit: with a well-formed
  currency, a rate from 0 to 10000 and a named rounding mode, \<open>Split\<close> succeeds, the share is
  the exact quotient amount times rate over 10000 rounded in the named direction, and share
  plus remainder is the amount itself, in the amount's currency, for every 64 bit amount.\<close>

theorem split_amount_exact:
  assumes "currency_valid (currency_of a)" and "rate_valid rate" and "rounding_valid mode"
  shows "\<exists>s r. split_amount a rate mode = Inr (s, r) \<and>
     sint (minor s) = round_div mode (sint (minor a) * sint rate) 10000 \<and>
     sint (minor s) + sint (minor r) = sint (minor a) \<and>
     \<bar>sint (minor s)\<bar> \<le> \<bar>sint (minor a)\<bar> \<and>
     currency_of s = currency_of a \<and> currency_of r = currency_of a"
proof -
  have M: "0 \<le> sint rate" "sint rate \<le> 10000" using assms(2) by (auto simp: rate_valid_iff)
  have "\<bar>sint (split_units (minor a) rate mode)\<bar> \<le> \<bar>sint (minor a)\<bar>"
    using split_units_correct(2) [OF M assms(3), of "minor a"]
    by (auto simp: between_zero_and_def split: if_splits)
  with split_units_correct(1) [OF M assms(3)] split_amount_Inr [OF assms] show ?thesis
    by auto
qed

theorem split_amount_exact_witness:
  "\<exists>s r. split_amount \<lparr>minor = - 9223372036854775808, currency_of = ''EUR''\<rparr> 3333 RoundHalfEven
       = Inr (s, r) \<and> sint (minor s) + sint (minor r) = - 9223372036854775808"
  using split_amount_exact [of "\<lparr>minor = - 9223372036854775808, currency_of = ''EUR''\<rparr>"
      3333 RoundHalfEven]
  by (auto simp: currency_valid_def upper_letter_def rate_valid_iff)

section \<open>Splitting a rate\<close>

lemma sint_of_int32:
  "- (2 ^ 31) \<le> x \<Longrightarrow> x < 2 ^ 31 \<Longrightarrow> sint (word_of_int x :: i32) = x"
  by (simp add: signed_of_int signed_take_bit_int_eq_self)

lemma split_rate_units:
  assumes "rate_valid b" and "rate_valid rate"
  shows "sint (go_quot (b * rate) basis_points_scale) = (sint b * sint rate) div 10000"
    and "sint (go_rem (b * rate) basis_points_scale) = (sint b * sint rate) mod 10000"
    and "(sint b * sint rate) div 10000 \<le> sint b"
    and "(sint b * sint rate) mod 10000 \<noteq> 0 \<Longrightarrow> (sint b * sint rate) div 10000 + 1 \<le> sint b"
proof -
  let ?p = "sint b * sint rate"
  have M: "0 \<le> sint b" "sint b \<le> 10000" "0 \<le> sint rate" "sint rate \<le> 10000"
    using assms by (auto simp: rate_valid_iff)
  have p: "0 \<le> ?p" "?p \<le> 10000 * 10000"
    using M mult_mono [of "sint b" 10000 "sint rate" 10000] by auto
  have prod: "sint (b * rate) = ?p"
  proof -
    have "b * rate = word_of_int ?p" by simp
    then show ?thesis using p sint_of_int32 [of ?p] by simp
  qed
  have d: "0 \<le> ?p div 10000" "?p div 10000 \<le> 10000"
    using p by (auto simp: pos_imp_zdiv_nonneg_iff)
  show "sint (go_quot (b * rate) basis_points_scale) = ?p div 10000"
    unfolding go_quot_def prod using p d
    by (subst sint_of_int32) (auto simp: sdiv_smod_nonneg)
  have "0 \<le> ?p mod 10000" "?p mod 10000 < 10000" by auto
  then show "sint (go_rem (b * rate) basis_points_scale) = ?p mod 10000"
    unfolding go_rem_def prod using p
    by (subst sint_of_int32) (auto simp: sdiv_smod_nonneg simp del: pos_mod_sign pos_mod_bound)
  show "?p div 10000 \<le> sint b" and "?p mod 10000 \<noteq> 0 \<Longrightarrow> ?p div 10000 + 1 \<le> sint b"
    using between_quotient(1,3) [of "sint rate" 10000 "sint b"] M p
    by (auto simp: between_zero_and_def sdiv_smod_nonneg)
qed

text \<open>(C20) Splitting a rate is exact too: for two valid rates and a named mode, the share is the
  product over 10000 rounded in the named direction, it lies between 0 and the rate split, and
  share plus remainder is that rate; both results are valid rates again.\<close>

theorem split_rate_exact:
  assumes "rate_valid b" and "rate_valid rate" and "rounding_valid mode"
  shows "\<exists>s r. split_rate b rate mode = Inr (s, r) \<and>
     sint s = round_div mode (sint b * sint rate) 10000 \<and> sint s + sint r = sint b \<and>
     rate_valid s \<and> rate_valid r"
proof -
  let ?p = "sint b * sint rate" and ?q = "go_quot (b * rate) basis_points_scale"
  note u = split_rate_units [OF assms(1,2)]
  have M: "0 \<le> sint b" "sint b \<le> 10000" "0 \<le> sint rate"
    using assms by (auto simp: rate_valid_iff)
  have p: "0 \<le> ?p" using M by simp
  define up where "up \<longleftrightarrow> moves_away mode 10000 (?p div 10000) (?p mod 10000) False"
  have q0: "0 \<le> ?p div 10000" using p by (simp add: pos_imp_zdiv_nonneg_iff)
  have wide: "sint (word_of_int (sint ?q) :: i64) = ?p div 10000"
      "sint (word_of_int (sint (go_rem (b * rate) basis_points_scale)) :: i64) = ?p mod 10000"
    unfolding u(1,2) using q0 u(3) M by (auto intro!: sint_of_int64 simp: fits64_def)
  have away: "rounds_away (word_of_int (sint ?q))
      (word_of_int (sint (go_rem (b * rate) basis_points_scale))) False mode = up"
    using rounds_away_iff [of "word_of_int (sint (go_rem (b * rate) basis_points_scale))"
        "word_of_int (sint ?q)" False mode]
    unfolding wide up_def by simp
  define s where "s = (if up then ?q + 1 else ?q)"
  have s: "sint s = (if up then ?p div 10000 + 1 else ?p div 10000)"
    and s_le: "sint s \<le> sint b" and s_ge: "0 \<le> sint s"
  proof -
    have one: "up \<Longrightarrow> ?p div 10000 + 1 \<le> sint b"
      using u(4) by (auto simp: up_def moves_away_def)
    have "?q + 1 = word_of_int (sint ?q + 1)" by simp
    then have "up \<Longrightarrow> sint (?q + 1) = ?p div 10000 + 1"
      using one q0 M u(1) sint_of_int32 [of "sint ?q + 1"] by simp
    then show s: "sint s = (if up then ?p div 10000 + 1 else ?p div 10000)"
      by (simp add: s_def u(1))
    show "sint s \<le> sint b" "0 \<le> sint s" using one q0 u(3) by (auto simp: s)
  qed
  have r: "sint (b - s) = sint b - sint s"
  proof -
    have "b - s = word_of_int (sint b - sint s)" by simp
    then show ?thesis using sint_of_int32 [of "sint b - sint s"] s_le s_ge M by simp
  qed
  have "round_div mode ?p 10000 = sint s"
    using round_div_moves [of 10000 mode ?p] assms(3) p
    by (simp add: sdiv_smod_nonneg s up_def)
  moreover have "split_rate b rate mode = Inr (s, b - s)"
    unfolding split_rate_def Let_def away s_def using assms by simp
  ultimately show ?thesis
    using s_le s_ge r M by (auto simp: rate_valid_iff)
qed

theorem split_rate_exact_witness:
  "\<exists>s r. split_rate 333 5000 RoundCeil = Inr (s, r) \<and> sint s = 167 \<and> sint r = 166"
proof -
  have "rate_valid 333" "rate_valid 5000" "rounding_valid RoundCeil"
    by (simp_all add: rate_valid_iff)
  from split_rate_exact [OF this] show ?thesis by (auto simp: ceil_div_def)
qed

text \<open>(C21) Addition and subtraction answer exactly one of four things: a malformed currency on
  either side, two different currencies, a result outside 64 bits, or the exact result in the
  shared currency. Nothing wraps.\<close>

theorem add_sub_exact_or_refused:
  "add_amount a b =
     (if \<not> (currency_valid (currency_of a) \<and> currency_valid (currency_of b)) then Inl ErrInvalidCurrency
      else if currency_of a \<noteq> currency_of b then Inl ErrCurrencyMismatch
      else if \<not> fits64 (sint (minor a) + sint (minor b)) then Inl ErrOverflow
      else Inr \<lparr>minor = word_of_int (sint (minor a) + sint (minor b)), currency_of = currency_of a\<rparr>)
   \<and> sub_amount a b =
     (if \<not> (currency_valid (currency_of a) \<and> currency_valid (currency_of b)) then Inl ErrInvalidCurrency
      else if currency_of a \<noteq> currency_of b then Inl ErrCurrencyMismatch
      else if \<not> fits64 (sint (minor a) - sint (minor b)) then Inl ErrOverflow
      else Inr \<lparr>minor = word_of_int (sint (minor a) - sint (minor b)), currency_of = currency_of a\<rparr>)"
  by (simp add: add_amount_def sub_amount_def pairwise_def validate_amount_def
      add_minor_eq sub_minor_eq)

end
