(* ===== verification/GoText.thy ===== *)
theory GoText
  imports Prelude "HOL-Library.Sublist" "HOL-Library.Char_ord" "HOL-Library.List_Lexorder"
begin

text \<open>
  What the components use of Go's \<open>strings\<close> and \<open>strconv\<close> packages. A Go string is
  its bytes, a list of \<open>char\<close>. \<open>trim_space\<close> is \<open>strings.TrimSpace\<close> with Unicode
  white space recognised in its UTF-8 encodings; \<open>dec_nat\<close> is \<open>strconv.FormatUint\<close>
  in base ten; \<open>quote\<close> is \<open>strconv.Quote\<close> on the bytes of ASCII text, with every
  byte of a multi-byte character kept as it is, which is what \<open>Quote\<close> does with
  printable ones.
\<close>

section \<open>strings.TrimSpace\<close>

definition space_encodings :: "nat list list" where
  "space_encodings =
     [[9], [10], [11], [12], [13], [32], [194, 133], [194, 160], [225, 154, 128],
      [226, 128, 128], [226, 128, 129], [226, 128, 130], [226, 128, 131], [226, 128, 132],
      [226, 128, 133], [226, 128, 134], [226, 128, 135], [226, 128, 136], [226, 128, 137],
      [226, 128, 138], [226, 128, 168], [226, 128, 169], [226, 128, 175], [226, 129, 159],
      [227, 128, 128]]"

definition strip_one :: "nat list list \<Rightarrow> string \<Rightarrow> string option" where
  "strip_one encs s =
     (case filter (\<lambda>e. e \<noteq> [] \<and> e = map of_char (take (length e) s)) encs of
        [] \<Rightarrow> None
      | e # _ \<Rightarrow> Some (drop (length e) s))"

lemma strip_one_SomeD:
  assumes "strip_one encs s = Some t"
  obtains e where "e \<in> set encs" "e \<noteq> []" "map of_char s = e @ map of_char t"
proof -
  obtain e es where f: "filter (\<lambda>e. e \<noteq> [] \<and> e = map of_char (take (length e) s)) encs = e # es"
      and t: "t = drop (length e) s"
    using assms by (auto simp: strip_one_def split: list.splits)
  then have "e \<in> set (filter (\<lambda>e. e \<noteq> [] \<and> e = map of_char (take (length e) s)) encs)" by simp
  then have e: "e \<in> set encs" "e \<noteq> []" "e = take (length e) (map of_char s)"
    by (auto simp: take_map)
  have "map of_char s = take (length e) (map of_char s) @ map of_char t"
    unfolding t drop_map [symmetric] by simp
  then have "map of_char s = e @ map of_char t"
    using e(3) by metis
  with e(1,2) show ?thesis by (rule that)
qed

lemma strip_one_shorter: "strip_one encs s = Some t \<Longrightarrow> length t < length s"
  by (erule strip_one_SomeD) (metis add_less_same_cancel2 length_append length_greater_0_conv
      length_map less_add_same_cancel2)

function trim_with :: "nat list list \<Rightarrow> string \<Rightarrow> string" where
  "trim_with encs s =
     (case strip_one encs s of None \<Rightarrow> s | Some t \<Rightarrow> trim_with encs t)"
  by pat_completeness auto
termination
  by (relation "measure (\<lambda>(encs, s). length s)") (auto dest: strip_one_shorter)

declare trim_with.simps [simp del]

definition trim_space :: "string \<Rightarrow> string" where
  "trim_space s =
     rev (trim_with (map rev space_encodings) (rev (trim_with space_encodings s)))"

text \<open>What a trim removes is a run of whole encodings.\<close>

lemma trim_with_run:
  "\<exists>ws. set ws \<subseteq> set encs \<and> map of_char s = concat ws @ map of_char (trim_with encs s)"
proof (induction encs s rule: trim_with.induct)
  case (1 encs s)
  show ?case
  proof (cases "strip_one encs s")
    case None
    then show ?thesis
      by (intro exI [of _ "[]"]) (simp add: trim_with.simps [of encs s])
  next
    case (Some t)
    obtain e where e: "e \<in> set encs" "map of_char s = e @ map of_char t"
      using Some by (elim strip_one_SomeD) auto
    from "1.IH" [OF Some] obtain ws where
      "set ws \<subseteq> set encs" "map of_char t = concat ws @ map of_char (trim_with encs t)" by blast
    with e Some show ?thesis
      by (intro exI [of _ "e # ws"]) (simp add: trim_with.simps [of encs s])
  qed
qed

definition space_byte :: "nat \<Rightarrow> bool" where
  "space_byte n \<longleftrightarrow> n \<in> {9, 10, 11, 12, 13, 32} \<or> 128 \<le> n"

lemma space_encodings_bytes: "e \<in> set space_encodings \<Longrightarrow> n \<in> set e \<Longrightarrow> space_byte n"
  by (auto simp: space_encodings_def space_byte_def)

text \<open>A text with a visible ASCII byte is not blank.\<close>

lemma trim_space_nonblank:
  assumes "c \<in> set s" and "\<not> space_byte (of_char c)"
  shows "trim_space s \<noteq> []"
proof
  assume blank: "trim_space s = []"
  define m where "m = trim_with space_encodings s"
  obtain ws where ws: "set ws \<subseteq> set space_encodings"
      "map of_char s = concat ws @ map of_char m"
    using trim_with_run [of space_encodings s] m_def by blast
  obtain vs where vs: "set vs \<subseteq> set (map rev space_encodings)"
      "map of_char (rev m) = concat vs"
    using trim_with_run [of "map rev space_encodings" "rev m"] blank
    by (auto simp: trim_space_def m_def)
  have "n \<in> set (concat vs) \<Longrightarrow> space_byte n" for n
    using vs(1) space_encodings_bytes by fastforce
  moreover have "n \<in> set (concat ws) \<Longrightarrow> space_byte n" for n
    using ws(1) space_encodings_bytes by fastforce
  moreover have "set (map of_char s) = set (concat ws) \<union> (set (concat vs) :: nat set)"
    using ws(2) vs(2) by (metis list.set_map set_append set_rev)
  moreover have "of_char c \<in> (set (map of_char s) :: nat set)" using assms(1) by simp
  ultimately show False using assms(2) by blast
qed

section \<open>strconv.FormatUint in base ten\<close>

definition digit_char :: "nat \<Rightarrow> char" where
  "digit_char d = char_of (48 + d)"

fun dec_nat :: "nat \<Rightarrow> string" where
  "dec_nat n = (if n < 10 then [digit_char n] else dec_nat (n div 10) @ [digit_char (n mod 10)])"

declare dec_nat.simps [simp del]

fun undec :: "string \<Rightarrow> nat" where
  "undec s = foldl (\<lambda>n c. 10 * n + (of_char c - 48)) 0 s"

lemma of_digit_char: "d < 10 \<Longrightarrow> of_char (digit_char d) = 48 + d"
  by (simp add: digit_char_def)

lemma undec_dec_nat [simp]: "undec (dec_nat n) = n"
proof (induction n rule: dec_nat.induct)
  case (1 n)
  show ?case
  proof (cases "n < 10")
    case True
    then show ?thesis by (simp add: dec_nat.simps [of n] of_digit_char)
  next
    case False
    with "1.IH" show ?thesis by (simp add: dec_nat.simps [of n] of_digit_char)
  qed
qed

lemma dec_nat_inject [simp]: "dec_nat m = dec_nat n \<longleftrightarrow> m = n"
  by (metis undec_dec_nat)

section \<open>strconv.Quote\<close>

definition hex_digit :: "nat \<Rightarrow> char" where
  "hex_digit d = (if d < 10 then char_of (48 + d) else char_of (87 + d))"

definition escape_byte :: "char \<Rightarrow> string" where
  "escape_byte c =
     (let n = of_char c :: nat; bs = char_of (92::nat) in
      if n = 34 then [bs, c]
      else if n = 92 then [bs, c]
      else if n = 7 then bs # ''a''
      else if n = 8 then bs # ''b''
      else if n = 12 then bs # ''f''
      else if n = 10 then bs # ''n''
      else if n = 13 then bs # ''r''
      else if n = 9 then bs # ''t''
      else if n = 11 then bs # ''v''
      else if n < 32 \<or> n = 127 then bs # CHR ''x'' # [hex_digit (n div 16), hex_digit (n mod 16)]
      else [c])"

definition quote :: "string \<Rightarrow> string" where
  "quote s = char_of (34::nat) # concat (map escape_byte s) @ [char_of (34::nat)]"

definition unhex :: "char \<Rightarrow> nat" where
  "unhex c = (if of_char c < (58::nat) then of_char c - 48 else of_char c - 87)"

definition unescape_code :: "char \<Rightarrow> char" where
  "unescape_code c =
     (if c = CHR ''a'' then char_of (7::nat) else if c = CHR ''b'' then char_of (8::nat)
      else if c = CHR ''f'' then char_of (12::nat) else if c = CHR ''n'' then char_of (10::nat)
      else if c = CHR ''r'' then char_of (13::nat) else if c = CHR ''t'' then char_of (9::nat)
      else if c = CHR ''v'' then char_of (11::nat) else c)"

fun unescape :: "string \<Rightarrow> (char \<times> string) option" where
  "unescape [] = None"
| "unescape (c # rest) =
     (if of_char c = (92::nat)
      then (case rest of
              [] \<Rightarrow> None
            | d # rest' \<Rightarrow>
                if d = CHR ''x''
                then (case rest' of
                        h # l # r \<Rightarrow> Some (char_of (16 * unhex h + unhex l), r)
                      | _ \<Rightarrow> None)
                else Some (unescape_code d, rest'))
      else Some (c, rest))"

lemma unhex_hex_digit: "d < 16 \<Longrightarrow> unhex (hex_digit d) = d"
  by (auto simp: unhex_def hex_digit_def)

lemma char_of_char: "char_of (of_char c :: nat) = c"
  by simp

lemma quote_chars: "char_of (34::nat) = CHR 0x22" "char_of (92::nat) = CHR 0x5C"
  by code_simp+

lemma unescape_escape: "unescape (escape_byte c @ r) = Some (c, r)"
proof -
  define n where "n = (of_char c :: nat)"
  have c: "c = char_of n" and n: "n < 256"
    by (simp_all add: n_def)
  have of_c: "of_char c = n" by (simp add: n_def)
  consider "n = 34" | "n = 92" | "n = 7" | "n = 8" | "n = 12" | "n = 10" | "n = 13" | "n = 9"
    | "n = 11" | "n \<notin> {34, 92, 7, 8, 12, 10, 13, 9, 11}" "n < 32 \<or> n = 127"
    | "n \<notin> {34, 92, 7, 8, 12, 10, 13, 9, 11}" "\<not> (n < 32 \<or> n = 127)"
    by blast
  then show ?thesis
  proof cases
    case 10
    then have "unhex (hex_digit (n div 16)) = n div 16" "unhex (hex_digit (n mod 16)) = n mod 16"
      using n by (auto intro!: unhex_hex_digit)
    moreover have "16 * (n div 16) + n mod 16 = n" by simp
    ultimately have "char_of (16 * unhex (hex_digit (n div 16)) + unhex (hex_digit (n mod 16))) = c"
      by (simp add: n_def)
    with 10 show ?thesis by (auto simp: escape_byte_def of_c Let_def)
  next
    case 11
    then show ?thesis by (simp add: escape_byte_def of_c Let_def)
  qed (use c in \<open>simp_all add: escape_byte_def unescape_code_def Let_def quote_chars\<close>)
qed

lemma escape_byte_nonempty [simp]: "escape_byte c \<noteq> []"
  using unescape_escape [of c "[]"] by auto

lemma concat_escape_inject: "concat (map escape_byte s) = concat (map escape_byte t) \<Longrightarrow> s = t"
proof (induction s arbitrary: t)
  case Nil
  then show ?case by (cases t) auto
next
  case (Cons c s)
  have eq: "unescape (concat (map escape_byte (c # s))) = Some (c, concat (map escape_byte s))"
    by (simp add: unescape_escape)
  then obtain d t' where t: "t = d # t'"
    using Cons.prems by (cases t) auto
  then have "unescape (concat (map escape_byte t)) = Some (d, concat (map escape_byte t'))"
    by (simp add: unescape_escape)
  with eq Cons.prems have "c = d" "concat (map escape_byte s) = concat (map escape_byte t')"
    by auto
  with Cons.IH t show ?case by blast
qed

lemma quote_inject [simp]: "quote s = quote t \<longleftrightarrow> s = t"
  by (auto simp: quote_def dest: concat_escape_inject)

end
