(* ===== verification/WalletPort.thy ===== *)
theory WalletPort
  imports Money GoText "HOL-Library.Finite_Map"
begin

text \<open>
  The vocabulary and the checks of the ledger port, \<open>internal/cashback/wallet/ledger.go\<close>:
  stages, account references, postings, transfers and history windows, with the
  validation every implementation runs before any I/O. \<open>transfer_validate\<close> is the
  port's half of C-1; its lemmas say that it accepts exactly the transfers that
  balance in every currency and move some account, up to 64 bit overflow of a
  running total.
\<close>

section \<open>Stages and account references\<close>

type_synonym account_id = string
type_synonym transfer_ref = string

datatype stage =
    StageUnspecified | StageHeld | StagePending | StageConfirmed | StageReserved
  | StageOther "8 word"

fun stage_valid :: "stage \<Rightarrow> bool" where
  "stage_valid StageHeld = True"
| "stage_valid StagePending = True"
| "stage_valid StageConfirmed = True"
| "stage_valid StageReserved = True"
| "stage_valid _ = False"

fun stage_string :: "stage \<Rightarrow> string" where
  "stage_string StageHeld = ''held''"
| "stage_string StagePending = ''pending''"
| "stage_string StageConfirmed = ''confirmed''"
| "stage_string StageReserved = ''reserved''"
| "stage_string StageUnspecified = ''unspecified''"
| "stage_string (StageOther n) = ''unknown stage '' @ dec_nat (unat n)"

datatype account_kind = KindUnspecified | KindMember | KindHouse | KindOther "8 word"

record account_ref =
  kind :: account_kind
  member_of :: uuid
  stage_of :: stage
  house_of :: string

definition member_account :: "uuid \<Rightarrow> stage \<Rightarrow> account_ref" where
  "member_account m s = \<lparr>kind = KindMember, member_of = m, stage_of = s, house_of = []\<rparr>"

definition house_account :: "string \<Rightarrow> account_ref" where
  "house_account n =
     \<lparr>kind = KindHouse, member_of = nil_uuid, stage_of = StageUnspecified, house_of = n\<rparr>"

definition ref_member :: "account_ref \<Rightarrow> (uuid \<times> stage) option" where
  "ref_member r = (if kind r \<noteq> KindMember then None else Some (member_of r, stage_of r))"

definition ref_house :: "account_ref \<Rightarrow> string option" where
  "ref_house r = (if kind r \<noteq> KindHouse then None else Some (house_of r))"

datatype wallet_error =
    ErrMissingIdempotencyKey | ErrTooFewPostings | ErrMissingAccount | ErrZeroPosting
  | ErrRecycledPosting | ErrUnbalanced | ErrMixedCurrency | ErrNoMovement
  | ErrInvalidAccountRef | ErrInvalidWindow | ErrUnknownAccount | ErrIdempotencyConflict
  | ErrInsufficientFunds | ErrUnsupportedTransfer | MoneyFault money_error | ContextDone

definition ref_validate :: "account_ref \<Rightarrow> wallet_error option" where
  "ref_validate r =
     (case kind r of
        KindMember \<Rightarrow>
          (if member_of r = nil_uuid then Some ErrInvalidAccountRef
           else if \<not> stage_valid (stage_of r) then Some ErrInvalidAccountRef
           else None)
      | KindHouse \<Rightarrow>
          (if house_of r = [] \<or> house_of r \<noteq> trim_space (house_of r)
           then Some ErrInvalidAccountRef else None)
      | KindUnspecified \<Rightarrow> Some ErrInvalidAccountRef
      | KindOther _ \<Rightarrow> Some ErrInvalidAccountRef)"

section \<open>Postings and transfers\<close>

record posting =
  p_account :: account_id
  p_amount :: amount
  p_ref :: transfer_ref
  p_at :: instant

record transfer =
  idempotency_key :: string
  postings :: "posting list"
  reference :: string
  metadata :: "(string, string) fmap"

type_synonym holding = "account_id \<times> currency"

definition holding_of :: "posting \<Rightarrow> holding" where
  "holding_of p = (p_account p, currency_of (p_amount p))"

definition posting_currency :: "posting \<Rightarrow> currency" where
  "posting_currency p = currency_of (p_amount p)"

definition accumulate ::
  "('k \<rightharpoonup> amount) \<Rightarrow> 'k list \<Rightarrow> 'k \<Rightarrow> amount \<Rightarrow> money_error + (('k \<rightharpoonup> amount) \<times> 'k list)" where
  "accumulate totals order key amt =
     (case totals key of
        None \<Rightarrow> Inr (totals(key \<mapsto> amt), order @ [key])
      | Some acc \<Rightarrow>
          (case add_amount acc amt of
             Inl e \<Rightarrow> Inl e
           | Inr s \<Rightarrow> Inr (totals(key \<mapsto> s), order)))"

definition total_at :: "('k \<rightharpoonup> amount) \<Rightarrow> 'k \<Rightarrow> amount" where
  "total_at m k = (case m k of None \<Rightarrow> zero_value | Some a \<Rightarrow> a)"

text \<open>The four checks one posting passes before it is netted, in the code's order.\<close>

definition posting_check :: "posting \<Rightarrow> wallet_error option" where
  "posting_check p =
     (if trim_space (p_account p) = [] then Some ErrMissingAccount
      else if p_ref p \<noteq> [] \<or> p_at p \<noteq> zero_time then Some ErrRecycledPosting
      else case validate_amount (p_amount p) of
          Some e \<Rightarrow> Some (MoneyFault e)
        | None \<Rightarrow> if is_zero (p_amount p) then Some ErrZeroPosting else None)"

fun net_postings ::
  "posting list \<Rightarrow> (currency \<rightharpoonup> amount) \<times> currency list \<Rightarrow> (holding \<rightharpoonup> amount) \<times> holding list \<Rightarrow>
   wallet_error + (((currency \<rightharpoonup> amount) \<times> currency list) \<times> ((holding \<rightharpoonup> amount) \<times> holding list))" where
  "net_postings [] cs hs = Inr (cs, hs)"
| "net_postings (p # ps) cs hs =
     (case posting_check p of
        Some e \<Rightarrow> Inl e
      | None \<Rightarrow>
          (case accumulate (fst cs) (snd cs) (posting_currency p) (p_amount p) of
             Inl e \<Rightarrow> Inl (MoneyFault e)
           | Inr cs' \<Rightarrow>
               (case accumulate (fst hs) (snd hs) (holding_of p) (p_amount p) of
                  Inl e \<Rightarrow> Inl (MoneyFault e)
                | Inr hs' \<Rightarrow> net_postings ps cs' hs')))"

definition transfer_validate :: "transfer \<Rightarrow> wallet_error option" where
  "transfer_validate t =
     (if trim_space (idempotency_key t) = [] then Some ErrMissingIdempotencyKey
      else if length (postings t) < 2 then Some ErrTooFewPostings
      else
        (case net_postings (postings t) (Map.empty, []) (Map.empty, []) of
           Inl e \<Rightarrow> Some e
         | Inr ((nets, currencies), (moved, touched)) \<Rightarrow>
             (case length (filter (\<lambda>c. \<not> is_zero (total_at nets c)) currencies) of
                0 \<Rightarrow>
                  (if list_ex (\<lambda>w. \<not> is_zero (total_at moved w)) touched
                   then None else Some ErrNoMovement)
              | Suc 0 \<Rightarrow> Some ErrUnbalanced
              | _ \<Rightarrow> Some ErrMixedCurrency)))"

section \<open>Windows\<close>

record window =
  w_from :: instant
  w_to :: instant

definition window_validate :: "window \<Rightarrow> wallet_error option" where
  "window_validate w =
     (if w_from w \<noteq> zero_time \<and> w_to w \<noteq> zero_time \<and> w_to w < w_from w
      then Some ErrInvalidWindow else None)"

definition window_contains :: "window \<Rightarrow> instant \<Rightarrow> bool" where
  "window_contains w at =
     (if w_from w \<noteq> zero_time \<and> at < w_from w then False
      else if w_to w \<noteq> zero_time \<and> \<not> at < w_to w then False
      else True)"

section \<open>What the nettings compute\<close>

definition net_at :: "('p \<Rightarrow> 'k) \<Rightarrow> ('p \<Rightarrow> amount) \<Rightarrow> 'p list \<Rightarrow> 'k \<Rightarrow> int" where
  "net_at key amt ps k = (\<Sum>p\<leftarrow>filter (\<lambda>p. key p = k) ps. sint (minor (amt p)))"

lemma net_at_Nil [simp]: "net_at key amt [] k = 0"
  by (simp add: net_at_def)

lemma net_at_append [simp]: "net_at key amt (ps @ qs) k = net_at key amt ps k + net_at key amt qs k"
  by (simp add: net_at_def)

lemma net_at_Cons:
  "net_at key amt (p # ps) k = (if key p = k then sint (minor (amt p)) else 0) + net_at key amt ps k"
  by (simp add: net_at_def)

lemma net_at_unseen: "k \<notin> key ` set ps \<Longrightarrow> net_at key amt ps k = 0"
  by (induction ps) (auto simp: net_at_Cons)

definition nets_of :: "('p \<Rightarrow> 'k) \<Rightarrow> ('p \<Rightarrow> amount) \<Rightarrow> 'p list \<Rightarrow> ('k \<rightharpoonup> amount) \<times> 'k list \<Rightarrow> bool" where
  "nets_of key amt ps mo \<longleftrightarrow>
     set (snd mo) = key ` set ps \<and> distinct (snd mo) \<and>
     (\<forall>k. fst mo k = None \<longleftrightarrow> k \<notin> key ` set ps) \<and>
     (\<forall>k a. fst mo k = Some a \<longrightarrow> sint (minor a) = net_at key amt ps k)"

lemma nets_of_Nil [simp]: "nets_of key amt [] (Map.empty, [])"
  by (simp add: nets_of_def)

lemma nets_of_accumulate:
  assumes "nets_of key amt ps mo" and "accumulate (fst mo) (snd mo) (key p) (amt p) = Inr mo'"
  shows "nets_of key amt (ps @ [p]) mo'"
proof (cases "fst mo (key p)")
  case None
  then have "key p \<notin> key ` set ps" using assms(1) by (auto simp: nets_of_def)
  with None assms show ?thesis
    by (auto simp: nets_of_def accumulate_def net_at_Cons net_at_unseen split: if_splits)
next
  case (Some acc)
  then have "key p \<in> key ` set ps"
    using assms(1) unfolding nets_of_def by (metis option.distinct(1))
  moreover obtain s where "add_amount acc (amt p) = Inr s" "mo' = ((fst mo)(key p \<mapsto> s), snd mo)"
    using Some assms(2) by (auto simp: accumulate_def split: sum.splits)
  moreover have "sint (minor acc) = net_at key amt ps (key p)"
    using Some assms(1) by (simp add: nets_of_def)
  ultimately show ?thesis
    using assms(1) add_amount_sint by (auto simp: nets_of_def net_at_Cons)
qed

lemma nets_of_is_zero:
  assumes "nets_of key amt ps mo" and "k \<in> set (snd mo)"
  shows "is_zero (total_at (fst mo) k) \<longleftrightarrow> net_at key amt ps k = 0"
proof -
  obtain a where "fst mo k = Some a"
    using assms unfolding nets_of_def by (cases "fst mo k") auto
  then show ?thesis
    using assms(1) by (auto simp: nets_of_def total_at_def is_zero_def)
      (metis signed_0 sint_zero_iff64)+
qed

abbreviation currency_net :: "posting list \<Rightarrow> currency \<Rightarrow> int" where
  "currency_net \<equiv> net_at posting_currency p_amount"

abbreviation holding_net :: "posting list \<Rightarrow> holding \<Rightarrow> int" where
  "holding_net \<equiv> net_at holding_of p_amount"

lemma net_postings_Inr:
  assumes "net_postings qs cs hs = Inr (cs', hs')"
    and "nets_of posting_currency p_amount ps cs" and "nets_of holding_of p_amount ps hs"
  shows "nets_of posting_currency p_amount (ps @ qs) cs' \<and>
     nets_of holding_of p_amount (ps @ qs) hs' \<and> (\<forall>q\<in>set qs. posting_check q = None)"
  using assms
proof (induction qs arbitrary: cs hs ps)
  case Nil
  then show ?case by simp
next
  case (Cons q qs)
  obtain c h where check: "posting_check q = None"
    and c: "accumulate (fst cs) (snd cs) (posting_currency q) (p_amount q) = Inr c"
    and h: "accumulate (fst hs) (snd hs) (holding_of q) (p_amount q) = Inr h"
    and rest: "net_postings qs c h = Inr (cs', hs')"
    using Cons.prems(1) by (auto split: option.splits sum.splits)
  have "nets_of posting_currency p_amount (ps @ [q]) c" and "nets_of holding_of p_amount (ps @ [q]) h"
    using nets_of_accumulate [OF Cons.prems(2) c] nets_of_accumulate [OF Cons.prems(3) h] by auto
  from Cons.IH [OF rest this] check show ?case by simp
qed

lemmas net_postings_from_empty = net_postings_Inr [where ps = "[]" and cs = "(Map.empty, [])"
    and hs = "(Map.empty, [])", simplified]

lemma posting_check_None:
  "posting_check p = None \<longleftrightarrow>
     trim_space (p_account p) \<noteq> [] \<and> p_ref p = [] \<and> p_at p = zero_time \<and>
     currency_valid (currency_of (p_amount p)) \<and> minor (p_amount p) \<noteq> 0"
  by (auto simp: posting_check_def validate_amount_def is_zero_def)

text \<open>The currencies and holdings a netted transfer is off in.\<close>

definition off_currencies :: "posting list \<Rightarrow> currency set" where
  "off_currencies ps = {c. currency_net ps c \<noteq> 0}"

definition moved_holdings :: "posting list \<Rightarrow> holding set" where
  "moved_holdings ps = {h. holding_net ps h \<noteq> 0}"

lemma off_count:
  assumes "nets_of posting_currency p_amount ps mo"
  shows "length (filter (\<lambda>c. \<not> is_zero (total_at (fst mo) c)) (snd mo)) = card (off_currencies ps)"
proof -
  let ?f = "filter (\<lambda>c. \<not> is_zero (total_at (fst mo) c)) (snd mo)"
  have "set ?f = off_currencies ps"
    using assms nets_of_is_zero [OF assms]
    by (auto simp: nets_of_def off_currencies_def) (metis net_at_unseen)+
  moreover have "distinct ?f" using assms by (simp add: nets_of_def)
  ultimately show ?thesis by (metis distinct_card)
qed

lemma moved_ex:
  assumes "nets_of holding_of p_amount ps mo"
  shows "list_ex (\<lambda>w. \<not> is_zero (total_at (fst mo) w)) (snd mo) \<longleftrightarrow> moved_holdings ps \<noteq> {}"
proof -
  have "list_ex (\<lambda>w. \<not> is_zero (total_at (fst mo) w)) (snd mo) \<longleftrightarrow>
      (\<exists>w\<in>set (snd mo). holding_net ps w \<noteq> 0)"
    unfolding list_ex_iff using nets_of_is_zero [OF assms] by blast
  also have "\<dots> \<longleftrightarrow> moved_holdings ps \<noteq> {}"
  proof -
    have "w \<in> set (snd mo)" if "holding_net ps w \<noteq> 0" for w
      using assms that net_at_unseen [of w holding_of ps p_amount]
      unfolding nets_of_def by argo
    then show ?thesis by (auto simp: moved_holdings_def)
  qed
  finally show ?thesis .
qed

text \<open>What validation decides once the two nettings have gone through.\<close>

lemma transfer_validate_netted:
  assumes "trim_space (idempotency_key t) \<noteq> []" and "2 \<le> length (postings t)"
    and "net_postings (postings t) (Map.empty, []) (Map.empty, []) = Inr r"
  shows "transfer_validate t =
     (case card (off_currencies (postings t)) of
        0 \<Rightarrow> if moved_holdings (postings t) \<noteq> {} then None else Some ErrNoMovement
      | Suc 0 \<Rightarrow> Some ErrUnbalanced
      | _ \<Rightarrow> Some ErrMixedCurrency)"
proof -
  obtain cs hs where r: "r = (cs, hs)" by (cases r)
  have n: "nets_of posting_currency p_amount (postings t) cs"
    "nets_of holding_of p_amount (postings t) hs"
    using net_postings_from_empty [OF assms(3) [unfolded r]] by auto
  show ?thesis
    using assms off_count [OF n(1)] moved_ex [OF n(2)]
    by (cases cs; cases hs) (simp add: transfer_validate_def r)
qed

lemma off_currencies_finite: "finite (off_currencies ps)"
proof (rule finite_subset)
  show "off_currencies ps \<subseteq> posting_currency ` set ps"
    by (auto simp: off_currencies_def) (metis net_at_unseen)
qed simp

lemma transfer_validate_None:
  assumes "transfer_validate t = None"
  shows "trim_space (idempotency_key t) \<noteq> []" and "2 \<le> length (postings t)"
    and "\<And>p. p \<in> set (postings t) \<Longrightarrow> posting_check p = None"
    and "\<And>c. currency_net (postings t) c = 0"
    and "moved_holdings (postings t) \<noteq> {}"
proof -
  show k: "trim_space (idempotency_key t) \<noteq> []" and l: "2 \<le> length (postings t)"
    using assms by (auto simp: transfer_validate_def split: if_splits)
  obtain cs hs where r: "net_postings (postings t) (Map.empty, []) (Map.empty, []) = Inr (cs, hs)"
    using assms k l by (auto simp: transfer_validate_def split: sum.splits)
  show "\<And>p. p \<in> set (postings t) \<Longrightarrow> posting_check p = None"
    using net_postings_from_empty [OF r] by blast
  have "card (off_currencies (postings t)) = 0 \<and> moved_holdings (postings t) \<noteq> {}"
    using assms transfer_validate_netted [OF k l r] by (auto split: nat.splits if_splits)
  then show "moved_holdings (postings t) \<noteq> {}" and "\<And>c. currency_net (postings t) c = 0"
    using off_currencies_finite [of "postings t"] by (auto simp: off_currencies_def)
qed

text \<open>(C22) The port's half of C-1: a transfer that passes \<open>Transfer.Validate\<close> carries an
  idempotency key, has at least two well-formed non-zero postings built for it, sums to zero in
  every currency separately, and changes what at least one account holds.\<close>

theorem validated_transfer_balances:
  assumes "transfer_validate t = None"
  shows "trim_space (idempotency_key t) \<noteq> [] \<and> 2 \<le> length (postings t) \<and>
     list_all (\<lambda>p. posting_check p = None) (postings t) \<and>
     (\<forall>c. currency_net (postings t) c = 0) \<and> (\<exists>h. holding_net (postings t) h \<noteq> 0)"
  using transfer_validate_None [OF assms] by (auto simp: list_all_iff moved_holdings_def)

definition two_leg_example :: transfer where
  "two_leg_example =
     \<lparr>idempotency_key = ''k'',
      postings =
        [\<lparr>p_account = ''a'', p_amount = \<lparr>minor = - 5, currency_of = ''EUR''\<rparr>, p_ref = [], p_at = 0\<rparr>,
         \<lparr>p_account = ''b'', p_amount = \<lparr>minor = 5, currency_of = ''EUR''\<rparr>, p_ref = [], p_at = 0\<rparr>],
      reference = [], metadata = fmempty\<rparr>"

lemma two_leg_example_valid: "transfer_validate two_leg_example = None"
  by code_simp

theorem validated_transfer_balances_witness:
  "transfer_validate two_leg_example = None \<and> currency_net (postings two_leg_example) ''EUR'' = 0"
  using validated_transfer_balances [OF two_leg_example_valid] two_leg_example_valid by blast

end
