(* ===== verification/JsonText.thy ===== *)
theory JsonText
  imports GoText
begin

text \<open>
  What the program relies on of \<open>encoding/json\<close> and \<open>strconv\<close> when it reads an object member by
  member: the grammar of a JSON value, as a machine over bytes with a stack of open objects and
  arrays; the decoder's walk over one object; the decoding of a string literal; and
  \<open>strconv.ParseInt\<close> in base ten. The decoder hands each value out as its raw literal, which is
  what \<open>json.RawMessage\<close> holds.
\<close>

section \<open>The value grammar\<close>

datatype frame = InKey | InMember | InElement

datatype scan_state =
    JBegin | JBeginOrEnd | JKey | JKeyOrEnd | JText | JEscape | JHex nat
  | JMinus | JZero | JDigits | JPoint | JFraction | JExponent | JExpSign | JExpDigits
  | JWord string | JDone

definition json_space :: "char \<Rightarrow> bool" where
  "json_space c = (c \<in> {CHR '' '', CHR 0x09, CHR 0x0A, CHR 0x0D})"

definition is_digit :: "char \<Rightarrow> bool" where
  "is_digit c = (48 \<le> (of_char c :: nat) \<and> (of_char c :: nat) \<le> 57)"

definition is_hex :: "char \<Rightarrow> bool" where
  "is_hex c = (is_digit c \<or> (65 \<le> (of_char c :: nat) \<and> (of_char c :: nat) \<le> 70) \<or>
     (97 \<le> (of_char c :: nat) \<and> (of_char c :: nat) \<le> 102))"

definition max_depth :: nat where
  "max_depth = 10000"

definition open_frame :: "frame \<Rightarrow> scan_state \<Rightarrow> frame list \<Rightarrow> (scan_state \<times> frame list) option" where
  "open_frame f st fs = (if length fs < max_depth then Some (st, f # fs) else None)"

definition begin_value :: "frame list \<Rightarrow> char \<Rightarrow> (scan_state \<times> frame list) option" where
  "begin_value fs c =
     (if c = CHR ''{'' then open_frame InKey JKeyOrEnd fs
      else if c = CHR ''['' then open_frame InElement JBeginOrEnd fs
      else if c = CHR 0x22 then Some (JText, fs)
      else if c = CHR ''-'' then Some (JMinus, fs)
      else if c = CHR ''0'' then Some (JZero, fs)
      else if is_digit c then Some (JDigits, fs)
      else if c = CHR ''t'' then Some (JWord ''rue'', fs)
      else if c = CHR ''f'' then Some (JWord ''alse'', fs)
      else if c = CHR ''n'' then Some (JWord ''ull'', fs)
      else None)"

definition after_value :: "frame list \<Rightarrow> char \<Rightarrow> (scan_state \<times> frame list) option" where
  "after_value fs c =
     (case fs of
        [] \<Rightarrow> None
      | InKey # r \<Rightarrow> if c = CHR '':'' then Some (JBegin, InMember # r) else None
      | InMember # r \<Rightarrow>
          if c = CHR '','' then Some (JKey, InKey # r)
          else if c = CHR ''}'' then Some (JDone, r) else None
      | InElement # r \<Rightarrow>
          if c = CHR '','' then Some (JBegin, InElement # r)
          else if c = CHR '']'' then Some (JDone, r) else None)"

definition done_or_after :: "frame list \<Rightarrow> char \<Rightarrow> (scan_state \<times> frame list) option" where
  "done_or_after fs c = (if json_space c then Some (JDone, fs) else after_value fs c)"

fun scan_step :: "scan_state \<Rightarrow> frame list \<Rightarrow> char \<Rightarrow> (scan_state \<times> frame list) option" where
  "scan_step JBegin fs c = (if json_space c then Some (JBegin, fs) else begin_value fs c)"
| "scan_step JBeginOrEnd fs c =
     (if json_space c then Some (JBeginOrEnd, fs)
      else if c = CHR '']'' then Some (JDone, tl fs) else begin_value fs c)"
| "scan_step JKey fs c =
     (if json_space c then Some (JKey, fs) else if c = CHR 0x22 then Some (JText, fs) else None)"
| "scan_step JKeyOrEnd fs c =
     (if json_space c then Some (JKeyOrEnd, fs)
      else if c = CHR ''}'' then Some (JDone, tl fs)
      else if c = CHR 0x22 then Some (JText, fs) else None)"
| "scan_step JText fs c =
     (if c = CHR 0x22 then Some (JDone, fs)
      else if c = CHR 0x5C then Some (JEscape, fs)
      else if (of_char c :: nat) < 32 then None else Some (JText, fs))"
| "scan_step JEscape fs c =
     (if c = CHR ''u'' then Some (JHex 4, fs)
      else if c \<in> set ''bfnrt/'' \<or> c = CHR 0x22 \<or> c = CHR 0x5C then Some (JText, fs)
      else None)"
| "scan_step (JHex n) fs c =
     (if is_hex c then Some (if n \<le> 1 then JText else JHex (n - 1), fs) else None)"
| "scan_step JMinus fs c =
     (if c = CHR ''0'' then Some (JZero, fs) else if is_digit c then Some (JDigits, fs) else None)"
| "scan_step JZero fs c =
     (if c = CHR ''.'' then Some (JPoint, fs)
      else if c \<in> set ''eE'' then Some (JExponent, fs) else done_or_after fs c)"
| "scan_step JDigits fs c =
     (if is_digit c then Some (JDigits, fs)
      else if c = CHR ''.'' then Some (JPoint, fs)
      else if c \<in> set ''eE'' then Some (JExponent, fs) else done_or_after fs c)"
| "scan_step JPoint fs c = (if is_digit c then Some (JFraction, fs) else None)"
| "scan_step JFraction fs c =
     (if is_digit c then Some (JFraction, fs)
      else if c \<in> set ''eE'' then Some (JExponent, fs) else done_or_after fs c)"
| "scan_step JExponent fs c =
     (if c \<in> set ''+-'' then Some (JExpSign, fs) else if is_digit c then Some (JExpDigits, fs) else None)"
| "scan_step JExpSign fs c = (if is_digit c then Some (JExpDigits, fs) else None)"
| "scan_step JExpDigits fs c = (if is_digit c then Some (JExpDigits, fs) else done_or_after fs c)"
| "scan_step (JWord w) fs c =
     (case w of [] \<Rightarrow> None | x # xs \<Rightarrow> if c = x then Some (if xs = [] then JDone else JWord xs, fs) else None)"
| "scan_step JDone fs c = done_or_after fs c"

definition may_stop :: "scan_state \<Rightarrow> bool" where
  "may_stop st = (st \<in> {JZero, JDigits, JFraction, JExpDigits, JDone})"

definition in_number :: "scan_state \<Rightarrow> char \<Rightarrow> bool" where
  "in_number st c =
     (case st of
        JZero \<Rightarrow> c \<in> set ''.eE''
      | JDigits \<Rightarrow> is_digit c \<or> c \<in> set ''.eE''
      | JFraction \<Rightarrow> is_digit c \<or> c \<in> set ''eE''
      | JExpDigits \<Rightarrow> is_digit c
      | _ \<Rightarrow> False)"

text \<open>One value from the front of the input: its raw literal, and what follows it.\<close>

fun scan_value :: "scan_state \<Rightarrow> frame list \<Rightarrow> string \<Rightarrow> string \<Rightarrow> (string \<times> string) option" where
  "scan_value st fs raw [] = (if fs = [] \<and> may_stop st then Some (rev raw, []) else None)"
| "scan_value st fs raw (c # cs) =
     (if fs = [] \<and> may_stop st \<and> \<not> in_number st c then Some (rev raw, c # cs)
      else case scan_step st fs c of
          None \<Rightarrow> None
        | Some (st', fs') \<Rightarrow> scan_value st' fs' (c # raw) cs)"

fun skip_space :: "string \<Rightarrow> string" where
  "skip_space [] = []"
| "skip_space (c # cs) = (if json_space c then skip_space cs else c # cs)"

definition next_value :: "string \<Rightarrow> (string \<times> string) option" where
  "next_value s = scan_value JBegin [] [] (skip_space s)"

lemma scan_value_length: "scan_value st fs raw s = Some (r, t) \<Longrightarrow> length t \<le> length s"
proof (induction s arbitrary: st fs raw)
  case (Cons c cs)
  then show ?case by (auto split: if_splits option.splits prod.splits intro: le_SucI)
qed (auto split: if_splits)

lemma skip_space_length [simp]: "length (skip_space s) \<le> length s"
  by (induction s) auto

lemma next_value_length: "next_value s = Some (r, t) \<Longrightarrow> length t < length s"
proof -
  assume n: "next_value s = Some (r, t)"
  then have s: "scan_value JBegin [] [] (skip_space s) = Some (r, t)" by (simp add: next_value_def)
  show "length t < length s"
  proof (cases "skip_space s")
    case Nil
    with s show ?thesis by (simp add: may_stop_def)
  next
    case (Cons c cs)
    with s obtain st fs where "scan_value st fs [c] cs = Some (r, t)"
      by (auto simp: may_stop_def split: option.splits prod.splits if_splits)
    then have "length t \<le> length cs" by (rule scan_value_length)
    with Cons skip_space_length [of s] show ?thesis by simp
  qed
qed

section \<open>UTF-8\<close>

text \<open>The length of the rune a byte sequence starts with, and 0 where its bytes are no UTF-8 encoding.\<close>

definition cont_byte :: "nat \<Rightarrow> bool" where
  "cont_byte b = (128 \<le> b \<and> b \<le> 191)"

fun rune_size :: "nat list \<Rightarrow> nat" where
  "rune_size [] = 0"
| "rune_size (a # r) =
     (if a < 128 then 1
      else case r of
          b # r2 \<Rightarrow>
            if 194 \<le> a \<and> a \<le> 223 then (if cont_byte b then 2 else 0)
            else (case r2 of
                c # r3 \<Rightarrow>
                  if 224 \<le> a \<and> a \<le> 239
                  then (if (if a = 224 then 160 else 128) \<le> b \<and> b \<le> (if a = 237 then 159 else 191) \<and> cont_byte c
                        then 3 else 0)
                  else (case r3 of
                      d # _ \<Rightarrow>
                        if 240 \<le> a \<and> a \<le> 244 \<and> (if a = 240 then 144 else 128) \<le> b \<and>
                           b \<le> (if a = 244 then 143 else 191) \<and> cont_byte c \<and> cont_byte d then 4 else 0
                    | [] \<Rightarrow> 0)
              | [] \<Rightarrow> 0)
        | [] \<Rightarrow> 0)"

definition utf8 :: "nat \<Rightarrow> string" where
  "utf8 r = map char_of
     (if r < 128 then [r]
      else if r < 2048 then [192 + r div 64, 128 + r mod 64]
      else if r < 65536 then [224 + r div 4096, 128 + r div 64 mod 64, 128 + r mod 64]
      else [240 + r div 262144, 128 + r div 4096 mod 64, 128 + r div 64 mod 64, 128 + r mod 64])"

definition replacement :: nat where
  "replacement = 65533"

lemma rune_size_le: "rune_size bs \<le> length bs"
  by (induction bs rule: rune_size.induct) (auto split: list.splits)

section \<open>String literals\<close>

definition hex_value :: "char \<Rightarrow> nat" where
  "hex_value c =
     (let n = of_char c in if n \<le> (57::nat) then n - 48 else if n \<le> 70 then n - 55 else n - 87)"

fun read_hex4 :: "string \<Rightarrow> (nat \<times> string) option" where
  "read_hex4 (a # b # c # d # r) =
     (if list_all is_hex [a, b, c, d]
      then Some (4096 * hex_value a + 256 * hex_value b + 16 * hex_value c + hex_value d, r) else None)"
| "read_hex4 _ = None"

definition escaped :: "char \<Rightarrow> char option" where
  "escaped c =
     (if c = CHR ''b'' then Some (CHR 0x08) else if c = CHR ''f'' then Some (CHR 0x0C)
      else if c = CHR ''n'' then Some (CHR 0x0A) else if c = CHR ''r'' then Some (CHR 0x0D)
      else if c = CHR ''t'' then Some (CHR 0x09)
      else if c = CHR ''/'' \<or> c = CHR 0x22 \<or> c = CHR 0x5C then Some c else None)"

definition surrogate :: "nat \<Rightarrow> bool" where
  "surrogate r = (55296 \<le> r \<and> r < 57344)"

definition surrogate_pair :: "nat \<Rightarrow> nat \<Rightarrow> nat option" where
  "surrogate_pair r1 r2 =
     (if 55296 \<le> r1 \<and> r1 < 56320 \<and> 56320 \<le> r2 \<and> r2 < 57344
      then Some ((r1 - 55296) * 1024 + (r2 - 56320) + 65536) else None)"

lemma read_hex4_length: "read_hex4 s = Some (n, r) \<Longrightarrow> length r < length s"
  by (induction s rule: read_hex4.induct) (auto split: if_splits)

text \<open>What is between the quotes: escapes replaced, surrogate pairs joined, and what is no UTF-8 or no
  pair replaced by U+FFFD.\<close>

function unescape_text :: "string \<Rightarrow> string option" where
  "unescape_text s =
     (case s of
        [] \<Rightarrow> Some []
      | c # cs \<Rightarrow>
          if c = CHR 0x5C then
            (case cs of
               [] \<Rightarrow> None
             | e # r \<Rightarrow>
                 if e = CHR ''u'' then
                   (case read_hex4 r of
                      None \<Rightarrow> None
                    | Some (r1, r') \<Rightarrow>
                        if \<not> surrogate r1 then map_option ((@) (utf8 r1)) (unescape_text r')
                        else
                          (case (if take 2 r' = [CHR 0x5C, CHR ''u''] then read_hex4 (drop 2 r') else None) of
                             None \<Rightarrow> map_option ((@) (utf8 replacement)) (unescape_text r')
                           | Some (r2, r'') \<Rightarrow>
                               (case surrogate_pair r1 r2 of
                                  Some rune \<Rightarrow> map_option ((@) (utf8 rune)) (unescape_text r'')
                                | None \<Rightarrow> map_option ((@) (utf8 replacement)) (unescape_text r'))))
                 else (case escaped e of None \<Rightarrow> None | Some x \<Rightarrow> map_option ((#) x) (unescape_text r)))
          else if c = CHR 0x22 \<or> (of_char c :: nat) < 32 then None
          else
            (let n = rune_size (map of_char s)
             in if n = 0 then map_option ((@) (utf8 replacement)) (unescape_text cs)
                else map_option ((@) (take n s)) (unescape_text (drop n s))))"
  by pat_completeness auto
termination
proof (relation "measure length", goal_cases)
  case (3 s c cs e r r1r r1 r')
  then show ?case using read_hex4_length [of r r1 r'] by simp
qed (auto dest!: read_hex4_length split: if_splits)
declare unescape_text.simps [simp del]

text \<open>\<open>json.Unmarshal\<close> of a raw value into a string: a string literal is decoded, \<open>null\<close> leaves the
  string as it was, and any other value is refused.\<close>

definition decode_text :: "string \<Rightarrow> string option" where
  "decode_text raw =
     (if raw = ''null'' then Some []
      else if 2 \<le> length raw \<and> hd raw = CHR 0x22 then unescape_text (butlast (tl raw))
      else None)"

section \<open>An object, member by member\<close>

function members_from :: "string \<Rightarrow> ((string \<times> string) list \<times> string) option" where
  "members_from s =
     (if (case skip_space s of c # _ \<Rightarrow> c \<noteq> CHR 0x22 | [] \<Rightarrow> True) then None
      else case next_value s of
          None \<Rightarrow> None
        | Some (key, r) \<Rightarrow>
            (case skip_space r of
               c # r' \<Rightarrow>
                 if c \<noteq> CHR '':'' then None
                 else (case next_value r' of
                     None \<Rightarrow> None
                   | Some (v, t) \<Rightarrow>
                       (case skip_space t of
                          d # t' \<Rightarrow>
                            if d = CHR ''}'' then Some ([(key, v)], t')
                            else if d = CHR '','' then
                              map_option (\<lambda>(ms, u). ((key, v) # ms, u)) (members_from t')
                            else None
                        | [] \<Rightarrow> None))
             | [] \<Rightarrow> None))"
  by pat_completeness auto
termination
proof (relation "measure length", goal_cases)
  case (2 s kr key r c r' vt v t d t')
  have "length r < length s" "length t < length r'" using next_value_length 2 by auto
  moreover have "length (c # r') \<le> length r" "length (d # t') \<le> length t"
    using 2 skip_space_length by metis+
  ultimately show ?case by simp
qed simp
declare members_from.simps [simp del]

text \<open>The document \<open>json.Decoder\<close> accepts as one object and nothing after it: the decoded keys with the
  raw values, in the order written.\<close>

definition object_members :: "string \<Rightarrow> (string \<times> string) list option" where
  "object_members data =
     (case skip_space data of
        c # r \<Rightarrow>
          if c \<noteq> CHR ''{'' then None
          else
            (case (case skip_space r of
                     d # t \<Rightarrow> if d = CHR ''}'' then Some ([], t) else members_from r
                   | [] \<Rightarrow> None) of
               None \<Rightarrow> None
             | Some (ms, t) \<Rightarrow>
                 if skip_space t \<noteq> [] then None
                 else those (map (\<lambda>(k, v). map_option (\<lambda>k'. (k', v)) (decode_text k)) ms))
      | [] \<Rightarrow> None)"

section \<open>Whole numbers\<close>

definition dec_int :: "int \<Rightarrow> string" where
  "dec_int x = (if x < 0 then CHR ''-'' # dec_nat (nat (- x)) else dec_nat (nat x))"

text \<open>\<open>strconv.ParseInt\<close> with base ten, for a width of \<open>bits\<close>.\<close>

definition parse_int :: "nat \<Rightarrow> string \<Rightarrow> int option" where
  "parse_int bits s =
     (let (neg, ds) = (case s of c # r \<Rightarrow> if c = CHR ''-'' then (True, r) else if c = CHR ''+'' then (False, r)
                         else (False, s) | [] \<Rightarrow> (False, s))
      in if ds = [] \<or> \<not> list_all is_digit ds then None
         else (let n = int (undec ds); x = (if neg then - n else n)
               in if - (2 ^ (bits - 1)) \<le> x \<and> x < 2 ^ (bits - 1) then Some x else None))"

section \<open>Reading back what was written\<close>

lemma is_digit_char [simp]: "d < 10 \<Longrightarrow> is_digit (digit_char d)"
  by (simp add: is_digit_def of_digit_char)

lemma dec_nat_digits [simp]: "list_all is_digit (dec_nat n)"
  by (induction n rule: dec_nat.induct) (auto simp: dec_nat.simps)

lemma dec_nat_not_Nil [simp]: "dec_nat n \<noteq> []"
  by (subst dec_nat.simps) simp

lemma digit_char_eq_0: "d < 10 \<Longrightarrow> digit_char d = CHR ''0'' \<longleftrightarrow> d = 0"
proof -
  have "digit_char 0 = CHR ''0''" by code_simp
  then show "d < 10 \<Longrightarrow> ?thesis"
    by (auto simp: digit_char_def dest: arg_cong [where f = "of_char :: char \<Rightarrow> nat"])
qed

lemma dec_nat_hd_0: "hd (dec_nat n) = CHR ''0'' \<longleftrightarrow> n = 0"
proof (induction n rule: dec_nat.induct)
  case (1 n)
  then show ?case
    by (cases "n < 10") (auto simp: dec_nat.simps [of n] digit_char_eq_0)
qed

lemma dec_nat_0: "dec_nat 0 = ''0''"
  by code_simp

lemma digit_not_minus: "is_digit c \<Longrightarrow> c \<noteq> CHR ''-'' \<and> c \<noteq> CHR ''+'' \<and> c \<noteq> CHR 0x22 \<and> \<not> json_space c"
  by (auto simp: is_digit_def json_space_def)

lemma undec_dec_nat': "foldl (\<lambda>n c. 10 * n + (of_char c - 48)) 0 (dec_nat n) = n"
  using undec_dec_nat [of n] by simp

lemma parse_dec_int [simp]:
  assumes "- (2 ^ (bits - 1)) \<le> x" and "x < 2 ^ (bits - 1)"
  shows "parse_int bits (dec_int x) = Some x"
proof (cases "x < 0")
  case True
  then have "dec_int x = CHR ''-'' # dec_nat (nat (- x))" by (simp add: dec_int_def)
  with True assms show ?thesis by (simp add: parse_int_def Let_def undec_dec_nat' del: undec.simps)
next
  case False
  obtain c r where cr: "dec_nat (nat x) = c # r" using dec_nat_not_Nil [of "nat x"] by (cases "dec_nat (nat x)") auto
  have "is_digit c" using dec_nat_digits [of "nat x"] by (simp add: cr)
  note c = digit_not_minus [OF this]
  have "undec (c # r) = nat x" using undec_dec_nat [of "nat x"] by (simp only: cr)
  moreover have "list_all is_digit (c # r)" using dec_nat_digits [of "nat x"] by (simp add: cr)
  ultimately show ?thesis using False assms c by (simp add: parse_int_def dec_int_def cr Let_def del: undec.simps)
qed

definition ends_number :: "string \<Rightarrow> bool" where
  "ends_number t = (case t of [] \<Rightarrow> True | c # _ \<Rightarrow> \<not> is_digit c \<and> c \<notin> set ''.eE'')"

lemma scan_digits:
  "list_all is_digit ds \<Longrightarrow> ends_number t \<Longrightarrow> scan_value JDigits [] raw (ds @ t) = Some (rev raw @ ds, t)"
proof (induction ds arbitrary: raw)
  case Nil
  then show ?case
    by (cases t) (auto simp: ends_number_def may_stop_def in_number_def)
next
  case (Cons d ds)
  then show ?case by (simp add: may_stop_def in_number_def)
qed

lemma scan_number:
  assumes "ends_number t"
  shows "next_value (dec_int x @ t) = Some (dec_int x, t)"
proof -
  have nat: "scan_value JBegin [] [] (dec_nat n @ t) = Some (dec_nat n, t)"
    and minus: "scan_value JMinus [] [CHR ''-''] (dec_nat n @ t) = Some (CHR ''-'' # dec_nat n, t)" for n
  proof -
    obtain c r where cr: "dec_nat n = c # r" using dec_nat_not_Nil [of n] by (cases "dec_nat n") auto
    have d: "is_digit c" "list_all is_digit r" using dec_nat_digits [of n] by (simp_all add: cr)
    have zero: "c = CHR ''0'' \<longleftrightarrow> n = 0" using dec_nat_hd_0 [of n] by (simp add: cr)
    have r: "r = []" if "n = 0" using cr that by (simp add: dec_nat_0)
    have ch: "c \<noteq> CHR ''{''" "c \<noteq> CHR ''[''" "c \<noteq> CHR ''-''" "c \<noteq> CHR 0x22" "\<not> json_space c"
      using d(1) by (auto simp: is_digit_def json_space_def)
    have z: "scan_value JZero [] raw t = Some (rev raw, t)" for raw
      using assms by (cases t) (auto simp: ends_number_def may_stop_def in_number_def)
    show "scan_value JBegin [] [] (dec_nat n @ t) = Some (dec_nat n, t)"
      unfolding cr by (cases "n = 0") (use d ch zero r z scan_digits [OF d(2) assms] in
          \<open>auto simp: may_stop_def begin_value_def\<close>)
    show "scan_value JMinus [] [CHR ''-''] (dec_nat n @ t) = Some (CHR ''-'' # dec_nat n, t)"
      unfolding cr by (cases "n = 0") (use d ch zero r z scan_digits [OF d(2) assms] in \<open>auto simp: may_stop_def\<close>)
  qed
  obtain c r where "dec_int x @ t = c # r" "\<not> json_space c"
  proof (cases "x < 0")
    case True
    then show ?thesis using that by (simp add: dec_int_def json_space_def)
  next
    case False
    obtain c r where "dec_nat (nat x) = c # r" using dec_nat_not_Nil [of "nat x"] by (cases "dec_nat (nat x)") auto
    with dec_nat_digits [of "nat x"] digit_not_minus [of c] that show ?thesis by (simp add: dec_int_def False)
  qed
  then have "skip_space (dec_int x @ t) = dec_int x @ t" by simp
  then show ?thesis
    using nat minus
    by (auto simp: next_value_def dec_int_def may_stop_def begin_value_def json_space_def is_digit_def)
qed

text \<open>A literal of plain characters.\<close>

definition plain :: "char \<Rightarrow> bool" where
  "plain c = (32 \<le> (of_char c :: nat) \<and> (of_char c :: nat) < 128 \<and> c \<noteq> CHR 0x22 \<and> c \<noteq> CHR 0x5C)"

definition quoted :: "string \<Rightarrow> string" where
  "quoted s = CHR 0x22 # s @ [CHR 0x22]"

lemma scan_plain:
  "list_all plain s \<Longrightarrow>
     scan_value JText [] raw (s @ CHR 0x22 # t) = Some (rev raw @ s @ [CHR 0x22], t)"
proof (induction s arbitrary: raw)
  case Nil
  then show ?case by (cases t) (auto simp: may_stop_def in_number_def)
next
  case (Cons c s)
  then have "c \<noteq> CHR 0x22" "c \<noteq> CHR 0x5C" "\<not> (of_char c :: nat) < 32" "list_all plain s"
    by (simp_all, simp_all add: plain_def)
  with Cons.IH [of "c # raw"] show ?case by (simp add: may_stop_def)
qed

lemma scan_quoted:
  assumes "list_all plain s"
  shows "next_value (quoted s @ t) = Some (quoted s, t)"
  using scan_plain [OF assms, of "[CHR 0x22]" t]
  by (simp add: next_value_def quoted_def json_space_def may_stop_def begin_value_def)

lemma unescape_plain: "list_all plain s \<Longrightarrow> unescape_text s = Some s"
proof (induction s)
  case Nil
  then show ?case by (simp add: unescape_text.simps)
next
  case (Cons c s)
  have "rune_size (map of_char (c # s)) = 1" using Cons.prems by (simp add: plain_def)
  then show ?case
    using Cons by (subst unescape_text.simps) (simp add: plain_def Let_def del: rune_size.simps)
qed

lemma decode_quoted: "list_all plain s \<Longrightarrow> decode_text (quoted s) = Some s"
  by (simp add: decode_text_def quoted_def unescape_plain)

lemma members_last:
  assumes "list_all plain k" and "next_value (v @ CHR ''}'' # t) = Some (v, CHR ''}'' # t)"
  shows "members_from (quoted k @ CHR '':'' # v @ CHR ''}'' # t) = Some ([(quoted k, v)], t)"
proof -
  have "skip_space (quoted k @ CHR '':'' # v @ CHR ''}'' # t) = quoted k @ CHR '':'' # v @ CHR ''}'' # t"
    by (simp add: quoted_def json_space_def)
  with assms scan_quoted [OF assms(1), of "CHR '':'' # v @ CHR ''}'' # t"] show ?thesis
    by (subst members_from.simps) (simp add: json_space_def, simp add: quoted_def)
qed

lemma members_more:
  assumes "list_all plain k" and "next_value (v @ CHR '','' # t) = Some (v, CHR '','' # t)"
  shows "members_from (quoted k @ CHR '':'' # v @ CHR '','' # t) =
     map_option (\<lambda>(ms, u). ((quoted k, v) # ms, u)) (members_from t)"
proof -
  have "skip_space (quoted k @ CHR '':'' # v @ CHR '','' # t) = quoted k @ CHR '':'' # v @ CHR '','' # t"
    by (simp add: quoted_def json_space_def)
  with assms scan_quoted [OF assms(1), of "CHR '':'' # v @ CHR '','' # t"] show ?thesis
    by (subst members_from.simps) (simp add: json_space_def, simp add: quoted_def)
qed

lemma object_of_two:
  assumes k: "list_all plain k1" "list_all plain k2"
    and v: "next_value (v1 @ CHR '','' # quoted k2 @ CHR '':'' # v2 @ ''}'') = Some (v1, CHR '','' # quoted k2 @ CHR '':'' # v2 @ ''}'')"
    and w: "next_value (v2 @ ''}'') = Some (v2, ''}'')"
  shows "object_members (CHR ''{'' # quoted k1 @ CHR '':'' # v1 @ CHR '','' # quoted k2 @ CHR '':'' # v2 @ ''}'') =
     Some [(k1, v1), (k2, v2)]"
proof -
  have "members_from (quoted k2 @ CHR '':'' # v2 @ ''}'') = Some ([(quoted k2, v2)], [])"
    using members_last [OF k(2), of v2 "[]"] w by simp
  then have "members_from (quoted k1 @ CHR '':'' # v1 @ CHR '','' # quoted k2 @ CHR '':'' # v2 @ ''}'') =
      Some ([(quoted k1, v1), (quoted k2, v2)], [])"
    using members_more [OF k(1) v] by simp
  moreover have "skip_space (quoted k1 @ x) = quoted k1 @ x" for x
    by (simp add: quoted_def json_space_def)
  moreover have "quoted k1 @ x \<noteq> []" "quoted k1 @ x \<noteq> CHR ''}'' # y" for x y
    by (simp_all add: quoted_def)
  ultimately show ?thesis
    using k by (auto simp: object_members_def json_space_def decode_quoted split: list.splits)
qed

section \<open>A value inside an object\<close>

lemma scan_text_in:
  "list_all plain s \<Longrightarrow>
     scan_value JText (f # fs) raw (s @ CHR 0x22 # t) = scan_value JDone (f # fs) (CHR 0x22 # rev s @ raw) t"
proof (induction s arbitrary: raw)
  case (Cons c s)
  then have "c \<noteq> CHR 0x22" "c \<noteq> CHR 0x5C" "\<not> (of_char c :: nat) < 32" "list_all plain s"
    by (simp_all, simp_all add: plain_def)
  with Cons.IH [of "c # raw"] Cons.prems show ?case by simp
qed simp

lemma scan_digits_in:
  "list_all is_digit ds \<Longrightarrow>
     scan_value JDigits (f # fs) raw (ds @ t) = scan_value JDigits (f # fs) (rev ds @ raw) t"
  by (induction ds arbitrary: raw) auto

lemma scan_number_in:
  "scan_value JBegin (InMember # fs) raw (dec_int x @ CHR '','' # t) =
     scan_value JKey (InKey # fs) (CHR '','' # rev (dec_int x) @ raw) t"
proof -
  have nat: "scan_value JBegin (InMember # fs) raw (dec_nat n @ CHR '','' # t) =
      scan_value JKey (InKey # fs) (CHR '','' # rev (dec_nat n) @ raw) t"
    and minus: "scan_value JMinus (InMember # fs) raw (dec_nat n @ CHR '','' # t) =
      scan_value JKey (InKey # fs) (CHR '','' # rev (dec_nat n) @ raw) t" for n raw
  proof -
    obtain c r where cr: "dec_nat n = c # r" using dec_nat_not_Nil [of n] by (cases "dec_nat n") auto
    have d: "is_digit c" "list_all is_digit r" using dec_nat_digits [of n] by (simp_all add: cr)
    have zero: "c = CHR ''0'' \<longleftrightarrow> n = 0" using dec_nat_hd_0 [of n] by (simp add: cr)
    have r: "r = []" if "n = 0" using cr that by (simp add: dec_nat_0)
    have ch: "c \<noteq> CHR ''{''" "c \<noteq> CHR ''[''" "c \<noteq> CHR ''-''" "c \<noteq> CHR 0x22" "\<not> json_space c"
      using d(1) by (auto simp: is_digit_def json_space_def)
    have comma: "\<not> is_digit (CHR '','')" "\<not> json_space (CHR '','')" by code_simp+
    show "scan_value JBegin (InMember # fs) raw (dec_nat n @ CHR '','' # t) =
        scan_value JKey (InKey # fs) (CHR '','' # rev (dec_nat n) @ raw) t"
      unfolding cr by (cases "n = 0") (use d ch zero r comma scan_digits_in [OF d(2)] in
          \<open>auto simp: begin_value_def done_or_after_def after_value_def\<close>)
    show "scan_value JMinus (InMember # fs) raw (dec_nat n @ CHR '','' # t) =
        scan_value JKey (InKey # fs) (CHR '','' # rev (dec_nat n) @ raw) t"
      unfolding cr by (cases "n = 0") (use d ch zero r comma scan_digits_in [OF d(2)] in
          \<open>auto simp: done_or_after_def after_value_def\<close>)
  qed
  show ?thesis
    using nat minus by (simp add: dec_int_def begin_value_def json_space_def)
qed

end
