(* ===== verification/MoneyJson.thy ===== *)
theory MoneyJson
  imports Money JsonText
begin

text \<open>
  The JSON form of \<open>internal/platform/money/money.go\<close>: \<open>Amount.MarshalJSON\<close> byte for byte and
  \<open>Amount.UnmarshalJSON\<close> over any bytes, with the round trip.
\<close>

section \<open>Encoding\<close>

definition minor_key :: string where
  "minor_key = ''minor''"

definition currency_key :: string where
  "currency_key = ''currency''"

definition marshal_amount :: "amount \<Rightarrow> money_error + string" where
  "marshal_amount a =
     (case validate_amount a of
        Some e \<Rightarrow> Inl e
      | None \<Rightarrow>
          Inr (CHR ''{'' # quoted minor_key @ CHR '':'' # dec_int (sint (minor a)) @ CHR '','' #
               quoted currency_key @ CHR '':'' # quoted (currency_of a) @ ''}''))"

section \<open>Decoding\<close>

text \<open>The members as they come, each at most once and under its exact name.\<close>

fun take_members ::
  "(string \<times> string) list \<Rightarrow> string option \<Rightarrow> string option \<Rightarrow> money_error + string option \<times> string option" where
  "take_members [] m c = Inr (m, c)"
| "take_members ((key, value) # rest) m c =
     (if key = minor_key then (if m \<noteq> None then Inl ErrMalformedJSON else take_members rest (Some value) c)
      else if key = currency_key then (if c \<noteq> None then Inl ErrMalformedJSON else take_members rest m (Some value))
      else Inl ErrMalformedJSON)"

definition raw_literal :: "string option \<Rightarrow> string" where
  "raw_literal r = trim_space (case r of None \<Rightarrow> [] | Some s \<Rightarrow> s)"

definition unmarshal_amount :: "string \<Rightarrow> money_error + amount" where
  "unmarshal_amount data =
     (if trim_space data = ''null'' then Inl ErrMalformedJSON
      else case object_members data of
        None \<Rightarrow> Inl ErrMalformedJSON
      | Some ms \<Rightarrow>
          (case take_members ms None None of
             Inl e \<Rightarrow> Inl e
           | Inr (m, c) \<Rightarrow>
               (case parse_int 64 (raw_literal m) of
                  None \<Rightarrow> Inl ErrNotMinorUnits
                | Some units \<Rightarrow>
                    (case (case c of None \<Rightarrow> Some [] | Some raw \<Rightarrow> decode_text raw) of
                       None \<Rightarrow> Inl ErrMalformedJSON
                     | Some code \<Rightarrow>
                         (case parse_currency code of
                            Inl e \<Rightarrow> Inl e
                          | Inr cur \<Rightarrow> Inr \<lparr>minor = word_of_int units, currency_of = cur\<rparr>)))))"

section \<open>The round trip\<close>

lemma trim_with_visible:
  assumes "s \<noteq> []" and "\<not> space_byte (of_char (hd s))"
    and "\<And>e n. e \<in> set encs \<Longrightarrow> n \<in> set e \<Longrightarrow> space_byte n"
  shows "trim_with encs s = s"
proof -
  have "strip_one encs s = None"
  proof (rule ccontr)
    assume "strip_one encs s \<noteq> None"
    then obtain t where "strip_one encs s = Some t" by blast
    then obtain e where e: "e \<in> set encs" "e \<noteq> []" "map of_char s = e @ map of_char t"
      by (elim strip_one_SomeD) auto
    then have "of_char (hd s) = hd e" using assms(1) by (metis hd_append2 hd_map)
    moreover have "hd e \<in> set e" using e(2) by simp
    ultimately show False using assms(2,3) e(1) by metis
  qed
  then show ?thesis by (simp add: trim_with.simps)
qed

lemma trim_visible:
  assumes "s \<noteq> []" and "\<not> space_byte (of_char (hd s))" and "\<not> space_byte (of_char (last s))"
  shows "trim_space s = s"
proof -
  have "trim_with space_encodings s = s"
    by (rule trim_with_visible [OF assms(1,2)]) (rule space_encodings_bytes)
  moreover have "trim_with (map rev space_encodings) (rev s) = rev s"
    using assms space_encodings_bytes by (intro trim_with_visible) (auto simp: hd_rev)
  ultimately show ?thesis by (simp add: trim_space_def)
qed

lemma digit_visible: "is_digit c \<Longrightarrow> \<not> space_byte (of_char c)"
  by (auto simp: is_digit_def space_byte_def)

lemma trim_dec_int [simp]: "trim_space (dec_int x) = dec_int x"
proof (rule trim_visible)
  let ?d = "dec_nat (nat (if x < 0 then - x else x))"
  have d: "is_digit (hd ?d)" "is_digit (last ?d)"
    using dec_nat_digits [of "nat (if x < 0 then - x else x)"] dec_nat_not_Nil
    by (auto simp: list_all_iff simp del: dec_nat_digits)
  have s: "dec_int x = (if x < 0 then CHR ''-'' # ?d else ?d)" by (simp add: dec_int_def)
  show "dec_int x \<noteq> []" by (simp add: s)
  show "\<not> space_byte (of_char (hd (dec_int x)))"
    using digit_visible [OF d(1)] by (cases "x < 0") (simp_all add: s space_byte_def)
  show "\<not> space_byte (of_char (last (dec_int x)))"
    using digit_visible [OF d(2)] by (cases "x < 0") (simp_all add: s)
qed

lemma upper_plain: "upper_letter c \<Longrightarrow> plain c"
  by (auto simp: upper_letter_def plain_def)

lemma currency_plain: "currency_valid c \<Longrightarrow> list_all plain c"
  by (auto simp: currency_valid_def list_all_iff upper_plain split: if_splits)

lemma marshal_trimmed:
  assumes "marshal_amount a = Inr s"
  shows "trim_space s \<noteq> ''null''"
proof -
  have s: "s \<noteq> []" "hd s = CHR ''{''" "last s = CHR ''}''"
    using assms by (auto simp: marshal_amount_def split: option.splits)
  have "trim_space s = s" by (rule trim_visible) (simp_all add: s space_byte_def)
  then show ?thesis using s(2) by auto
qed

lemma marshal_members:
  assumes "marshal_amount a = Inr s"
  shows "object_members s = Some [(minor_key, dec_int (sint (minor a))), (currency_key, quoted (currency_of a))]"
    and "currency_valid (currency_of a)"
proof -
  show v: "currency_valid (currency_of a)"
    using assms by (auto simp: marshal_amount_def validate_amount_def split: if_splits)
  have s: "s = CHR ''{'' # quoted minor_key @ CHR '':'' # dec_int (sint (minor a)) @ CHR '','' #
      quoted currency_key @ CHR '':'' # quoted (currency_of a) @ ''}''"
    using assms by (auto simp: marshal_amount_def split: option.splits)
  show "object_members s = Some [(minor_key, dec_int (sint (minor a))), (currency_key, quoted (currency_of a))]"
    unfolding s
  proof (rule object_of_two)
    show "list_all plain minor_key" "list_all plain currency_key" by code_simp+
    show "next_value (dec_int (sint (minor a)) @ CHR '','' # quoted currency_key @ CHR '':'' # quoted (currency_of a) @ ''}'') =
        Some (dec_int (sint (minor a)), CHR '','' # quoted currency_key @ CHR '':'' # quoted (currency_of a) @ ''}'')"
      by (rule scan_number) (simp add: ends_number_def is_digit_def)
    show "next_value (quoted (currency_of a) @ ''}'') = Some (quoted (currency_of a), ''}'')"
      by (rule scan_quoted [OF currency_plain [OF v]])
  qed
qed

lemma marshalled_amount_reads_back:
  assumes "marshal_amount a = Inr s"
  shows "unmarshal_amount s = Inr a"
proof -
  note m = marshal_members [OF assms]
  have "minor_key \<noteq> currency_key" by code_simp
  then have "take_members [(minor_key, dec_int (sint (minor a))), (currency_key, quoted (currency_of a))] None None =
      Inr (Some (dec_int (sint (minor a))), Some (quoted (currency_of a)))" by simp
  moreover have "parse_int 64 (dec_int (sint (minor a))) = Some (sint (minor a))"
    using sint_bounds64 [of "minor a"] by (intro parse_dec_int) auto
  ultimately show ?thesis
    using m marshal_trimmed [OF assms]
    by (simp add: unmarshal_amount_def raw_literal_def decode_quoted currency_plain parse_currency_def)
qed

text \<open>(C33) The JSON form of an amount loses nothing: what \<open>MarshalJSON\<close> writes, \<open>UnmarshalJSON\<close> reads back as the
  same amount, and it writes exactly the amounts that have a currency.\<close>

theorem amount_json_round_trip:
  "case marshal_amount a of
     Inl e \<Rightarrow> e = ErrInvalidCurrency \<and> \<not> currency_valid (currency_of a)
   | Inr s \<Rightarrow> unmarshal_amount s = Inr a"
proof (cases "marshal_amount a")
  case (Inl e)
  then show ?thesis by (auto simp: marshal_amount_def validate_amount_def split: if_splits)
next
  case (Inr s)
  then show ?thesis using marshalled_amount_reads_back by simp
qed

lemma take_members_Inr:
  "take_members ms m c = Inr (m', c') \<Longrightarrow>
     distinct (map fst ms) \<and> set (map fst ms) \<subseteq> {minor_key, currency_key} \<and>
     m' = (case m of None \<Rightarrow> map_of ms minor_key | Some x \<Rightarrow> Some x) \<and>
     c' = (case c of None \<Rightarrow> map_of ms currency_key | Some x \<Rightarrow> Some x) \<and>
     (m \<noteq> None \<longrightarrow> minor_key \<notin> set (map fst ms)) \<and> (c \<noteq> None \<longrightarrow> currency_key \<notin> set (map fst ms))"
proof (induction ms m c rule: take_members.induct)
  case (1 m c)
  then show ?case by (auto split: option.splits)
next
  case (2 key v rest m c)
  have apart: "minor_key \<noteq> currency_key" by code_simp
  show ?case
  proof (cases "key = minor_key")
    case True
    with "2.prems" "2.IH"(1) apart show ?thesis by (auto split: if_splits option.splits)
  next
    case False
    with "2.prems" have "key = currency_key" by (auto split: if_splits)
    with "2.prems" "2.IH"(2) [OF False] apart show ?thesis by (auto split: if_splits option.splits)
  qed
qed

text \<open>(C34) Nothing that is not a whole number of minor units gets in: an amount \<open>UnmarshalJSON\<close> accepts has a
  well-formed currency, and its document is one object of exactly the members \<open>minor\<close> and
  \<open>currency\<close>, once each, the first of them a base ten integer in the 64 bit range.\<close>

theorem decoded_amount_was_written_whole:
  assumes "unmarshal_amount data = Inr a"
  shows "currency_valid (currency_of a) \<and>
     (\<exists>ms units code. object_members data = Some ms \<and> distinct (map fst ms) \<and>
        set (map fst ms) = {minor_key, currency_key} \<and>
        map_of ms minor_key = Some units \<and> parse_int 64 (trim_space units) = Some (sint (minor a)) \<and>
        map_of ms currency_key = Some code \<and> decode_text code = Some (currency_of a))"
proof -
  obtain ms m c n where ms: "object_members data = Some ms" "take_members ms None None = Inr (m, c)"
      and n: "parse_int 64 (raw_literal m) = Some n" and a: "minor a = word_of_int n"
      and code: "(case c of None \<Rightarrow> Some [] | Some raw \<Rightarrow> decode_text raw) = Some (currency_of a)"
      and cur: "currency_valid (currency_of a)"
    using assms by (auto simp: unmarshal_amount_def parse_currency_def split: if_splits option.splits sum.splits prod.splits)
  note t = take_members_Inr [OF ms(2)]
  have "trim_space [] = []" by code_simp
  then have "parse_int 64 (raw_literal None) = None" by (simp add: raw_literal_def parse_int_def)
  with n have "m \<noteq> None" by (cases m) auto
  then obtain units where u: "m = Some units" by blast
  have "currency_of a \<noteq> []" using cur by (auto simp: currency_valid_def)
  with code obtain raw where raw: "c = Some raw" "decode_text raw = Some (currency_of a)"
    by (auto split: option.splits)
  have "- (2 ^ 63) \<le> n \<and> n < 2 ^ 63" using n by (auto simp: parse_int_def Let_def split: if_splits prod.splits)
  then have "sint (minor a) = n" using a by (simp add: sint_of_int64 fits64_def)
  with n have whole: "parse_int 64 (trim_space units) = Some (sint (minor a))" by (simp add: u raw_literal_def)
  have at: "map_of ms minor_key = Some units" "map_of ms currency_key = Some raw" using t u raw(1) by simp_all
  have keys: "set (map fst ms) = {minor_key, currency_key}"
  proof
    show "set (map fst ms) \<subseteq> {minor_key, currency_key}" using t by blast
    show "{minor_key, currency_key} \<subseteq> set (map fst ms)"
      using at [THEN map_of_SomeD] by (auto intro: rev_image_eqI)
  qed
  have "distinct (map fst ms)" using t by (rule conjunct1)
  with cur ms(1) keys whole at raw(2) show ?thesis by blast
qed

definition sample_document :: string where
  "sample_document = CHR ''{'' # quoted currency_key @ '':'' @ quoted ''EUR'' @ '' , '' @ quoted minor_key @ '': -12 }''"

lemma sample_decoded: "unmarshal_amount sample_document = Inr \<lparr>minor = -12, currency_of = ''EUR''\<rparr>"
  by code_simp

theorem decoded_amount_was_written_whole_witness:
  "\<exists>ms units. object_members sample_document = Some ms \<and> map_of ms minor_key = Some units \<and>
     parse_int 64 (trim_space units) = Some (- 12)"
  using decoded_amount_was_written_whole [OF sample_decoded] by auto

end
