(* ===== verification/Offers.thy ===== *)
theory Offers
  imports MoneyJson
begin

text \<open>
  \<open>internal/cashback/catalogue/offer.go\<close>: the rate band, its JSON form (the snapshot a click keeps), the part of
  it a member earns, and the mapping of a stored offer row, which refuses every row a credit could
  not be computed from. Every failure of the mapping wraps the one sentinel \<open>ErrMalformedOffer\<close>.
\<close>

section \<open>Bands\<close>

abbreviation "RatePercent \<equiv> ''percent''"
abbreviation "RateFixed \<equiv> ''fixed''"

record rate_band =
  rate_kind :: string
  percent :: basis_points
  fixed :: amount

datatype offer_error = ErrOfferNotLive | ErrMalformedOffer | ErrUnknownRateKind | ErrEarning money_error

definition percent_band :: "basis_points \<Rightarrow> rate_band" where
  "percent_band r = \<lparr>rate_kind = RatePercent, percent = r, fixed = zero_value\<rparr>"

definition fixed_band :: "amount \<Rightarrow> rate_band" where
  "fixed_band a = \<lparr>rate_kind = RateFixed, percent = 0, fixed = a\<rparr>"

definition earned :: "rate_band \<Rightarrow> basis_points \<Rightarrow> rounding \<Rightarrow> offer_error + rate_band" where
  "earned b share mode =
     (if rate_kind b = RatePercent then
        (case split_rate (percent b) share mode of
           Inl e \<Rightarrow> Inl (ErrEarning e) | Inr (r, _) \<Rightarrow> Inr (percent_band r))
      else if rate_kind b = RateFixed then
        (case split_amount (fixed b) share mode of
           Inl e \<Rightarrow> Inl (ErrEarning e) | Inr (a, _) \<Rightarrow> Inr (fixed_band a))
      else Inl ErrUnknownRateKind)"

section \<open>The snapshot\<close>

definition kind_key :: string where "kind_key = ''kind''"
definition bps_key :: string where "bps_key = ''bps''"
definition amount_key :: string where "amount_key = ''amount''"

definition marshal_band :: "rate_band \<Rightarrow> offer_error + string" where
  "marshal_band b =
     (if rate_kind b = RatePercent then
        (if fixed b \<noteq> zero_value then Inl ErrMalformedOffer
         else if \<not> rate_valid (percent b) then Inl ErrMalformedOffer
         else Inr (CHR ''{'' # quoted kind_key @ CHR '':'' # quoted RatePercent @ CHR '','' #
                   quoted bps_key @ CHR '':'' # dec_int (sint (percent b)) @ ''}''))
      else if rate_kind b = RateFixed then
        (if percent b \<noteq> 0 then Inl ErrMalformedOffer
         else if \<not> is_positive (fixed b) then Inl ErrMalformedOffer
         else case marshal_amount (fixed b) of
             Inl _ \<Rightarrow> Inl ErrMalformedOffer
           | Inr s \<Rightarrow> Inr (CHR ''{'' # quoted kind_key @ CHR '':'' # quoted RateFixed @ CHR '','' #
                   quoted amount_key @ CHR '':'' # s @ ''}''))
      else Inl ErrMalformedOffer)"

record band_slots =
  sl_kind :: "string option"
  sl_bps :: "string option"
  sl_amount :: "string option"

fun take_slots :: "(string \<times> string) list \<Rightarrow> band_slots \<Rightarrow> offer_error + band_slots" where
  "take_slots [] sl = Inr sl"
| "take_slots ((key, value) # rest) sl =
     (if key = kind_key then
        (if sl_kind sl \<noteq> None then Inl ErrMalformedOffer else take_slots rest (sl\<lparr>sl_kind := Some value\<rparr>))
      else if key = bps_key then
        (if sl_bps sl \<noteq> None then Inl ErrMalformedOffer else take_slots rest (sl\<lparr>sl_bps := Some value\<rparr>))
      else if key = amount_key then
        (if sl_amount sl \<noteq> None then Inl ErrMalformedOffer else take_slots rest (sl\<lparr>sl_amount := Some value\<rparr>))
      else Inl ErrMalformedOffer)"

definition percent_from_json :: "string option \<Rightarrow> string option \<Rightarrow> offer_error + basis_points" where
  "percent_from_json bps amt =
     (if amt \<noteq> None then Inl ErrMalformedOffer
      else case bps of
        None \<Rightarrow> Inl ErrMalformedOffer
      | Some raw \<Rightarrow>
          (case parse_int 32 (trim_space raw) of
             None \<Rightarrow> Inl ErrMalformedOffer
           | Some v \<Rightarrow> if rate_valid (word_of_int v) then Inr (word_of_int v) else Inl ErrMalformedOffer))"

definition fixed_from_json :: "string option \<Rightarrow> string option \<Rightarrow> offer_error + amount" where
  "fixed_from_json bps amt =
     (if bps \<noteq> None then Inl ErrMalformedOffer
      else case amt of
        None \<Rightarrow> Inl ErrMalformedOffer
      | Some raw \<Rightarrow>
          (case unmarshal_amount raw of
             Inl _ \<Rightarrow> Inl ErrMalformedOffer
           | Inr a \<Rightarrow> if is_positive a then Inr a else Inl ErrMalformedOffer))"

definition unmarshal_band :: "string \<Rightarrow> offer_error + rate_band" where
  "unmarshal_band data =
     (case object_members data of
        None \<Rightarrow> Inl ErrMalformedOffer
      | Some ms \<Rightarrow>
          (case take_slots ms \<lparr>sl_kind = None, sl_bps = None, sl_amount = None\<rparr> of
             Inl e \<Rightarrow> Inl e
           | Inr sl \<Rightarrow>
               (case sl_kind sl of
                  None \<Rightarrow> Inl ErrMalformedOffer
                | Some raw \<Rightarrow>
                    (case decode_text raw of
                       None \<Rightarrow> Inl ErrMalformedOffer
                     | Some k \<Rightarrow>
                         if k = RatePercent then
                           map_sum id percent_band (percent_from_json (sl_bps sl) (sl_amount sl))
                         else if k = RateFixed then
                           map_sum id fixed_band (fixed_from_json (sl_bps sl) (sl_amount sl))
                         else Inl ErrMalformedOffer))))"

section \<open>Rows\<close>

text \<open>A nullable timestamp as the driver reads it: absent, one of the infinities, or an instant.\<close>

datatype timestamptz = NullTime | NegInfinity | PosInfinity | FiniteTime instant

record rate_row =
  rr_kind :: string
  rr_bps :: "i32 option"
  rr_fixed_minor :: "i64 option"
  rr_currency :: "string option"

record offer_row =
  or_id :: "uuid option"
  or_merchant :: "uuid option"
  or_merchant_slug :: string
  or_route :: "uuid option"
  or_network :: string
  or_click_ref_param :: string
  or_rate :: rate_row
  or_member_share :: i32
  or_conditions :: "string option"
  or_exclusions :: "string option"
  or_valid_from :: timestamptz
  or_valid_to :: timestamptz
  or_template :: string

record offer =
  of_id :: uuid
  of_merchant :: uuid
  of_merchant_slug :: string
  of_route :: uuid
  of_network :: string
  of_click_ref_param :: string
  of_rate :: rate_band
  of_member_share :: basis_points
  of_conditions :: string
  of_exclusions :: string
  of_valid_from :: instant
  of_valid_to :: instant
  of_template :: string

definition band_from_row :: "rate_row \<Rightarrow> offer_error + rate_band" where
  "band_from_row r =
     (if rr_kind r = RatePercent then
        (case rr_bps r of
           None \<Rightarrow> Inl ErrMalformedOffer
         | Some bps \<Rightarrow>
             if rr_fixed_minor r \<noteq> None \<or> rr_currency r \<noteq> None then Inl ErrMalformedOffer
             else if \<not> rate_valid bps then Inl ErrMalformedOffer
             else Inr (percent_band bps))
      else if rr_kind r = RateFixed then
        (case (rr_fixed_minor r, rr_currency r) of
           (Some m, Some c) \<Rightarrow>
             if rr_bps r \<noteq> None then Inl ErrMalformedOffer
             else (case new_amount m c of
                 Inl _ \<Rightarrow> Inl ErrMalformedOffer
               | Inr a \<Rightarrow> if is_positive a then Inr (fixed_band a) else Inl ErrMalformedOffer)
         | _ \<Rightarrow> Inl ErrMalformedOffer)
      else Inl ErrMalformedOffer)"

definition share_from_row :: "i32 \<Rightarrow> offer_error + basis_points" where
  "share_from_row bps = (if rate_valid bps then Inr bps else Inl ErrMalformedOffer)"

definition band_start :: "timestamptz \<Rightarrow> offer_error + instant" where
  "band_start ts =
     (case ts of
        NullTime \<Rightarrow> Inl ErrMalformedOffer
      | NegInfinity \<Rightarrow> Inr zero_time
      | PosInfinity \<Rightarrow> Inl ErrMalformedOffer
      | FiniteTime t \<Rightarrow> Inr t)"

definition band_end :: "timestamptz \<Rightarrow> offer_error + instant" where
  "band_end ts =
     (case ts of
        NullTime \<Rightarrow> Inr zero_time
      | PosInfinity \<Rightarrow> Inr zero_time
      | NegInfinity \<Rightarrow> Inl ErrMalformedOffer
      | FiniteTime t \<Rightarrow> Inr t)"

definition offer_from_row :: "offer_row \<Rightarrow> offer_error + offer" where
  "offer_from_row r =
     (case (or_id r, or_merchant r, or_route r) of
        (Some i, Some m, Some rt) \<Rightarrow>
          (case band_from_row (or_rate r) of Inl e \<Rightarrow> Inl e | Inr band \<Rightarrow>
          (case share_from_row (or_member_share r) of Inl e \<Rightarrow> Inl e | Inr share \<Rightarrow>
          (case band_start (or_valid_from r) of Inl e \<Rightarrow> Inl e | Inr st \<Rightarrow>
          (case band_end (or_valid_to r) of Inl e \<Rightarrow> Inl e | Inr en \<Rightarrow>
             Inr \<lparr>of_id = i, of_merchant = m, of_merchant_slug = or_merchant_slug r, of_route = rt,
               of_network = or_network r, of_click_ref_param = or_click_ref_param r, of_rate = band,
               of_member_share = share,
               of_conditions = (case or_conditions r of None \<Rightarrow> [] | Some s \<Rightarrow> s),
               of_exclusions = (case or_exclusions r of None \<Rightarrow> [] | Some s \<Rightarrow> s),
               of_valid_from = st, of_valid_to = en, of_template = or_template r\<rparr>))))
      | _ \<Rightarrow> Inl ErrMalformedOffer)"

section \<open>Well-formed bands\<close>

definition band_ok :: "rate_band \<Rightarrow> bool" where
  "band_ok b \<longleftrightarrow>
     (rate_kind b = RatePercent \<and> fixed b = zero_value \<and> rate_valid (percent b)) \<or>
     (rate_kind b = RateFixed \<and> percent b = 0 \<and> is_positive (fixed b) \<and> currency_valid (currency_of (fixed b)))"

lemma band_ok_percent [simp]: "band_ok (percent_band r) = rate_valid r"
  and band_ok_fixed [simp]: "band_ok (fixed_band a) = (is_positive a \<and> currency_valid (currency_of a))"
  by (auto simp: band_ok_def percent_band_def fixed_band_def)

lemma marshal_band_ok: "(\<exists>s. marshal_band b = Inr s) \<longleftrightarrow> band_ok b"
  by (auto simp: marshal_band_def band_ok_def marshal_amount_def validate_amount_def split: option.splits)

section \<open>The round trip\<close>

lemma scan_marshalled:
  assumes "marshal_amount a = Inr s"
  shows "next_value (s @ t) = Some (s, t)"
proof -
  have v: "list_all plain (currency_of a)"
    using marshal_members(2) [OF assms] by (rule currency_plain)
  have s: "s = CHR ''{'' # quoted minor_key @ CHR '':'' # dec_int (sint (minor a)) @ CHR '','' #
      quoted currency_key @ CHR '':'' # quoted (currency_of a) @ ''}''"
    using assms by (auto simp: marshal_amount_def split: option.splits)
  have p: "list_all plain minor_key" "list_all plain currency_key" by code_simp+
  note ch = json_space_def may_stop_def begin_value_def open_frame_def max_depth_def done_or_after_def after_value_def
  have last: "scan_value JDone [] raw t = Some (rev raw, t)" for raw
    by (cases t) (simp_all add: may_stop_def in_number_def)
  have "scan_value JBegin [] [] (s @ t) =
      scan_value JBegin [InMember] (CHR '':'' # rev (quoted minor_key) @ ''{'')
        (dec_int (sint (minor a)) @ CHR '','' # quoted currency_key @ CHR '':'' # quoted (currency_of a) @ CHR ''}'' # t)"
    unfolding s using scan_text_in [OF p(1), of InKey "[]"] by (simp add: quoted_def ch)
  also have "\<dots> = scan_value JBegin [InMember]
      (CHR '':'' # rev (quoted currency_key) @ CHR '','' # rev (dec_int (sint (minor a))) @ CHR '':'' # rev (quoted minor_key) @ ''{'')
      (quoted (currency_of a) @ CHR ''}'' # t)"
    using scan_text_in [OF p(2), of InKey "[]"] by (simp add: scan_number_in quoted_def ch)
  also have "\<dots> = Some (s, t)"
    using scan_text_in [OF v, of InMember "[]"] last by (simp add: quoted_def ch s)
  finally show ?thesis by (simp add: next_value_def s json_space_def)
qed

lemma band_members:
  assumes "list_all plain k" "list_all plain r" "list_all plain j" and "next_value (v @ ''}'') = Some (v, ''}'')"
  shows "object_members (CHR ''{'' # quoted k @ CHR '':'' # quoted r @ CHR '','' # quoted j @ CHR '':'' # v @ ''}'') =
     Some [(k, quoted r), (j, v)]"
  by (rule object_of_two [OF assms(1,3) scan_quoted [OF assms(2)] assms(4)])

lemma band_reads_back:
  assumes "marshal_band b = Inr s"
  shows "unmarshal_band s = Inr b"
proof -
  note Inr = assms
  have ok: "band_ok b" using marshal_band_ok [of b] Inr by blast
  have p: "list_all plain kind_key" "list_all plain bps_key" "list_all plain amount_key"
    "list_all plain RatePercent" "list_all plain RateFixed" by code_simp+
  have keys: "bps_key \<noteq> kind_key" "amount_key \<noteq> kind_key" "amount_key \<noteq> bps_key" by code_simp+
  show ?thesis
  proof (cases "rate_kind b = RatePercent")
    case True
    then have b: "b = percent_band (percent b)" "rate_valid (percent b)"
      using ok by (auto simp: band_ok_def percent_band_def)
    have s: "s = CHR ''{'' # quoted kind_key @ CHR '':'' # quoted RatePercent @ CHR '','' #
        quoted bps_key @ CHR '':'' # dec_int (sint (percent b)) @ ''}''"
      using Inr True by (auto simp: marshal_band_def split: if_splits)
    have "next_value (dec_int (sint (percent b)) @ ''}'') = Some (dec_int (sint (percent b)), ''}'')"
      by (rule scan_number) (simp add: ends_number_def is_digit_def)
    note m = band_members [OF p(1,4,2) this, folded s]
    have "parse_int 32 (dec_int (sint (percent b))) = Some (sint (percent b))"
      using sint_greater_eq [of "percent b"] sint_lt [of "percent b"] by (intro parse_dec_int) simp_all
    then have "percent_from_json (Some (dec_int (sint (percent b)))) None = Inr (percent b)"
      using b(2) by (simp add: percent_from_json_def)
    then show ?thesis using b(1) keys by (simp add: unmarshal_band_def m decode_quoted [OF p(4)])
  next
    case False
    then have b: "b = fixed_band (fixed b)" "is_positive (fixed b)" "rate_kind b = RateFixed"
      using ok by (auto simp: band_ok_def fixed_band_def)
    obtain amt where amt: "marshal_amount (fixed b) = Inr amt"
      and s: "s = CHR ''{'' # quoted kind_key @ CHR '':'' # quoted RateFixed @ CHR '','' #
        quoted amount_key @ CHR '':'' # amt @ ''}''"
      using Inr b(3) by (auto simp: marshal_band_def split: if_splits sum.splits)
    note m = band_members [OF p(1,5,3) scan_marshalled [OF amt], folded s]
    have "unmarshal_amount amt = Inr (fixed b)"
      using marshalled_amount_reads_back [OF amt] .
    then have "fixed_from_json None (Some amt) = Inr (fixed b)"
      using b(2) by (simp add: fixed_from_json_def)
    then show ?thesis using b(1) keys by (simp add: unmarshal_band_def m decode_quoted [OF p(5)])
  qed
qed

text \<open>(C35) The rate a click keeps is the rate that was published: a band is encoded exactly when it is
  well formed, and what is encoded decodes to the same band.\<close>

theorem band_json_round_trip:
  "case marshal_band b of
     Inl e \<Rightarrow> e = ErrMalformedOffer \<and> \<not> band_ok b
   | Inr s \<Rightarrow> band_ok b \<and> unmarshal_band s = Inr b"
proof (cases "marshal_band b")
  case (Inl e)
  then have "\<not> band_ok b" using marshal_band_ok [of b] by auto
  with Inl show ?thesis by (auto simp: marshal_band_def split: if_splits sum.splits)
next
  case (Inr s)
  then show ?thesis using marshal_band_ok [of b] band_reads_back by auto
qed

end
