(* ===== verification/Effects.thy ===== *)
theory Effects
  imports Main
begin

text \<open>
  How the models of stateful Go code are written: an operation is a function from a world to an
  answer and the world after it, and the answer is an error (\<open>Inl\<close>) or a value (\<open>Inr\<close>). An error
  ends the operation, as \<open>if err != nil { return }\<close> does, and leaves the world as it then was.
\<close>

text \<open>What the database answers a statement with when it does not carry it out: a unique or
  foreign key violation under the named constraint, any other refusal of the schema, no row, or a
  failure of the connection or the context.\<close>

datatype db_error =
    UniqueViolation string | ForeignKeyViolation string | CheckViolation string
  | TriggerRefused string | NoRows | ConnectionLost

definition give :: "'a \<Rightarrow> 'w \<Rightarrow> ('e + 'a) \<times> 'w" where
  "give x w = (Inr x, w)"

definition refuse :: "'e \<Rightarrow> 'w \<Rightarrow> ('e + 'a) \<times> 'w" where
  "refuse e w = (Inl e, w)"

definition and_then ::
  "('w \<Rightarrow> ('e + 'a) \<times> 'w) \<Rightarrow> ('a \<Rightarrow> 'w \<Rightarrow> ('e + 'b) \<times> 'w) \<Rightarrow> 'w \<Rightarrow> ('e + 'b) \<times> 'w" where
  "and_then m f w = (case m w of (Inl e, w') \<Rightarrow> (Inl e, w') | (Inr a, w') \<Rightarrow> f a w')"

definition wrap_error :: "('e \<Rightarrow> 'f) \<Rightarrow> ('w \<Rightarrow> ('e + 'a) \<times> 'w) \<Rightarrow> 'w \<Rightarrow> ('f + 'a) \<times> 'w" where
  "wrap_error h m w = (case m w of (Inl e, w') \<Rightarrow> (Inl (h e), w') | (Inr a, w') \<Rightarrow> (Inr a, w'))"

definition from_sum :: "'e + 'a \<Rightarrow> 'w \<Rightarrow> ('e + 'a) \<times> 'w" where
  "from_sum r w = (r, w)"

fun for_each :: "('a \<Rightarrow> 'w \<Rightarrow> ('e + 'b) \<times> 'w) \<Rightarrow> 'a list \<Rightarrow> 'w \<Rightarrow> ('e + 'b list) \<times> 'w" where
  "for_each f [] = give []"
| "for_each f (x # xs) = and_then (f x) (\<lambda>y. and_then (for_each f xs) (\<lambda>ys. give (y # ys)))"

named_theorems effects \<open>what an operation answered, step by step\<close>

lemma give_eq [effects]: "give x w = r \<longleftrightarrow> r = (Inr x, w)"
  by (auto simp: give_def)

lemma refuse_eq [effects]: "refuse e w = r \<longleftrightarrow> r = (Inl e, w)"
  by (auto simp: refuse_def)

lemma from_sum_eq [effects]: "from_sum s w = (r, w') \<longleftrightarrow> s = r \<and> w' = w"
  by (auto simp: from_sum_def)

lemma and_then_Inr [effects]:
  "and_then m f w = (Inr b, v) \<longleftrightarrow> (\<exists>a w'. m w = (Inr a, w') \<and> f a w' = (Inr b, v))"
  by (auto simp: and_then_def split: prod.splits sum.splits)

lemma and_then_Inl [effects]:
  "and_then m f w = (Inl e, v) \<longleftrightarrow> m w = (Inl e, v) \<or> (\<exists>a w'. m w = (Inr a, w') \<and> f a w' = (Inl e, v))"
  by (auto simp: and_then_def split: prod.splits sum.splits)

lemma wrap_error_Inr [effects]: "wrap_error h m w = (Inr a, v) \<longleftrightarrow> m w = (Inr a, v)"
  by (auto simp: wrap_error_def split: prod.splits sum.splits)

lemma wrap_error_Inl [effects]: "wrap_error h m w = (Inl e, v) \<longleftrightarrow> (\<exists>d. m w = (Inl d, v) \<and> e = h d)"
  by (auto simp: wrap_error_def split: prod.splits sum.splits)

text \<open>What every step keeps, the sequence keeps.\<close>

definition keeps :: "('w \<Rightarrow> 'w \<Rightarrow> bool) \<Rightarrow> ('w \<Rightarrow> ('e + 'a) \<times> 'w) \<Rightarrow> bool" where
  "keeps R m \<longleftrightarrow> (\<forall>w. R w (snd (m w)))"

lemma keepsD: "keeps R m \<Longrightarrow> m w = (r, v) \<Longrightarrow> R w v"
  unfolding keeps_def by (metis snd_conv)

lemma keeps_snd: "keeps R m \<Longrightarrow> R w (snd (m w))"
  by (simp add: keeps_def)

lemma keeps_and_then:
  assumes "transp R" and "keeps R m" and "\<And>a. keeps R (f a)"
  shows "keeps R (and_then m f)"
  using assms unfolding keeps_def and_then_def transp_def
  by (auto split: prod.splits sum.splits) (metis snd_conv)+

lemma keeps_give [intro]: "reflp R \<Longrightarrow> keeps R (give x)"
  and keeps_refuse [intro]: "reflp R \<Longrightarrow> keeps R (refuse e)"
  and keeps_from_sum [intro]: "reflp R \<Longrightarrow> keeps R (from_sum s)"
  by (auto simp: keeps_def give_def refuse_def from_sum_def reflp_def)

lemma keeps_if: "(P \<Longrightarrow> keeps R m) \<Longrightarrow> (\<not> P \<Longrightarrow> keeps R n) \<Longrightarrow> keeps R (if P then m else n)"
  by simp

lemma keeps_wrap_error: "keeps R m \<Longrightarrow> keeps R (wrap_error h m)"
  by (auto simp: keeps_def wrap_error_def split: prod.splits sum.splits) (metis snd_conv)+

lemma keeps_for_each:
  assumes "reflp R" and "transp R" and "\<And>x. keeps R (f x)"
  shows "keeps R (for_each f xs)"
  using assms by (induction xs) (auto intro!: keeps_and_then)

end
