(* ===== verification/Clickout.thy ===== *)
theory Clickout
  imports Offers Effects
begin

text \<open>
  \<open>internal/cashback/clickout\<close> and the two identifiers of \<open>internal/cashback/networks\<close> it works with: the
  reference a click is issued under (\<open>mint.go\<close>, \<open>networks/clickref.go\<close>), the network it is issued
  through (\<open>networks/identity.go\<close>), the recording of a click and the way a reported reference finds
  it again (\<open>click.go\<close>), the click rule (\<open>ratelimit.go\<close>, \<open>toomanyclicks.go\<close>) and the order in which
  \<open>ClickOuts.Issue\<close> asks for all of it (\<open>clickout.go\<close>). \<open>jsonb\<close> is what the database makes of a
  JSON document it stores, and \<open>sha\<close> the hexadecimal SHA-256 of a text: both are parameters.
\<close>

section \<open>Identifiers\<close>

definition lower_byte :: "char \<Rightarrow> bool" where
  "lower_byte c = (97 \<le> (of_char c :: nat) \<and> (of_char c :: nat) \<le> 122)"

definition upper_byte :: "char \<Rightarrow> bool" where
  "upper_byte c = (65 \<le> (of_char c :: nat) \<and> (of_char c :: nat) \<le> 90)"

definition network_id_valid :: "string \<Rightarrow> bool" where
  "network_id_valid n =
     (case n of
        [] \<Rightarrow> False
      | c # r \<Rightarrow> lower_byte c \<and> list_all (\<lambda>x. lower_byte x \<or> is_digit x \<or> x = CHR ''_'') r)"

definition url_safe :: "char \<Rightarrow> bool" where
  "url_safe c = (upper_byte c \<or> lower_byte c \<or> is_digit c \<or> c = CHR ''_'' \<or> c = CHR ''-'')"

definition issued_ref_min_len :: nat where
  "issued_ref_min_len = 22"

definition issued_ref_ok :: "string \<Rightarrow> bool" where
  "issued_ref_ok r = (issued_ref_min_len \<le> length r \<and> list_all url_safe r)"

datatype click_error =
    ErrInvalidIssuedClickRef | ErrInvalidNetworkID | ErrNoSuchClick | ErrUnreadableRate offer_error
  | ErrSnapshotShare | ErrClickRead db_error
  | ErrAnonymousClick | ErrUnofferedClick | ErrUnroutedClick | ErrClickNotRecorded db_error
  | ErrUnmintedClick | ErrPromiseRefused | ErrReferenceTaken | ErrClickNotAnnounced
  | ErrNoClickReference | TooManyClicks string nat int | ErrCounting db_error
  | ErrNotOptedIn | ErrParticipationRead db_error | ErrOfferNotAvailable | ErrOfferRead offer_error
  | ErrNoRedirect

definition new_issued_ref :: "string \<Rightarrow> click_error + string" where
  "new_issued_ref r = (if issued_ref_ok r then Inr r else Inl ErrInvalidIssuedClickRef)"

section \<open>Minting\<close>

definition base64_alphabet :: string where
  "base64_alphabet = ''ABCDEFGHIJKLMNOPQRSTUVWXYZabcdefghijklmnopqrstuvwxyz0123456789-_''"

definition sextet :: "nat \<Rightarrow> char" where
  "sextet n = base64_alphabet ! n"

fun raw_url_base64 :: "nat list \<Rightarrow> string" where
  "raw_url_base64 [] = []"
| "raw_url_base64 [a] = [sextet (a div 4), sextet (a mod 4 * 16)]"
| "raw_url_base64 [a, b] = [sextet (a div 4), sextet (a mod 4 * 16 + b div 16), sextet (b mod 16 * 4)]"
| "raw_url_base64 (a # b # c # r) =
     sextet (a div 4) # sextet (a mod 4 * 16 + b div 16) # sextet (b mod 16 * 4 + c div 64) # sextet (c mod 64) #
     raw_url_base64 r"

definition entropy_bytes :: nat where
  "entropy_bytes = 16"

text \<open>The source gives what it has left; \<open>io.ReadFull\<close> fails when that is too little.\<close>

definition mint :: "nat list \<Rightarrow> (click_error + string) \<times> nat list" where
  "mint source =
     (if length source < entropy_bytes then (Inl ErrNoClickReference, [])
      else (case new_issued_ref (raw_url_base64 (take entropy_bytes source)) of
          Inl _ \<Rightarrow> Inl ErrNoClickReference
        | Inr r \<Rightarrow> Inr r,
        drop entropy_bytes source))"

section \<open>Clicks\<close>

definition context_digest :: "(string \<Rightarrow> string) \<Rightarrow> string list \<Rightarrow> string" where
  "context_digest sha parts =
     (let kept = filter (\<lambda>p. trim_space p \<noteq> []) parts
      in if kept = [] then [] else sha (concat (hd kept # map (\<lambda>p. CHR 0x00 # p) (tl kept))))"

record promise =
  rate :: rate_band
  member_share :: basis_points

definition promise_validate :: "promise \<Rightarrow> bool" where
  "promise_validate p = (isl (marshal_band (rate p)) = False \<and> rate_valid (member_share p))"

record click_row =
  c_id :: uuid
  c_account :: uuid
  c_offer :: uuid
  c_route :: uuid
  c_network :: string
  c_ref :: string
  c_rate :: string
  c_share :: i32
  c_digest :: "string option"
  c_at :: instant

record click =
  cl_id :: uuid
  cl_ref :: string
  cl_account :: uuid
  cl_offer :: uuid
  cl_route :: uuid
  cl_network :: string
  cl_at :: instant
  cl_promised :: promise
  cl_digest :: string

record new_click =
  nc_ref :: string
  nc_account :: uuid
  nc_offer :: uuid
  nc_route :: uuid
  nc_network :: string
  nc_promised :: promise
  nc_digest :: string

definition click_from :: "click_row \<Rightarrow> click_error + click" where
  "click_from r =
     (case new_issued_ref (c_ref r) of Inl e \<Rightarrow> Inl e | Inr ref \<Rightarrow>
     (case unmarshal_band (c_rate r) of Inl e \<Rightarrow> Inl (ErrUnreadableRate e) | Inr band \<Rightarrow>
        if \<not> rate_valid (c_share r) then Inl ErrSnapshotShare
        else if \<not> network_id_valid (c_network r) then Inl ErrInvalidNetworkID
        else Inr \<lparr>cl_id = c_id r, cl_ref = ref, cl_account = c_account r, cl_offer = c_offer r,
          cl_route = c_route r, cl_network = c_network r, cl_at = c_at r,
          cl_promised = \<lparr>rate = band, member_share = c_share r\<rparr>,
          cl_digest = (case c_digest r of None \<Rightarrow> [] | Some d \<Rightarrow> d)\<rparr>))"

text \<open>\<open>GetClickByRef\<close>: the reference byte for byte, among the clicks of the network that reports it.\<close>

definition get_click_by_ref :: "string \<Rightarrow> string \<Rightarrow> click_row list \<Rightarrow> db_error + click_row" where
  "get_click_by_ref ref network rows =
     (case find (\<lambda>r. c_ref r = ref \<and> c_network r = network) rows of None \<Rightarrow> Inl NoRows | Some r \<Rightarrow> Inr r)"

definition by_ref :: "string \<Rightarrow> string option \<Rightarrow> (string \<Rightarrow> string \<Rightarrow> db_error + click_row) \<Rightarrow> click_error + click" where
  "by_ref network reported get =
     (case reported of
        None \<Rightarrow> Inl ErrNoSuchClick
      | Some ref \<Rightarrow>
          if \<not> network_id_valid network then Inl ErrInvalidNetworkID
          else case get ref network of
              Inl NoRows \<Rightarrow> Inl ErrNoSuchClick
            | Inl e \<Rightarrow> Inl (ErrClickRead e)
            | Inr row \<Rightarrow> click_from row)"

section \<open>Recording\<close>

record click_store =
  click_rows :: "click_row list"
  click_events :: "uuid list"
  offer_routes :: "(uuid \<times> uuid \<times> string) list"
  known_members :: "uuid list"
  click_minted :: nat

text \<open>\<open>offer_routes\<close> are the offers with the route and the network each is published on, which two foreign
  keys hold a click to.\<close>

definition insert_click ::
  "(nat \<Rightarrow> uuid) \<Rightarrow> instant \<Rightarrow> click_row \<Rightarrow> click_store \<Rightarrow> (db_error + click_row) \<times> click_store" where
  "insert_click fresh now arg s =
     (let r = arg\<lparr>c_id := fresh (click_minted s), c_at := now\<rparr>
      in if \<not> issued_ref_ok (c_ref r) then (Inl (CheckViolation ''click_ref_url_safe_and_long_enough''), s)
         else if \<not> rate_valid (c_share r) then (Inl (CheckViolation ''click_member_share_bps_range''), s)
         else if (case c_digest r of None \<Rightarrow> False | Some d \<Rightarrow> list_all (\<lambda>c. c = CHR '' '') d)
           then (Inl (CheckViolation ''click_context_digest_not_blank''), s)
         else if list_ex (\<lambda>x. c_id x = c_id r) (click_rows s) then (Inl (UniqueViolation ''click_pkey''), s)
         else if list_ex (\<lambda>x. c_ref x = c_ref r) (click_rows s) then (Inl (UniqueViolation ''click_ref_unique''), s)
         else if c_account r \<notin> set (known_members s) then (Inl (ForeignKeyViolation ''click_account_id_fkey''), s)
         else if (c_offer r, c_route r, c_network r) \<notin> set (offer_routes s)
           then (Inl (ForeignKeyViolation ''click_route_matches_offer''), s)
         else (Inr r, s\<lparr>click_rows := click_rows s @ [r], click_minted := Suc (click_minted s)\<rparr>))"

definition referenced_error :: "db_error \<Rightarrow> click_error" where
  "referenced_error e = (if e = UniqueViolation ''click_ref_unique'' then ErrReferenceTaken else ErrClickNotRecorded e)"

definition row_of_click :: "(string \<Rightarrow> string) \<Rightarrow> new_click \<Rightarrow> string \<Rightarrow> click_row" where
  "row_of_click jsonb c snapshot =
     \<lparr>c_id = nil_uuid, c_account = nc_account c, c_offer = nc_offer c, c_route = nc_route c,
      c_network = nc_network c, c_ref = nc_ref c, c_rate = jsonb snapshot,
      c_share = member_share (nc_promised c),
      c_digest = (if nc_digest c = [] then None else Some (nc_digest c)), c_at = zero_time\<rparr>"

definition record_click ::
  "(string \<Rightarrow> string) \<Rightarrow> (nat \<Rightarrow> uuid) \<Rightarrow> instant \<Rightarrow> new_click \<Rightarrow> click_store \<Rightarrow> (click_error + click) \<times> click_store" where
  "record_click jsonb fresh now c =
     (if nc_ref c = [] then refuse ErrUnmintedClick
      else if nc_account c = nil_uuid then refuse ErrAnonymousClick
      else if nc_offer c = nil_uuid then refuse ErrUnofferedClick
      else if nc_route c = nil_uuid then refuse ErrUnroutedClick
      else if \<not> network_id_valid (nc_network c) then refuse ErrUnroutedClick
      else if \<not> promise_validate (nc_promised c) then refuse ErrPromiseRefused
      else
        (case marshal_band (rate (nc_promised c)) of
           Inl _ \<Rightarrow> refuse ErrPromiseRefused
         | Inr snapshot \<Rightarrow>
             and_then (wrap_error referenced_error (insert_click fresh now (row_of_click jsonb c snapshot)))
               (\<lambda>row. from_sum (click_from row))))"

text \<open>\<open>AnnouncedClicks.Record\<close>: the click and its event in one transaction.\<close>

definition announce_click :: "click \<Rightarrow> click_store \<Rightarrow> (click_error + unit) \<times> click_store" where
  "announce_click c s =
     (if cl_id c = nil_uuid then (Inl ErrClickNotAnnounced, s)
      else if cl_id c \<in> set (click_events s) then (Inl ErrClickNotAnnounced, s)
      else (Inr (), s\<lparr>click_events := click_events s @ [cl_id c]\<rparr>))"

definition record_announced ::
  "(string \<Rightarrow> string) \<Rightarrow> (nat \<Rightarrow> uuid) \<Rightarrow> instant \<Rightarrow> bool \<Rightarrow> new_click \<Rightarrow> click_store \<Rightarrow>
   (click_error + click) \<times> click_store" where
  "record_announced jsonb fresh now commits c s =
     (case and_then (record_click jsonb fresh now c)
             (\<lambda>k. and_then (announce_click k) (\<lambda>_. give k)) s of
        (Inl e, _) \<Rightarrow> (Inl e, s)
      | (Inr k, s') \<Rightarrow> if commits then (Inr k, s') else (Inl (ErrClickNotRecorded ConnectionLost), s))"

section \<open>The click rule\<close>

record click_rule =
  per_member :: int
  per_context :: int

definition click_window :: int where
  "click_window = 3600000000000"

definition one_second :: int where
  "one_second = 1000000000"

definition count_recent :: "(click_row \<Rightarrow> bool) \<Rightarrow> instant \<Rightarrow> click_row list \<Rightarrow> nat \<times> instant option" where
  "count_recent who since rows =
     (let recent = filter (\<lambda>r. who r \<and> since < c_at r) rows
      in (length recent, if recent = [] then None else Some (Min (set (map c_at recent)))))"

definition refusal :: "string \<Rightarrow> int \<Rightarrow> nat \<Rightarrow> instant option \<Rightarrow> instant \<Rightarrow> click_error option" where
  "refusal rule allowed clicks oldest at =
     (if int clicks < allowed then None
      else
        (let retry = (case oldest of None \<Rightarrow> click_window | Some t \<Rightarrow> t + click_window - at)
         in Some (TooManyClicks rule (nat allowed) (if retry < one_second then one_second else retry))))"

definition allow :: "click_rule \<Rightarrow> uuid \<Rightarrow> string \<Rightarrow> instant \<Rightarrow> click_row list \<Rightarrow> click_error option" where
  "allow rule member digest at rows =
     (let since = at - click_window;
          by_member = (if 0 < per_member rule
            then (case count_recent (\<lambda>r. c_account r = member) since rows of
                (n, oldest) \<Rightarrow> refusal ''member'' (per_member rule) n oldest at) else None)
      in case by_member of
           Some e \<Rightarrow> Some e
         | None \<Rightarrow>
             if 0 < per_context rule \<and> digest \<noteq> []
             then (case count_recent (\<lambda>r. c_digest r = Some digest) since rows of
                 (n, oldest) \<Rightarrow> refusal ''context'' (per_context rule) n oldest at)
             else None)"

section \<open>Issuing a redirect\<close>

record request =
  rq_member :: uuid
  rq_offer :: uuid
  rq_context :: string

record deeplink_target =
  dt_offer :: uuid
  dt_network :: string
  dt_param :: string
  dt_template :: string

record issued =
  is_click :: click
  is_url :: string
  is_ends :: instant

record click_ports =
  live_offer :: "uuid \<Rightarrow> instant \<Rightarrow> offer_error + offer"
  participating :: "uuid \<Rightarrow> db_error + bool"
  build_link :: "deeplink_target \<Rightarrow> string \<Rightarrow> string option"

definition from_option :: "'e option \<Rightarrow> 'w \<Rightarrow> ('e + unit) \<times> 'w" where
  "from_option x w = (case x of None \<Rightarrow> (Inr (), w) | Some e \<Rightarrow> (Inl e, w))"

definition offer_unavailable :: "offer_error \<Rightarrow> click_error" where
  "offer_unavailable e = (if e = ErrOfferNotLive then ErrOfferNotAvailable else ErrOfferRead e)"

definition mint_here :: "click_store \<times> nat list \<Rightarrow> (click_error + string) \<times> (click_store \<times> nat list)" where
  "mint_here w = (case mint (snd w) of (r, rest) \<Rightarrow> (r, (fst w, rest)))"

definition record_issued ::
  "(string \<Rightarrow> string) \<Rightarrow> (nat \<Rightarrow> uuid) \<Rightarrow> instant \<Rightarrow> bool \<Rightarrow> request \<Rightarrow> offer \<Rightarrow> string \<Rightarrow> string \<Rightarrow>
   click_store \<times> nat list \<Rightarrow> (click_error + issued) \<times> (click_store \<times> nat list)" where
  "record_issued jsonb fresh now commits rq o1 ref url w =
     (case record_announced jsonb fresh now commits
         \<lparr>nc_ref = ref, nc_account = rq_member rq, nc_offer = of_id o1, nc_route = of_route o1,
          nc_network = of_network o1,
          nc_promised = \<lparr>rate = of_rate o1, member_share = of_member_share o1\<rparr>,
          nc_digest = rq_context rq\<rparr> (fst w) of
        (Inl e, s') \<Rightarrow> (Inl e, (s', snd w))
      | (Inr c, s') \<Rightarrow> (Inr \<lparr>is_click = c, is_url = url, is_ends = of_valid_to o1\<rparr>, (s', snd w)))"

definition issue ::
  "(string \<Rightarrow> string) \<Rightarrow> (nat \<Rightarrow> uuid) \<Rightarrow> click_ports \<Rightarrow> click_rule option \<Rightarrow> instant \<Rightarrow> instant \<Rightarrow> bool \<Rightarrow> request \<Rightarrow>
   click_store \<times> nat list \<Rightarrow> (click_error + issued) \<times> (click_store \<times> nat list)" where
  "issue jsonb fresh P limiter at now commits rq w =
     and_then (from_option (case limiter of None \<Rightarrow> None
         | Some rule \<Rightarrow> allow rule (rq_member rq) (rq_context rq) at (click_rows (fst w)))) (\<lambda>_.
     and_then (wrap_error ErrParticipationRead (from_sum (participating P (rq_member rq)))) (\<lambda>enrolled.
     if \<not> enrolled then refuse ErrNotOptedIn
     else
     and_then (wrap_error offer_unavailable (from_sum (live_offer P (rq_offer rq) at))) (\<lambda>o1.
     and_then mint_here (\<lambda>ref.
     case build_link P \<lparr>dt_offer = of_id o1, dt_network = of_network o1, dt_param = of_click_ref_param o1,
         dt_template = of_template o1\<rparr> ref of
       None \<Rightarrow> refuse ErrNoRedirect
     | Some url \<Rightarrow> record_issued jsonb fresh now commits rq o1 ref url)))) w"

section \<open>What is minted\<close>

abbreviation bytes_ok :: "nat list \<Rightarrow> bool" where
  "bytes_ok bs \<equiv> list_all (\<lambda>b. b < 256) bs"

lemma length_base64: "length (raw_url_base64 bs) = (4 * length bs + 2) div 3"
  by (induction bs rule: raw_url_base64.induct) auto

lemma alphabet: "length base64_alphabet = 64" "distinct base64_alphabet" "list_all url_safe base64_alphabet"
  by code_simp+

lemma sextet_inj: "m < 64 \<Longrightarrow> n < 64 \<Longrightarrow> sextet m = sextet n \<longleftrightarrow> m = n"
  unfolding sextet_def using alphabet(1,2) by (simp add: nth_eq_iff_index_eq)

lemma sextet_safe: "n < 64 \<Longrightarrow> url_safe (sextet n)"
  using alphabet(1,3) by (simp add: sextet_def list_all_length)

lemma sextet_bounds:
  fixes a b :: nat
  assumes "a < 256"
  shows "a div 4 < 64" "a mod 64 < 64" "a mod 4 * 16 < 64" "a mod 16 * 4 < 64"
    and "b < 256 \<Longrightarrow> a mod 4 * 16 + b div 16 < 64" and "b < 256 \<Longrightarrow> a mod 16 * 4 + b div 64 < 64"
proof -
  have m: "a mod 4 \<le> 3" "a mod 16 \<le> 15" using mod_less_divisor [of 4 a] mod_less_divisor [of 16 a] by linarith+
  have d: "b div 16 \<le> 15" "b div 64 \<le> 3" if "b < 256" using that by linarith+
  show "a div 4 < 64" "a mod 64 < 64" "a mod 4 * 16 < 64" "a mod 16 * 4 < 64" using assms m by simp_all
  show "b < 256 \<Longrightarrow> a mod 4 * 16 + b div 16 < 64" using m d by linarith
  show "b < 256 \<Longrightarrow> a mod 16 * 4 + b div 64 < 64" using m d by linarith
qed

lemma base64_safe: "bytes_ok bs \<Longrightarrow> list_all url_safe (raw_url_base64 bs)"
proof (induction bs rule: raw_url_base64.induct)
  case (4 a b c r)
  then have "a < 256" "b < 256" "c < 256" "bytes_ok r" by simp_all
  with "4.IH" sextet_bounds show ?case by (simp add: sextet_safe)
qed (simp_all add: sextet_safe sextet_bounds)

lemma join_eq:
  fixes a b a' b' :: nat
  assumes "0 < n" and "a mod k * n + b div m = a' mod k * n + b' div m" "b div m < n" "b' div m < n"
  shows "a mod k = a' mod k \<and> b div m = b' div m"
proof -
  have "(a mod k * n + b div m) div n = a mod k" "(a' mod k * n + b' div m) div n = a' mod k"
    "(a mod k * n + b div m) mod n = b div m" "(a' mod k * n + b' div m) mod n = b' div m"
    using assms(1,3,4) by simp_all
  with assms(2) show ?thesis by metis
qed

lemma halves_eq: "(a :: nat) div n = b div n \<Longrightarrow> a mod n = b mod n \<Longrightarrow> a = b"
  by (metis div_mult_mod_eq)

lemma first_byte_eq:
  assumes "a < 256" "b < 256" "a' < 256" "b' < 256"
    and "sextet (a div 4) = sextet (a' div 4)"
    and "sextet (a mod 4 * 16 + b div 16) = sextet (a' mod 4 * 16 + b' div 16)"
  shows "a = a'" and "b div 16 = b' div 16"
proof -
  have d: "b div 16 < 16" "b' div 16 < 16" using assms(2,4) by linarith+
  have "a div 4 = a' div 4" "a mod 4 * 16 + b div 16 = a' mod 4 * 16 + b' div 16"
    using assms sextet_bounds by (simp_all add: sextet_inj)
  moreover from join_eq [OF _ this(2) d] have "a mod 4 = a' mod 4" "b div 16 = b' div 16" by simp_all
  ultimately show "a = a'" "b div 16 = b' div 16" using halves_eq [of a 4 a'] by simp_all
qed

lemma second_byte_eq:
  assumes "b < 256" "c < 256" "b' < 256" "c' < 256" and "b div 16 = b' div 16"
    and "sextet (b mod 16 * 4 + c div 64) = sextet (b' mod 16 * 4 + c' div 64)"
  shows "b = b'" and "c div 64 = c' div 64"
proof -
  have d: "c div 64 < 4" "c' div 64 < 4" using assms(2,4) by linarith+
  have "b mod 16 * 4 + c div 64 = b' mod 16 * 4 + c' div 64"
    using assms sextet_bounds by (simp add: sextet_inj)
  from join_eq [OF _ this d] have "b mod 16 = b' mod 16" "c div 64 = c' div 64" by simp_all
  then show "b = b'" "c div 64 = c' div 64" using assms(5) halves_eq [of b 16 b'] by simp_all
qed

lemma base64_inj:
  "bytes_ok bs \<Longrightarrow> bytes_ok cs \<Longrightarrow> length bs = length cs \<Longrightarrow> raw_url_base64 bs = raw_url_base64 cs \<Longrightarrow> bs = cs"
proof (induction bs arbitrary: cs rule: raw_url_base64.induct)
  case (2 a)
  then obtain a' where c: "cs = [a']" by (cases cs) auto
  with "2.prems" first_byte_eq(1) [of a 0 a' 0] show ?case by simp
next
  case (3 a b)
  then obtain a' b' where c: "cs = [a', b']" by (cases cs rule: raw_url_base64.cases) auto
  with "3.prems" have l: "a < 256" "b < 256" "a' < 256" "b' < 256" by simp_all
  have "a = a'" "b div 16 = b' div 16" using "3.prems" c first_byte_eq [OF l] by simp_all
  with "3.prems" c second_byte_eq(1) [of b 0 b' 0] show ?case by simp
next
  case (4 a b x r)
  then obtain a' b' x' r' where c: "cs = a' # b' # x' # r'" by (cases cs rule: raw_url_base64.cases) auto
  with "4.prems" have l: "a < 256" "b < 256" "x < 256" "a' < 256" "b' < 256" "x' < 256" by simp_all
  have ab: "a = a'" "b div 16 = b' div 16" using "4.prems" c first_byte_eq [OF l(1,2,4,5)] by simp_all
  have bx: "b = b'" "x div 64 = x' div 64"
    using "4.prems" c second_byte_eq [OF l(2,3,5,6) ab(2)] by simp_all
  have "x mod 64 = x' mod 64" using "4.prems" c l sextet_bounds(2) by (simp add: sextet_inj)
  then have "x = x'" using bx(2) halves_eq [of x 64 x'] by simp
  moreover have "r = r'" using "4.IH" [of r'] "4.prems" c by simp
  ultimately show ?case using ab(1) bx(1) c by simp
qed simp

text \<open>(C36) A reference is minted exactly when the source gives sixteen bytes. It is then one the click table
  accepts, 22 characters long, and carries all of the 128 bits: sources that differ in their first
  sixteen bytes mint different references.\<close>

theorem minted_reference_is_usable_and_unguessable:
  assumes "bytes_ok source" and "bytes_ok other" and "entropy_bytes \<le> length source" and "entropy_bytes \<le> length other"
  shows "\<exists>r r'. mint source = (Inr r, drop entropy_bytes source) \<and> mint other = (Inr r', drop entropy_bytes other) \<and>
     issued_ref_ok r \<and> length r = 22 \<and>
     (r = r' \<longleftrightarrow> take entropy_bytes source = take entropy_bytes other)"
proof -
  have m: "mint s = (Inr (raw_url_base64 (take entropy_bytes s)), drop entropy_bytes s)"
      "issued_ref_ok (raw_url_base64 (take entropy_bytes s))" "length (raw_url_base64 (take entropy_bytes s)) = 22"
    if s: "bytes_ok s" "entropy_bytes \<le> length s" for s
  proof -
    have b: "bytes_ok (take entropy_bytes s)" using s(1) by (auto simp: list_all_iff dest: in_set_takeD)
    show l: "length (raw_url_base64 (take entropy_bytes s)) = 22"
      using s(2) by (simp add: length_base64 entropy_bytes_def)
    show ok: "issued_ref_ok (raw_url_base64 (take entropy_bytes s))"
      using l base64_safe [OF b] by (simp add: issued_ref_ok_def issued_ref_min_len_def)
    show "mint s = (Inr (raw_url_base64 (take entropy_bytes s)), drop entropy_bytes s)"
      using s(2) ok by (simp add: mint_def new_issued_ref_def)
  qed
  have "raw_url_base64 (take entropy_bytes source) = raw_url_base64 (take entropy_bytes other) \<longleftrightarrow>
      take entropy_bytes source = take entropy_bytes other"
    using base64_inj [of "take entropy_bytes source" "take entropy_bytes other"] assms
    by (auto simp: list_all_iff dest: in_set_takeD)
  with m assms show ?thesis by blast
qed

theorem minted_reference_is_usable_and_unguessable_witness:
  "\<exists>r r'. mint (replicate 16 7) = (Inr r, []) \<and> mint (replicate 17 9) = (Inr r', [9]) \<and> r \<noteq> r'"
proof -
  have h: "bytes_ok (replicate 16 7)" "bytes_ok (replicate 17 9)" "entropy_bytes \<le> length (replicate 16 (7::nat))"
    "entropy_bytes \<le> length (replicate 17 (9::nat))" by code_simp+
  have d: "drop entropy_bytes (replicate 16 (7::nat)) = []" "drop entropy_bytes (replicate 17 (9::nat)) = [9]"
    "(take entropy_bytes (replicate 16 (7::nat)) = take entropy_bytes (replicate 17 9)) = False" by code_simp+
  show ?thesis using minted_reference_is_usable_and_unguessable [OF h] unfolding d by blast
qed

section \<open>What is recorded is found again\<close>

lemma insert_click_Inr:
  assumes "insert_click fresh now arg s = (Inr r, s')"
  shows "r = arg\<lparr>c_id := fresh (click_minted s), c_at := now\<rparr>" and "issued_ref_ok (c_ref r)" and "rate_valid (c_share r)"
    and "\<not> list_ex (\<lambda>x. c_ref x = c_ref r) (click_rows s)"
    and "s' = s\<lparr>click_rows := click_rows s @ [r], click_minted := Suc (click_minted s)\<rparr>"
  using assms unfolding insert_click_def Let_def by (auto split: if_splits)

lemma record_click_Inr:
  assumes "record_click jsonb fresh now c s = (Inr k, s')"
  obtains snapshot row where "marshal_band (rate (nc_promised c)) = Inr snapshot"
    "insert_click fresh now (row_of_click jsonb c snapshot) s = (Inr row, s')" "click_from row = Inr k"
    "nc_account c \<noteq> nil_uuid" "network_id_valid (nc_network c)"
  using assms by (auto simp: record_click_def effects split: if_splits sum.splits)

lemma band_of_snapshot: "marshal_band b = Inr s \<Longrightarrow> unmarshal_band s = Inr b"
  using band_reads_back by blast


definition sample_store :: click_store where
  "sample_store = \<lparr>click_rows = [], click_events = [], offer_routes = [(3, 4, ''awin'')], known_members = [7], click_minted = 0\<rparr>"

definition sample_new_click :: new_click where
  "sample_new_click =
     \<lparr>nc_ref = ''abcdefghijklmnopqrstuv'', nc_account = 7, nc_offer = 3, nc_route = 4, nc_network = ''awin'',
      nc_promised = \<lparr>rate = percent_band 400, member_share = 5000\<rparr>, nc_digest = []\<rparr>"

lemma sample_recorded:
  "case record_click id (\<lambda>n. of_nat n + 1) 9 sample_new_click sample_store of (Inr k, _) \<Rightarrow> cl_id k = 1 | _ \<Rightarrow> False"
  by code_simp


text \<open>(C38) A reference is only ever a click's under the network that issued it, and only byte for byte.\<close>

theorem reference_matches_its_own_network_only:
  assumes "by_ref network reported (\<lambda>ref net. get_click_by_ref ref net rows) = Inr k"
  shows "reported = Some (cl_ref k) \<and> cl_network k = network \<and> issued_ref_ok (cl_ref k) \<and>
     rate_valid (member_share (cl_promised k)) \<and>
     (\<exists>row\<in>set rows. c_id row = cl_id k \<and> c_ref row = cl_ref k \<and> c_network row = network \<and> c_account row = cl_account k)"
proof -
  obtain ref row where r: "reported = Some ref" "get_click_by_ref ref network rows = Inr row" "click_from row = Inr k"
    using assms by (auto simp: by_ref_def split: option.splits if_splits sum.splits db_error.splits)
  then have "row \<in> set rows" "c_ref row = ref" "c_network row = network"
    by (auto simp: get_click_by_ref_def find_Some_iff split: option.splits)
  with r(1,3) show ?thesis
    by (auto simp: click_from_def new_issued_ref_def split: if_splits sum.splits)
qed

definition sample_rows :: "click_row list" where
  "sample_rows = click_rows (snd (record_click id (\<lambda>n. of_nat n + 1) 9 sample_new_click sample_store))"

lemma sample_found:
  "case by_ref ''awin'' (Some ''abcdefghijklmnopqrstuv'') (\<lambda>ref net. get_click_by_ref ref net sample_rows) of
     Inr k \<Rightarrow> cl_id k = 1 | _ \<Rightarrow> False"
  by code_simp

theorem reference_matches_its_own_network_only_witness:
  "\<exists>k. by_ref ''awin'' (Some ''abcdefghijklmnopqrstuv'') (\<lambda>ref net. get_click_by_ref ref net sample_rows) = Inr k \<and>
     cl_network k = ''awin'' \<and> cl_ref k = ''abcdefghijklmnopqrstuv''"
proof -
  obtain k where k: "by_ref ''awin'' (Some ''abcdefghijklmnopqrstuv'') (\<lambda>ref net. get_click_by_ref ref net sample_rows) = Inr k"
    using sample_found by (auto split: sum.splits)
  from reference_matches_its_own_network_only [OF k] k show ?thesis by auto
qed

section \<open>How long a refusal lasts\<close>

abbreviation recent :: "(click_row \<Rightarrow> bool) \<Rightarrow> instant \<Rightarrow> click_row list \<Rightarrow> click_row list" where
  "recent who since rows \<equiv> filter (\<lambda>r. who r \<and> since < c_at r) rows"

definition half_refuses :: "string \<Rightarrow> int \<Rightarrow> (click_row \<Rightarrow> bool) \<Rightarrow> instant \<Rightarrow> click_row list \<Rightarrow> click_error option" where
  "half_refuses name allowed who at rows =
     (case count_recent who (at - click_window) rows of (n, oldest) \<Rightarrow> refusal name allowed n oldest at)"

lemma half_refuses_iff: "half_refuses name allowed who at rows = None \<longleftrightarrow> int (length (recent who (at - click_window) rows)) < allowed"
  by (auto simp: half_refuses_def count_recent_def refusal_def Let_def)

lemma allow_halves:
  "allow rule member digest at rows =
     (case (if 0 < per_member rule then half_refuses ''member'' (per_member rule) (\<lambda>r. c_account r = member) at rows else None) of
        Some e \<Rightarrow> Some e
      | None \<Rightarrow>
          if 0 < per_context rule \<and> digest \<noteq> []
          then half_refuses ''context'' (per_context rule) (\<lambda>r. c_digest r = Some digest) at rows else None)"
  by (simp only: allow_def half_refuses_def Let_def)

lemma half_waits:
  assumes "0 < allowed" and "half_refuses name allowed who at rows = Some e"
  obtains t where "t = Min (set (map c_at (recent who (at - click_window) rows)))"
    "t \<in> set (map c_at (recent who (at - click_window) rows))"
    "e = TooManyClicks name (nat allowed) (max one_second (t + click_window - at))"
    "allowed \<le> int (length (recent who (at - click_window) rows))"
proof -
  let ?rs = "recent who (at - click_window) rows"
  have n: "allowed \<le> int (length ?rs)"
    using assms(2) half_refuses_iff [of name allowed who at rows] by (metis leI option.distinct(1))
  with assms(1) have ne: "?rs \<noteq> []" by auto
  then have "set (map c_at ?rs) \<noteq> {}" by (simp only: set_empty map_is_Nil_conv not_False_eq_True)
  then have "Min (set (map c_at ?rs)) \<in> set (map c_at ?rs)" by (intro Min_in finite_set)
  moreover have "e = TooManyClicks name (nat allowed) (max one_second (Min (set (map c_at ?rs)) + click_window - at))"
    using assms(2) n ne by (auto simp: half_refuses_def count_recent_def refusal_def Let_def max_def)
  ultimately show thesis using that n by blast
qed

lemma half_still_refuses:
  assumes "half_refuses name allowed who at rows = Some e" and "0 < allowed"
    and "\<And>r. r \<in> set (recent who (at - click_window) rows) \<Longrightarrow> later - click_window < c_at r"
  shows "half_refuses name' allowed who later rows \<noteq> None"
proof -
  have "set (recent who (at - click_window) rows) \<subseteq> set (recent who (later - click_window) rows)"
    using assms(3) by auto
  have "length (recent who (at - click_window) rows) \<le> length (recent who (later - click_window) rows)"
    using assms(3) by (induction rows) (auto split: if_splits)
  moreover have "allowed \<le> int (length (recent who (at - click_window) rows))"
    using assms(1) half_refuses_iff [of name allowed who at rows] by (metis leI option.distinct(1))
  ultimately show ?thesis by (simp add: half_refuses_iff)
qed


definition busy_click :: "instant \<Rightarrow> click_row" where
  "busy_click at =
     \<lparr>c_id = 1, c_account = 7, c_offer = 3, c_route = 4, c_network = ''awin'', c_ref = [], c_rate = [],
      c_share = 5000, c_digest = None, c_at = at\<rparr>"

lemma busy_refused:
  "allow \<lparr>per_member = 2, per_context = 0\<rparr> 7 [] (60 * one_second) [busy_click (10 * one_second), busy_click (20 * one_second)] =
     Some (TooManyClicks ''member'' 2 (3550 * one_second))"
  by code_simp


section \<open>The order of a click-out\<close>

text \<open>(C40) A redirect is issued only for an enrolled member, inside the click rule and on an offer live at the one
  instant it was asked for, and by then exactly one click is recorded: the member's, under the
  reference and the network the redirect was built with, keeping the band and the share of that
  offer. When any step fails, no click is recorded.\<close>

theorem redirect_follows_its_click:
  "case issue jsonb fresh P limiter at now commits rq w of
     (Inl e, w') \<Rightarrow> click_rows (fst w') = click_rows (fst w)
   | (Inr i, w') \<Rightarrow>
       \<exists>o1 ref row snapshot.
         (case limiter of None \<Rightarrow> True | Some rule \<Rightarrow> allow rule (rq_member rq) (rq_context rq) at (click_rows (fst w)) = None) \<and>
         participating P (rq_member rq) = Inr True \<and> live_offer P (rq_offer rq) at = Inr o1 \<and>
         fst (mint (snd w)) = Inr ref \<and>
         build_link P \<lparr>dt_offer = of_id o1, dt_network = of_network o1, dt_param = of_click_ref_param o1,
           dt_template = of_template o1\<rparr> ref = Some (is_url i) \<and>
         click_rows (fst w') = click_rows (fst w) @ [row] \<and>
         c_ref row = ref \<and> c_account row = rq_member rq \<and> c_offer row = of_id o1 \<and> c_network row = of_network o1 \<and>
         marshal_band (of_rate o1) = Inr snapshot \<and> c_rate row = jsonb snapshot \<and> c_share row = of_member_share o1 \<and>
         cl_id (is_click i) = c_id row \<and> is_ends i = of_valid_to o1"
proof -
  have failed: "click_rows s' = click_rows s" if "record_announced jsonb fresh now commits c s = (Inl e, s')" for c s s' e
    using that by (auto simp: record_announced_def split: prod.splits sum.splits if_splits)
  have kept: "\<exists>row snapshot. click_rows s' = click_rows s @ [row] \<and> marshal_band (rate (nc_promised c)) = Inr snapshot \<and>
      c_ref row = nc_ref c \<and> c_account row = nc_account c \<and> c_offer row = nc_offer c \<and> c_network row = nc_network c \<and>
      c_rate row = jsonb snapshot \<and> c_share row = member_share (nc_promised c) \<and> cl_id k = c_id row"
    if ra: "record_announced jsonb fresh now commits c s = (Inr k, s')" for c s s' k
  proof -
    obtain s1 where r: "record_click jsonb fresh now c s = (Inr k, s1)" and s': "click_rows s' = click_rows s1"
    proof -
      obtain y s2 where y: "and_then (record_click jsonb fresh now c) (\<lambda>k. and_then (announce_click k) (\<lambda>_. give k)) s = (y, s2)"
        by (cases "and_then (record_click jsonb fresh now c) (\<lambda>k. and_then (announce_click k) (\<lambda>_. give k)) s")
      with ra have "y = Inr k" "s2 = s'" by (auto simp: record_announced_def split: sum.splits if_splits)
      with y obtain s1 u where "record_click jsonb fresh now c s = (Inr k, s1)" "announce_click k s1 = (u, s')" "isl u = False"
        by (auto simp: effects)
      then have "record_click jsonb fresh now c s = (Inr k, s1)" "click_rows s' = click_rows s1"
        by (auto simp: announce_click_def split: if_splits)
      then show thesis by (rule that)
    qed
    obtain snapshot row where m: "marshal_band (rate (nc_promised c)) = Inr snapshot"
        "insert_click fresh now (row_of_click jsonb c snapshot) s = (Inr row, s1)" "click_from row = Inr k"
      by (rule record_click_Inr [OF r])
    note i = insert_click_Inr [OF m(2)]
    have "cl_id k = c_id row" using m(3) by (auto simp: click_from_def split: sum.splits if_splits)
    then show ?thesis using m(1) s' i(5) by (intro exI [of _ row] exI [of _ snapshot]) (simp add: i(1) row_of_click_def)
  qed
  let ?target = "\<lambda>o1. \<lparr>dt_offer = of_id o1, dt_network = of_network o1, dt_param = of_click_ref_param o1,
      dt_template = of_template o1\<rparr>"
  let ?step = "\<lambda>o1 ref. case build_link P (?target o1) ref of None \<Rightarrow> refuse ErrNoRedirect
      | Some url \<Rightarrow> record_issued jsonb fresh now commits rq o1 ref url"
  have issued: "click_rows (fst v) = click_rows (fst u)" if "record_issued jsonb fresh now commits rq o1 ref url u = (Inl e, v)" for u v o1 ref url e
    using that failed by (auto simp: record_issued_def split: prod.splits sum.splits)
  have step: "click_rows (fst v) = click_rows (fst u)" if "?step o1 ref u = (Inl e, v)" for u v o1 ref e
    using that issued by (cases "build_link P (?target o1) ref") (auto simp: effects)
  have minted: "mint_here u = (r, v) \<Longrightarrow> fst (mint (snd u)) = r \<and> fst v = fst u" for u r v
    by (auto simp: mint_here_def split: prod.splits)
  obtain r u where m: "mint_here w = (r, u)" by (cases "mint_here w")
  note m' = minted [OF m]
  note eqs = issue_def and_then_def from_option_def wrap_error_def from_sum_def refuse_def
  show ?thesis
  proof (cases "case limiter of None \<Rightarrow> None | Some rule \<Rightarrow> allow rule (rq_member rq) (rq_context rq) at (click_rows (fst w))")
    case (Some e)
    then show ?thesis by (simp add: eqs)
  next
    case lim: None
    show ?thesis
    proof (cases "participating P (rq_member rq)")
      case (Inl e)
      with lim show ?thesis by (simp add: eqs)
    next
      case part: (Inr enrolled)
      show ?thesis
      proof (cases "\<not> enrolled \<or> isl (live_offer P (rq_offer rq) at) \<or> isl r")
        case True
        with lim part m m' show ?thesis by (auto simp: eqs split: sum.splits)
      next
        case False
        then obtain o1 ref where ok: "enrolled" "live_offer P (rq_offer rq) at = Inr o1" "r = Inr ref"
          by (cases "live_offer P (rq_offer rq) at"; cases r) auto
        with lim part m have i: "issue jsonb fresh P limiter at now commits rq w = ?step o1 ref u"
          by (simp add: eqs)
        show ?thesis
        proof (cases "?step o1 ref u" rule: prod.exhaust)
          case Pair: (Pair x v)
          show ?thesis
          proof (cases x)
            case (Inl e)
            with i Pair step m' show ?thesis by simp
          next
            case (Inr a)
            with Pair obtain url k s' where b: "build_link P (?target o1) ref = Some url"
                "record_announced jsonb fresh now commits
                  \<lparr>nc_ref = ref, nc_account = rq_member rq, nc_offer = of_id o1, nc_route = of_route o1,
                   nc_network = of_network o1,
                   nc_promised = \<lparr>rate = of_rate o1, member_share = of_member_share o1\<rparr>,
                   nc_digest = rq_context rq\<rparr> (fst u) = (Inr k, s')"
                "v = (s', snd u)" "a = \<lparr>is_click = k, is_url = url, is_ends = of_valid_to o1\<rparr>"
              by (auto simp: refuse_def record_issued_def split: option.splits prod.splits sum.splits)
            from kept [OF b(2)] obtain row snapshot where "click_rows s' = click_rows (fst u) @ [row]"
                "marshal_band (of_rate o1) = Inr snapshot" "c_ref row = ref" "c_account row = rq_member rq" "c_offer row = of_id o1"
                "c_network row = of_network o1" "c_rate row = jsonb snapshot" "c_share row = of_member_share o1" "cl_id k = c_id row"
              by auto
            moreover have "case limiter of None \<Rightarrow> True
                | Some rule \<Rightarrow> allow rule (rq_member rq) (rq_context rq) at (click_rows (fst w)) = None"
              using lim by (simp split: option.splits)
            ultimately show ?thesis
              unfolding i Pair Inr using b part ok m' by simp
          qed
        qed
      qed
    qed
  qed
qed

end
