(* ===== verification/EarningsState.thy ===== *)
theory EarningsState
  imports WalletPort Clickout
begin

text \<open>
  The pure part of \<open>internal/cashback/earnings\<close>: the entry state machine of \<open>state.go\<close>,
  the accounts a transition moves between of \<open>postings.go\<close>, and the division of a
  commission of \<open>share.go\<close>. A state is the schema's own word, as in the code, so a word
  outside the six is a value the functions have an answer for; the empty word is the
  state of an entry that does not exist yet.
\<close>

section \<open>States\<close>

type_synonym entry_state = string

abbreviation "StHeld \<equiv> ''held''"
abbreviation "StPending \<equiv> ''pending''"
abbreviation "StConfirmed \<equiv> ''confirmed''"
abbreviation "StReserved \<equiv> ''reserved''"
abbreviation "StPaid \<equiv> ''paid''"
abbreviation "StReversed \<equiv> ''reversed''"

definition transitions_from :: "entry_state \<rightharpoonup> entry_state list" where
  "transitions_from =
     [StHeld \<mapsto> [StPending],
      StPending \<mapsto> [StHeld, StConfirmed],
      StConfirmed \<mapsto> [StReserved],
      StReserved \<mapsto> [StConfirmed, StPaid],
      StPaid \<mapsto> [],
      StReversed \<mapsto> []]"

definition state_valid :: "entry_state \<Rightarrow> bool" where
  "state_valid s = (transitions_from s \<noteq> None)"

definition can_open :: "entry_state \<Rightarrow> bool" where
  "can_open s = (s \<in> set [StHeld, StPending, StReversed])"

definition can_follow :: "entry_state \<Rightarrow> entry_state \<Rightarrow> bool" where
  "can_follow from to =
     list_ex (\<lambda>next. next = to) (case transitions_from from of None \<Rightarrow> [] | Some l \<Rightarrow> l)"

datatype transition_fault = UnknownFrom | UnknownTo | SettledFrom | NotAnArrow

text \<open>Which of the four sentences \<open>ErrIllegalTransition\<close> says of a refused move.\<close>

definition illegal_reason :: "entry_state \<Rightarrow> entry_state \<Rightarrow> transition_fault" where
  "illegal_reason from to =
     (if \<not> state_valid from then UnknownFrom
      else if \<not> state_valid to then UnknownTo
      else if transitions_from from = Some [] then SettledFrom
      else NotAnArrow)"

section \<open>Errors\<close>

datatype earn_error =
    ErrIllegalTransition entry_state entry_state
  | ErrCannotOpenAs entry_state | ErrHoldsNothing entry_state | ErrNotThisPackagesToPost
  | ErrShareOutOfRange | ErrDividing money_error | ErrRoundingCost money_error
  | ErrEntryMoved | ErrNotPosted wallet_error | ErrNotRecorded db_error
  | ErrNotAnnounced | ErrMalformedRow money_error
  | ErrNoEvidence | ErrNoMember | ErrNoBrand | ErrNotACredit
  | ErrAlreadyCredited | ErrClickAlreadyCredited | ErrCurrencyNotTheMembers | ErrNotOpened db_error
  | ErrNoReversingReport | ErrNotReversible | ErrNotReversed db_error
  | ErrNotApproved | ErrReconciliationUnknown db_error | ErrNotReconciled
  | ErrNothingToReserve | ErrNoReservationCause | ErrManyMembers | ErrMixedBalances
  | ErrReservationMoney money_error | ShortConfirmedBalance amount amount amount
  | ErrReading db_error | ErrNotCommitted db_error
  | ErrNoCandidate | ErrHoldUnread string db_error | ErrBadHoldRules string
  | ErrNoReference | ErrNoNetwork | ErrResolving click_error | ErrNotQueued db_error
  | ErrReportedMoney money_error | ErrBrandUnread db_error
  | ErrInvalidReview | ErrNoSuchEntry | ErrNotHeld entry_state | ErrAlreadyRejected | ErrNotReviewed db_error
  | ErrNoHeldTransition | ErrReviewPage | ErrReviewRow money_error | ErrNoReceivable

section \<open>Which accounts a transition moves between\<close>

definition stage_holding :: "entry_state \<rightharpoonup> stage" where
  "stage_holding =
     [StHeld \<mapsto> StageHeld, StPending \<mapsto> StagePending,
      StConfirmed \<mapsto> StageConfirmed, StReserved \<mapsto> StageReserved]"

record movement =
  mv_from :: account_ref
  mv_to :: account_ref

definition postings_for ::
  "uuid \<Rightarrow> entry_state \<Rightarrow> entry_state \<Rightarrow> string \<Rightarrow> earn_error + movement" where
  "postings_for member from to receivable =
     (if from = [] then
        (case stage_holding to of
           None \<Rightarrow> Inl (ErrCannotOpenAs to)
         | Some target \<Rightarrow>
             Inr \<lparr>mv_from = house_account receivable, mv_to = member_account member target\<rparr>)
      else if to = StReversed then
        (case stage_holding from of
           None \<Rightarrow> Inl (ErrHoldsNothing from)
         | Some source \<Rightarrow>
             Inr \<lparr>mv_from = member_account member source, mv_to = house_account receivable\<rparr>)
      else if to = StPaid then Inl ErrNotThisPackagesToPost
      else
        (case (stage_holding from, stage_holding to) of
           (Some source, Some target) \<Rightarrow>
             Inr \<lparr>mv_from = member_account member source, mv_to = member_account member target\<rparr>
         | _ \<Rightarrow> Inl (ErrIllegalTransition from to)))"

section \<open>Dividing a commission\<close>

record share =
  sh_member :: amount
  sh_remainder :: amount
  sh_rounding :: amount

definition member_favour :: rounding where
  "member_favour = RoundCeil"

definition share_of :: "amount \<Rightarrow> promise \<Rightarrow> earn_error + share" where
  "share_of commission promised =
     (if \<not> rate_valid (member_share promised) then Inl ErrShareOutOfRange
      else
        (case split_amount commission (member_share promised) member_favour of
           Inl e \<Rightarrow> Inl (ErrDividing e)
         | Inr (member, remainder) \<Rightarrow>
             (case split_amount commission (member_share promised) RoundTowardZero of
                Inl e \<Rightarrow> Inl (ErrDividing e)
              | Inr (exact, _) \<Rightarrow>
                  (case sub_amount member exact of
                     Inl e \<Rightarrow> Inl (ErrRoundingCost e)
                   | Inr r \<Rightarrow>
                       Inr \<lparr>sh_member = member, sh_remainder = remainder, sh_rounding = r\<rparr>))))"

section \<open>The shape of the state machine\<close>

lemma transitions_from_simps [simp]:
  "transitions_from StHeld = Some [StPending]"
  "transitions_from StPending = Some [StHeld, StConfirmed]"
  "transitions_from StConfirmed = Some [StReserved]"
  "transitions_from StReserved = Some [StConfirmed, StPaid]"
  "transitions_from StPaid = Some []"
  "transitions_from StReversed = Some []"
  by (simp_all add: transitions_from_def)

lemma state_valid_iff:
  "state_valid s \<longleftrightarrow> s \<in> {StHeld, StPending, StConfirmed, StReserved, StPaid, StReversed}"
  by (simp add: state_valid_def transitions_from_def)

lemma can_follow_iff:
  "can_follow from to \<longleftrightarrow>
     (from, to) \<in> {(StHeld, StPending), (StPending, StHeld), (StPending, StConfirmed),
       (StConfirmed, StReserved), (StReserved, StConfirmed), (StReserved, StPaid)}"
  by (auto simp: can_follow_def transitions_from_def split: if_splits)

lemma can_follow_cases:
  assumes "can_follow from to"
  obtains "from = StHeld" "to = StPending" | "from = StPending" "to = StHeld"
  | "from = StPending" "to = StConfirmed" | "from = StConfirmed" "to = StReserved"
  | "from = StReserved" "to = StConfirmed" | "from = StReserved" "to = StPaid"
  using assms unfolding can_follow_iff insert_iff prod.inject empty_iff
  by (elim disjE conjE FalseE) (erule (1) that)+

lemma stage_holding_simps [simp]:
  "stage_holding StHeld = Some StageHeld" "stage_holding StPending = Some StagePending"
  "stage_holding StConfirmed = Some StageConfirmed" "stage_holding StReserved = Some StageReserved"
  "stage_holding StPaid = None" "stage_holding StReversed = None" "stage_holding [] = None"
  by (simp_all add: stage_holding_def)

lemma stage_holding_Some:
  "stage_holding s = Some g \<longleftrightarrow>
     (s, g) \<in> {(StHeld, StageHeld), (StPending, StagePending), (StConfirmed, StageConfirmed),
       (StReserved, StageReserved)}"
  by (auto simp: stage_holding_def split: if_splits)

lemma stage_holding_valid: "stage_holding s = Some g \<Longrightarrow> stage_valid g"
  by (auto simp: stage_holding_Some)

lemma stage_holding_inj: "stage_holding s = Some g \<Longrightarrow> stage_holding s' = Some g \<Longrightarrow> s = s'"
  by (auto simp: stage_holding_Some)

lemma settled_iff: "transitions_from s = Some [] \<longleftrightarrow> s \<in> {StPaid, StReversed}"
  by (simp add: transitions_from_def)

lemma illegal_reason_sound:
  "\<not> can_follow from to \<Longrightarrow> state_valid from \<Longrightarrow> state_valid to \<Longrightarrow>
     (illegal_reason from to = SettledFrom \<longleftrightarrow> from \<in> {StPaid, StReversed}) \<and>
     illegal_reason from to \<in> {SettledFrom, NotAnArrow}"
  by (simp add: illegal_reason_def settled_iff)

inductive lifecycle :: "entry_state list \<Rightarrow> bool" where
  born: "can_open s \<Longrightarrow> lifecycle [s]"
| moves: "lifecycle (s # past) \<Longrightarrow> can_follow s t \<Longrightarrow> lifecycle (t # s # past)"

inductive_cases lifecycleE: "lifecycle (s # past)"

lemma lifecycle_valid: "lifecycle path \<Longrightarrow> \<forall>s\<in>set path. state_valid s"
proof (induction rule: lifecycle.induct)
  case (born s)
  then show ?case by (auto simp: can_open_def state_valid_iff)
next
  case (moves s past t)
  from moves.hyps(2) have "state_valid t" by (elim can_follow_cases) (simp_all add: state_valid_iff)
  with moves.IH show ?case by simp
qed

lemma lifecycle_source:
  "lifecycle path \<Longrightarrow>
     (StConfirmed \<in> set path \<longrightarrow> StPending \<in> set path) \<and>
     (StReserved \<in> set path \<longrightarrow> StConfirmed \<in> set path) \<and>
     (StPaid \<in> set path \<longrightarrow> StReserved \<in> set path)"
proof (induction rule: lifecycle.induct)
  case (born s)
  then show ?case by (auto simp: can_open_def)
next
  case (moves s past t)
  from moves.hyps(2) moves.IH show ?case by (elim can_follow_cases) simp_all
qed

lemma lifecycle_ends:
  "lifecycle path \<Longrightarrow>
     (StPaid \<in> set path \<longrightarrow> hd path = StPaid) \<and> (StReversed \<in> set path \<longrightarrow> path = [StReversed])"
proof (induction rule: lifecycle.induct)
  case (born s)
  then show ?case by (auto simp: can_open_def)
next
  case (moves s past t)
  from moves.hyps(2) moves.IH show ?case by (elim can_follow_cases) simp_all
qed

text \<open>(C12) The life of an entry: whatever path it takes from the state it was opened in, only the six
  known states occur; money is paid only after it was reserved, reserved only after it was
  confirmed and confirmed only after it was pending; nothing follows paid; and a reversed entry
  was born reversed and never becomes anything else.\<close>

theorem lifecycle_order:
  assumes "lifecycle path"
  shows "(\<forall>s\<in>set path. state_valid s) \<and>
     (StPaid \<in> set path \<longrightarrow> hd path = StPaid \<and>
        {StReserved, StConfirmed, StPending} \<subseteq> set path) \<and>
     (StReversed \<in> set path \<longrightarrow> path = [StReversed])"
  using lifecycle_valid [OF assms] lifecycle_source [OF assms] lifecycle_ends [OF assms] by simp

theorem lifecycle_order_witness:
  "lifecycle [StPaid, StReserved, StConfirmed, StPending, StHeld] \<and>
   hd [StPaid, StReserved, StConfirmed, StPending, StHeld] = StPaid"
proof -
  have l: "lifecycle [StPaid, StReserved, StConfirmed, StPending, StHeld]"
    by (intro moves born) (simp_all add: can_open_def can_follow_iff)
  then show ?thesis using lifecycle_order [OF l] by simp
qed

section \<open>Where the money of a move comes from and goes\<close>

lemma postings_for_open:
  "stage_holding to = Some g \<Longrightarrow> postings_for m [] to receivable =
     Inr \<lparr>mv_from = house_account receivable, mv_to = member_account m g\<rparr>"
  by (simp add: postings_for_def)

lemma postings_for_reverse:
  "stage_holding from = Some g \<Longrightarrow> postings_for m from StReversed receivable =
     Inr \<lparr>mv_from = member_account m g, mv_to = house_account receivable\<rparr>"
  by (auto simp: postings_for_def)

lemma postings_for_follow:
  assumes "can_follow from to"
  shows "(to = StPaid \<and> postings_for m from to receivable = Inl ErrNotThisPackagesToPost) \<or>
     (\<exists>g h. g \<noteq> h \<and> stage_holding from = Some g \<and> stage_holding to = Some h \<and>
        postings_for m from to receivable =
          Inr \<lparr>mv_from = member_account m g, mv_to = member_account m h\<rparr>)"
  using assms by (elim can_follow_cases) (auto simp: postings_for_def)



section \<open>The member's share\<close>

lemma ceil_div_near: "0 < d \<Longrightarrow> ceil_div n d - n div d \<in> {0, 1}"
  by (auto simp: ceil_div_def zdiv_zminus1_eq_if)



end
