(* ===== verification/EarningsStore.thy ===== *)
theory EarningsStore
  imports EarningsState Effects
begin

text \<open>
  The tables \<open>internal/cashback/earnings\<close> writes and the statements of its \<open>queries/*.sql\<close>
  over them, with what the migrations make the database refuse: the checks, unique indexes,
  foreign keys and triggers of 0013 as amended by 0027, 0032, 0034 and 0036. A table is the list
  of its rows, oldest first. \<open>now\<close> is the transaction's \<open>now()\<close>; \<open>fresh\<close> is the generator behind
  \<open>gen_random_uuid()\<close>, of which nothing is assumed: an identifier it repeats is a primary key
  violation.
\<close>

section \<open>Rows\<close>

record entry_row =
  e_id :: uuid
  e_account :: uuid
  e_brand :: string
  e_report :: uuid
  e_click :: "uuid option"
  e_state :: entry_state
  e_minor :: i64
  e_currency :: currency
  e_hold_rule :: "string option"
  e_reversal_of :: "uuid option"
  e_created :: instant

record transition_row =
  t_id :: uuid
  t_entry :: uuid
  t_from :: "entry_state option"
  t_to :: entry_state
  t_ref :: transfer_ref
  t_reason :: "string option"
  t_actor :: "uuid option"
  t_at :: instant

record link_row =
  l_transition :: uuid
  l_entry :: uuid
  l_ref :: transfer_ref

record report_row =
  rp_id :: uuid
  rp_network :: string
  rp_external :: string
  rp_click_ref :: "string option"
  rp_status :: string
  rp_sale :: i64
  rp_commission :: i64
  rp_currency :: currency
  rp_transacted :: instant
  rp_retrieved :: instant
  rp_supersedes :: "uuid option"
  rp_reconciled :: bool

record queue_row =
  q_id :: uuid
  q_report :: uuid
  q_reason :: string
  q_detected :: instant

record destination_row =
  ds_id :: uuid
  ds_account :: uuid
  ds_kind :: string
  ds_ref :: string
  ds_verified :: "instant option"
  ds_method :: "string option"
  ds_created :: instant

record withdrawal_row =
  wr_id :: uuid
  wr_account :: uuid
  wr_destination :: uuid
  wr_minor :: i64
  wr_currency :: currency
  wr_state :: string
  wr_requested :: instant
  wr_ref :: transfer_ref
  wr_decided_by :: "uuid option"
  wr_decided_at :: "instant option"
  wr_reason :: "string option"

record payout_row =
  po_id :: uuid
  po_brand :: string
  po_request :: uuid
  po_approver :: uuid
  po_minor :: i64
  po_currency :: currency
  po_rail :: string
  po_rail_ref :: "string option"
  po_state :: string
  po_submitted :: instant
  po_settled :: "instant option"

datatype event =
    EntryCreated uuid uuid entry_state amount instant
  | EntryStateChanged uuid entry_state entry_state transfer_ref instant
  | HoldReleased uuid uuid string uuid string transfer_ref instant
  | HoldRejected uuid uuid uuid string amount uuid string instant
  | TransactionUnattributed uuid instant
  | WithdrawalRequested uuid uuid amount instant
  | WithdrawalApproved uuid uuid amount uuid instant
  | WithdrawalRejected uuid uuid amount uuid string instant
  | PayoutFailed uuid uuid string string instant
  | PayoutSettled uuid uuid string "uuid option" instant

record earn_db =
  entries :: "entry_row list"
  transitions :: "transition_row list"
  links :: "link_row list"
  outbox :: "event list"
  queue :: "queue_row list"
  reports :: "report_row list"
  clicks :: "click_row list"
  participation :: "(uuid \<times> currency) list"
  members :: "(uuid \<times> instant) list"
  brands :: "(uuid \<times> string) list"
  moved :: "(uuid \<times> entry_state \<times> entry_state) list"
  destinations :: "destination_row list"
  withdrawals :: "withdrawal_row list"
  payouts :: "payout_row list"
  operators :: "uuid list"
  minted :: nat

text \<open>\<open>moved\<close> is what the deferred trigger still has to check at commit; \<open>brands\<close> is the brand of an
  offer, through its merchant; \<open>operators\<close> are the accounts with the operator role.\<close>

section \<open>Checks\<close>

definition sql_blank :: "string \<Rightarrow> bool" where
  "sql_blank s = list_all (\<lambda>c. c = CHR '' '') s"

definition find_entry :: "earn_db \<Rightarrow> uuid \<Rightarrow> entry_row option" where
  "find_entry d i = find (\<lambda>r. e_id r = i) (entries d)"

definition find_report :: "earn_db \<Rightarrow> uuid \<Rightarrow> report_row option" where
  "find_report d i = find (\<lambda>r. rp_id r = i) (reports d)"

definition find_click :: "earn_db \<Rightarrow> uuid \<Rightarrow> click_row option" where
  "find_click d i = find (\<lambda>r. c_id r = i) (clicks d)"

definition evidence_guard :: "earn_db \<Rightarrow> entry_row \<Rightarrow> db_error option" where
  "evidence_guard d r =
     (case find_report d (e_report r) of
        None \<Rightarrow> None
      | Some nt \<Rightarrow>
          (case (rp_click_ref nt, e_click r) of
             (Some _, None) \<Rightarrow> Some (TriggerRefused ''entry_evidence_guard'')
           | (Some ref, Some c) \<Rightarrow>
               (case find_click d c of
                  None \<Rightarrow> None
                | Some cl \<Rightarrow> if c_ref cl \<noteq> ref then Some (TriggerRefused ''entry_evidence_guard'') else None)
           | (None, _) \<Rightarrow> None))"

definition entry_checks :: "entry_row \<Rightarrow> db_error option" where
  "entry_checks r =
     (if \<not> 0 <s e_minor r then Some (CheckViolation ''entry_amount_positive'')
      else if sql_blank (e_brand r) then Some (CheckViolation ''entry_brand_id_not_blank'')
      else if \<not> currency_valid (e_currency r) then Some (CheckViolation ''entry_currency_iso4217_format'')
      else if (e_state r = StHeld) \<noteq> (case e_hold_rule r of None \<Rightarrow> False | Some h \<Rightarrow> \<not> sql_blank h)
        then Some (CheckViolation ''entry_hold_rule_iff_held'')
      else if e_reversal_of r = Some (e_id r) then Some (CheckViolation ''entry_not_own_reversal'')
      else if e_reversal_of r \<noteq> None \<and> e_state r \<noteq> StReversed
        then Some (CheckViolation ''entry_reversal_is_reversed'')
      else if \<not> state_valid (e_state r) then Some (CheckViolation ''entry_state_known'')
      else None)"

definition entry_unique :: "earn_db \<Rightarrow> entry_row \<Rightarrow> db_error option" where
  "entry_unique d r =
     (if list_ex (\<lambda>x. e_id x = e_id r) (entries d) then Some (UniqueViolation ''entry_pkey'')
      else if e_reversal_of r \<noteq> None \<and> list_ex (\<lambda>x. e_reversal_of x = e_reversal_of r) (entries d)
        then Some (UniqueViolation ''entry_reversed_at_most_once'')
      else if e_reversal_of r = None \<and>
          list_ex (\<lambda>x. e_reversal_of x = None \<and> e_report x = e_report r) (entries d)
        then Some (UniqueViolation ''entry_one_per_report'')
      else if e_reversal_of r = None \<and> e_click r \<noteq> None \<and>
          list_ex (\<lambda>x. e_reversal_of x = None \<and> e_click x = e_click r) (entries d)
        then Some (UniqueViolation ''entry_click_id_idx'')
      else None)"

definition entry_foreign :: "earn_db \<Rightarrow> entry_row \<Rightarrow> db_error option" where
  "entry_foreign d r =
     (if e_account r \<notin> fst ` set (members d) then Some (ForeignKeyViolation ''entry_account_id_fkey'')
      else if find_report d (e_report r) = None
        then Some (ForeignKeyViolation ''entry_network_transaction_id_fkey'')
      else if (case e_click r of None \<Rightarrow> False | Some c \<Rightarrow> find_click d c = None)
        then Some (ForeignKeyViolation ''entry_click_id_fkey'')
      else if (case e_reversal_of r of None \<Rightarrow> False | Some orig \<Rightarrow> find_entry d orig = None)
        then Some (ForeignKeyViolation ''entry_reversal_of_id_fkey'')
      else if (case e_click r of None \<Rightarrow> False
               | Some c \<Rightarrow> \<not> list_ex (\<lambda>x. c_id x = c \<and> c_account x = e_account r) (clicks d))
        then Some (ForeignKeyViolation ''entry_click_belongs_to_member'')
      else if (e_account r, e_currency r) \<notin> set (participation d)
        then Some (ForeignKeyViolation ''entry_currency_is_the_members'')
      else None)"

section \<open>Statements\<close>

definition create_entry ::
  "(nat \<Rightarrow> uuid) \<Rightarrow> instant \<Rightarrow> entry_row \<Rightarrow> earn_db \<Rightarrow> (db_error + entry_row) \<times> earn_db" where
  "create_entry fresh now arg d =
     (let r = arg\<lparr>e_id := fresh (minted d), e_created := now\<rparr>;
          refusals = List.map_filter id
            [evidence_guard d r, entry_checks r, entry_unique d r, entry_foreign d r]
      in case refusals of
           e # _ \<Rightarrow> (Inl e, d)
         | [] \<Rightarrow> (Inr r, d\<lparr>entries := entries d @ [r], minted := Suc (minted d)\<rparr>))"

definition update_entry :: "uuid \<Rightarrow> (entry_row \<Rightarrow> entry_row) \<Rightarrow> entry_row list \<Rightarrow> entry_row list" where
  "update_entry i f rows = map (\<lambda>r. if e_id r = i then f r else r) rows"

definition move_entry ::
  "uuid \<Rightarrow> entry_state \<Rightarrow> entry_state \<Rightarrow> string option \<Rightarrow> earn_db \<Rightarrow> (db_error + entry_row) \<times> earn_db" where
  "move_entry i from to rule d =
     (case find_entry d i of
        None \<Rightarrow> (Inl NoRows, d)
      | Some r \<Rightarrow>
          if e_state r \<noteq> from then (Inl NoRows, d)
          else
            (let r' = r\<lparr>e_state := to, e_hold_rule := rule\<rparr>
             in if from \<in> {StPaid, StReversed} \<and> to \<noteq> from then (Inl (TriggerRefused ''entry_guard''), d)
                else case entry_checks r' of
                    Some e \<Rightarrow> (Inl e, d)
                  | None \<Rightarrow>
                      (Inr r',
                       d\<lparr>entries := update_entry i (\<lambda>_. r') (entries d),
                         moved := (if from = to then moved d else (i, from, to) # moved d)\<rparr>)))"

definition transition_checks :: "earn_db \<Rightarrow> transition_row \<Rightarrow> db_error option" where
  "transition_checks d t =
     (if (case t_from t of None \<Rightarrow> False | Some s \<Rightarrow> \<not> state_valid s)
        then Some (CheckViolation ''entry_transition_from_state_known'')
      else if (case t_reason t of None \<Rightarrow> False | Some r \<Rightarrow> sql_blank r)
        then Some (CheckViolation ''entry_transition_reason_not_blank'')
      else if t_from t = Some (t_to t) then Some (CheckViolation ''entry_transition_states_differ'')
      else if \<not> state_valid (t_to t) then Some (CheckViolation ''entry_transition_to_state_known'')
      else if sql_blank (t_ref t) then Some (CheckViolation ''entry_transition_transfer_ref_not_blank'')
      else if list_ex (\<lambda>x. t_id x = t_id t) (transitions d)
        then Some (UniqueViolation ''entry_transition_pkey'')
      else if find_entry d (t_entry t) = None
        then Some (ForeignKeyViolation ''entry_transition_entry_id_fkey'')
      else if (case t_actor t of None \<Rightarrow> False | Some a \<Rightarrow> a \<notin> fst ` set (members d))
        then Some (ForeignKeyViolation ''entry_transition_actor_id_fkey'')
      else None)"

definition record_transition ::
  "(nat \<Rightarrow> uuid) \<Rightarrow> instant \<Rightarrow> transition_row \<Rightarrow> earn_db \<Rightarrow> (db_error + transition_row) \<times> earn_db" where
  "record_transition fresh now arg d =
     (let t = arg\<lparr>t_id := fresh (minted d), t_at := now\<rparr>
      in case transition_checks d t of
           Some e \<Rightarrow> (Inl e, d)
         | None \<Rightarrow> (Inr t, d\<lparr>transitions := transitions d @ [t], minted := Suc (minted d)\<rparr>))"

definition link_transfer :: "link_row \<Rightarrow> earn_db \<Rightarrow> (db_error + link_row) \<times> earn_db" where
  "link_transfer k d =
     (if sql_blank (l_ref k) then (Inl (CheckViolation ''ledger_link_transfer_ref_not_blank''), d)
      else if list_ex (\<lambda>x. l_transition x = l_transition k) (links d)
        then (Inl (UniqueViolation ''ledger_link_pkey''), d)
      else if list_ex (\<lambda>x. l_ref x = l_ref k \<and> l_entry x = l_entry k) (links d)
        then (Inl (UniqueViolation ''ledger_link_transfer_ref_per_entry_unique''), d)
      else if \<not> list_ex (\<lambda>t. t_id t = l_transition k \<and> t_entry t = l_entry k \<and> t_ref t = l_ref k)
          (transitions d)
        then (Inl (ForeignKeyViolation ''ledger_link_matches_transition''), d)
      else (Inr k, d\<lparr>links := links d @ [k]\<rparr>))"

definition event_type :: "event \<Rightarrow> string" where
  "event_type ev =
     (case ev of
        EntryCreated _ _ _ _ _ \<Rightarrow> ''cashback.entry.created''
      | EntryStateChanged _ _ _ _ _ \<Rightarrow> ''cashback.entry.state_changed''
      | HoldReleased _ _ _ _ _ _ _ \<Rightarrow> ''cashback.hold.released''
      | HoldRejected _ _ _ _ _ _ _ _ \<Rightarrow> ''cashback.hold.rejected''
      | TransactionUnattributed _ _ \<Rightarrow> ''cashback.transaction.unattributed''
      | WithdrawalRequested _ _ _ _ \<Rightarrow> ''cashback.withdrawal.requested''
      | WithdrawalApproved _ _ _ _ _ \<Rightarrow> ''cashback.withdrawal.approved''
      | WithdrawalRejected _ _ _ _ _ _ \<Rightarrow> ''cashback.withdrawal.rejected''
      | PayoutFailed _ _ _ _ _ \<Rightarrow> ''cashback.payout.failed''
      | PayoutSettled _ _ _ _ _ \<Rightarrow> ''cashback.payout.settled'')"

definition event_key :: "(uuid \<Rightarrow> string) \<Rightarrow> event \<Rightarrow> string" where
  "event_key ustr ev = event_type ev @ '':'' @
     (case ev of
        EntryCreated e _ _ _ _ \<Rightarrow> ustr e
      | EntryStateChanged e _ _ ref _ \<Rightarrow> ref @ '':'' @ ustr e
      | HoldReleased e _ _ _ _ ref _ \<Rightarrow> ustr e @ '':'' @ ref
      | HoldRejected e _ _ _ _ _ _ _ \<Rightarrow> ustr e
      | TransactionUnattributed r _ \<Rightarrow> ustr r
      | WithdrawalRequested r _ _ _ \<Rightarrow> ustr r
      | WithdrawalApproved r _ _ _ _ \<Rightarrow> ustr r
      | WithdrawalRejected r _ _ _ _ _ \<Rightarrow> ustr r
      | PayoutFailed p _ _ _ _ \<Rightarrow> ustr p
      | PayoutSettled p _ _ _ _ \<Rightarrow> ustr p)"

definition append_event :: "(uuid \<Rightarrow> string) \<Rightarrow> event \<Rightarrow> earn_db \<Rightarrow> (db_error + unit) \<times> earn_db" where
  "append_event ustr ev d =
     (if list_ex (\<lambda>x. event_key ustr x = event_key ustr ev) (outbox d)
      then (Inl (UniqueViolation ''domain_event_producer_idempotency_key_unique''), d)
      else (Inr (), d\<lparr>outbox := outbox d @ [ev]\<rparr>))"

text \<open>The commit: the deferred trigger wants a transition for every hop a state made.\<close>

definition commit_tx :: "earn_db \<Rightarrow> (db_error + unit) \<times> earn_db" where
  "commit_tx d =
     (if list_all (\<lambda>(i, from, to). list_ex (\<lambda>t. t_entry t = i \<and> t_from t = Some from \<and> t_to t = to)
           (transitions d)) (moved d)
      then (Inr (), d\<lparr>moved := []\<rparr>)
      else (Inl (TriggerRefused ''entry_state_requires_transition''), d))"

section \<open>What a statement that goes through has done\<close>

lemma no_refusals:
  "List.map_filter id [a, b, c, e] = [] \<longleftrightarrow> a = None \<and> b = None \<and> c = None \<and> e = None"
  by (cases a; cases b; cases c; cases e) (simp_all add: List.map_filter_def)

lemma create_entry_Inr:
  assumes "create_entry fresh now arg d = (Inr r, d')"
  shows "r = arg\<lparr>e_id := fresh (minted d), e_created := now\<rparr>"
    and "d' = d\<lparr>entries := entries d @ [r], minted := Suc (minted d)\<rparr>"
    and "evidence_guard d r = None" and "entry_checks r = None"
    and "entry_unique d r = None" and "entry_foreign d r = None"
proof -
  let ?r = "arg\<lparr>e_id := fresh (minted d), e_created := now\<rparr>"
  have n: "List.map_filter id [evidence_guard d ?r, entry_checks ?r, entry_unique d ?r, entry_foreign d ?r] = []"
    and r: "r = ?r" "d' = d\<lparr>entries := entries d @ [r], minted := Suc (minted d)\<rparr>"
    using assms by (auto simp: create_entry_def Let_def split: list.splits)
  show "r = ?r" "d' = d\<lparr>entries := entries d @ [r], minted := Suc (minted d)\<rparr>" by (rule r)+
  show "evidence_guard d r = None" "entry_checks r = None" "entry_unique d r = None"
    "entry_foreign d r = None"
    using n unfolding no_refusals r(1) by blast+
qed

lemma create_entry_Inl: "create_entry fresh now arg d = (Inl e, d') \<Longrightarrow> d' = d"
  by (auto simp: create_entry_def Let_def split: list.splits)

lemma refuse_first: "(if P then Some e else x) = None \<longleftrightarrow> \<not> P \<and> x = None"
  by simp

lemma entry_checks_None:
  "entry_checks r = None \<longleftrightarrow>
     0 <s e_minor r \<and> \<not> sql_blank (e_brand r) \<and> currency_valid (e_currency r) \<and>
     (e_state r = StHeld \<longleftrightarrow> (\<exists>h. e_hold_rule r = Some h \<and> \<not> sql_blank h)) \<and>
     e_reversal_of r \<noteq> Some (e_id r) \<and> (e_reversal_of r \<noteq> None \<longrightarrow> e_state r = StReversed) \<and>
     state_valid (e_state r)"
proof -
  have hold: "(case h of None \<Rightarrow> False | Some x \<Rightarrow> \<not> sql_blank x) \<longleftrightarrow> (\<exists>x. h = Some x \<and> \<not> sql_blank x)" for h
    by (cases h) auto
  show ?thesis unfolding entry_checks_def refuse_first hold by blast
qed

lemma entry_unique_None:
  "entry_unique d r = None \<longleftrightarrow>
     e_id r \<notin> e_id ` set (entries d) \<and>
     (\<forall>i. e_reversal_of r = Some i \<longrightarrow> (\<forall>x\<in>set (entries d). e_reversal_of x \<noteq> Some i)) \<and>
     (e_reversal_of r = None \<longrightarrow>
        (\<forall>x\<in>set (entries d). e_reversal_of x = None \<longrightarrow> e_report x \<noteq> e_report r)) \<and>
     (e_reversal_of r = None \<longrightarrow> e_click r \<noteq> None \<longrightarrow>
        (\<forall>x\<in>set (entries d). e_reversal_of x = None \<longrightarrow> e_click x \<noteq> e_click r))"
  unfolding entry_unique_def list_ex_iff refuse_first by (auto simp: image_iff)

lemma find_entry_Some:
  "find_entry d i = Some r \<Longrightarrow> r \<in> set (entries d) \<and> e_id r = i"
  by (auto simp: find_entry_def find_Some_iff)

lemma entry_foreign_reversal:
  "entry_foreign d r = None \<Longrightarrow> e_reversal_of r = Some i \<Longrightarrow> i \<in> e_id ` set (entries d)"
  by (auto simp: entry_foreign_def split: if_splits) (metis find_entry_Some image_eqI option.exhaust)

lemma move_entry_Inr:
  assumes "move_entry i from to rule d = (Inr r', d')"
  obtains r where "find_entry d i = Some r" "e_state r = from"
    "r' = r\<lparr>e_state := to, e_hold_rule := rule\<rparr>" "entry_checks r' = None"
    "from \<in> {StPaid, StReversed} \<longrightarrow> to = from"
    "d' = d\<lparr>entries := update_entry i (\<lambda>_. r') (entries d),
       moved := (if from = to then moved d else (i, from, to) # moved d)\<rparr>"
  using assms by (auto simp: move_entry_def Let_def split: option.splits if_splits)

lemma move_entry_Inl: "move_entry i from to rule d = (Inl e, d') \<Longrightarrow> d' = d"
  by (auto simp: move_entry_def Let_def split: option.splits if_splits)

lemma record_transition_Inr:
  assumes "record_transition fresh now arg d = (Inr t, d')"
  shows "t = arg\<lparr>t_id := fresh (minted d), t_at := now\<rparr>" and "transition_checks d t = None"
    and "d' = d\<lparr>transitions := transitions d @ [t], minted := Suc (minted d)\<rparr>"
  using assms by (auto simp: record_transition_def Let_def split: option.splits)

lemma record_transition_Inl: "record_transition fresh now arg d = (Inl e, d') \<Longrightarrow> d' = d"
  by (auto simp: record_transition_def Let_def split: option.splits)

lemma link_transfer_Inr:
  assumes "link_transfer k d = (Inr k', d')"
  shows "k' = k" and "d' = d\<lparr>links := links d @ [k]\<rparr>"
    and "\<forall>x\<in>set (links d). \<not> (l_ref x = l_ref k \<and> l_entry x = l_entry k)"
    and "\<exists>t\<in>set (transitions d). t_id t = l_transition k \<and> t_entry t = l_entry k \<and> t_ref t = l_ref k"
  using assms by (auto simp: link_transfer_def list_ex_iff split: if_splits)

lemma link_transfer_Inl: "link_transfer k d = (Inl e, d') \<Longrightarrow> d' = d"
  by (auto simp: link_transfer_def split: if_splits)

lemma append_event_Inr:
  "append_event ustr ev d = (Inr x, d') \<Longrightarrow> d' = d\<lparr>outbox := outbox d @ [ev]\<rparr>"
  by (auto simp: append_event_def split: if_splits)

lemma append_event_Inl: "append_event ustr ev d = (Inl e, d') \<Longrightarrow> d' = d"
  by (auto simp: append_event_def split: if_splits)

lemma commit_tx_Inr: "commit_tx d = (Inr x, d') \<Longrightarrow> d' = d\<lparr>moved := []\<rparr>"
  by (auto simp: commit_tx_def split: if_splits)

lemmas statement_refused = create_entry_Inl move_entry_Inl record_transition_Inl link_transfer_Inl
  append_event_Inl

section \<open>Live credits and what they add up to\<close>

definition reversed_in :: "earn_db \<Rightarrow> uuid \<Rightarrow> bool" where
  "reversed_in d i = list_ex (\<lambda>r. e_reversal_of r = Some i) (entries d)"

text \<open>A live credit is an entry that reverses nothing and that nothing reverses.\<close>

definition live :: "earn_db \<Rightarrow> entry_row \<Rightarrow> bool" where
  "live d r = (e_reversal_of r = None \<and> \<not> reversed_in d (e_id r))"

definition stage_total :: "earn_db \<Rightarrow> uuid \<Rightarrow> entry_state \<Rightarrow> currency \<Rightarrow> int" where
  "stage_total d m s c =
     (\<Sum>r\<leftarrow>entries d. if live d r \<and> e_account r = m \<and> e_state r = s \<and> e_currency r = c
                      then sint (e_minor r) else 0)"

definition store_ok :: "earn_db \<Rightarrow> bool" where
  "store_ok d \<longleftrightarrow>
     distinct (map e_id (entries d)) \<and>
     (\<forall>r\<in>set (entries d). entry_checks r = None \<and>
        (\<forall>i. e_reversal_of r = Some i \<longrightarrow> i \<in> e_id ` set (entries d)))"

lemma find_entry_unique:
  assumes "distinct (map e_id (entries d))" and "r \<in> set (entries d)"
  shows "find_entry d (e_id r) = Some r"
proof -
  obtain x where x: "find_entry d (e_id r) = Some x"
    using assms(2) by (cases "find_entry d (e_id r)") (auto simp: find_entry_def find_None_iff)
  then have "x \<in> set (entries d)" "e_id x = e_id r" using find_entry_Some by auto
  with assms have "x = r" by (auto simp: distinct_map dest: inj_onD)
  with x show ?thesis by simp
qed

lemma sum_update_one:
  assumes "distinct (map f xs)" and "o1 \<in> set xs" and "f o1 = i"
  shows "(\<Sum>x\<leftarrow>map (\<lambda>x. if f x = i then y else x) xs. g x) = (\<Sum>x\<leftarrow>xs. g x) - g o1 + (g y :: int)"
  using assms
proof (induction xs)
  case Nil
  then show ?case by simp
next
  case (Cons a xs)
  show ?case
  proof (cases "f a = i")
    case True
    with Cons.prems have "a = o1" and off: "\<forall>x\<in>set xs. f x \<noteq> i" by (auto simp: image_iff)
    then have "map (\<lambda>x. if f x = i then y else x) xs = xs" by (intro map_idI) auto
    with True \<open>a = o1\<close> show ?thesis by simp
  next
    case False
    with Cons show ?thesis by auto
  qed
qed

lemma sum_drop_one:
  assumes "distinct (map f xs)" and "o1 \<in> set xs"
  shows "(\<Sum>x\<leftarrow>xs. if P x \<and> f x \<noteq> f o1 then v x else 0) =
     (\<Sum>x\<leftarrow>xs. if P x then v x else 0) - (if P o1 then v o1 else (0 :: int))"
  using assms
proof (induction xs)
  case Nil
  then show ?case by simp
next
  case (Cons a xs)
  show ?case
  proof (cases "a = o1")
    case True
    with Cons.prems have "\<forall>x\<in>set xs. f x \<noteq> f o1" by (auto simp: image_iff)
    then have "(\<Sum>x\<leftarrow>xs. if P x \<and> f x \<noteq> f o1 then v x else 0) = (\<Sum>x\<leftarrow>xs. if P x then v x else 0)"
      by (intro arg_cong [where f = sum_list] map_cong) auto
    with True show ?thesis by simp
  next
    case False
    with Cons have "f a \<noteq> f o1" by auto
    with False Cons show ?thesis by auto
  qed
qed

lemma stage_total_cong:
  "entries d' = entries d \<Longrightarrow> stage_total d' m s c = stage_total d m s c"
  by (simp add: stage_total_def live_def reversed_in_def)

lemma stage_total_credit:
  assumes "store_ok d" and "create_entry fresh now arg d = (Inr r, d')" and "e_reversal_of arg = None"
  shows "stage_total d' m s c = stage_total d m s c +
     (if e_account r = m \<and> e_state r = s \<and> e_currency r = c then sint (e_minor r) else 0)"
proof -
  note cr = create_entry_Inr [OF assms(2)]
  have rev: "e_reversal_of r = None" using cr(1) assms(3) by simp
  have new: "e_id r \<notin> e_id ` set (entries d)" using cr(5) by (simp add: entry_unique_None)
  have same: "reversed_in d' i = reversed_in d i" for i
    by (simp add: reversed_in_def cr(2) rev)
  have "\<not> reversed_in d (e_id r)"
    using assms(1) new by (auto simp: store_ok_def reversed_in_def list_ex_iff)
  then have "live d' r" by (simp add: live_def rev same)
  moreover have "live d' x = live d x" for x by (simp add: live_def same)
  ultimately show ?thesis by (simp add: stage_total_def cr(2))
qed

lemma stage_total_reversal:
  assumes "store_ok d" and "create_entry fresh now arg d = (Inr r, d')"
    and "e_reversal_of arg = Some (e_id x)" and "x \<in> set (entries d)" and "e_reversal_of x = None"
  shows "stage_total d' m s c = stage_total d m s c -
     (if e_account x = m \<and> e_state x = s \<and> e_currency x = c then sint (e_minor x) else 0)"
proof -
  note cr = create_entry_Inr [OF assms(2)]
  have rev: "e_reversal_of r = Some (e_id x)" using cr(1) assms(3) by simp
  have x: "live d x"
    using cr(5) assms(5) rev by (auto simp: entry_unique_None live_def reversed_in_def list_ex_iff)
  have live': "live d' y = (live d y \<and> e_id y \<noteq> e_id x)" for y
    using rev by (auto simp: live_def reversed_in_def cr(2))
  have "stage_total d' m s c =
      (\<Sum>y\<leftarrow>entries d. if (live d y \<and> e_account y = m \<and> e_state y = s \<and> e_currency y = c) \<and>
          e_id y \<noteq> e_id x then sint (e_minor y) else 0)"
    using rev unfolding stage_total_def live' by (simp add: cr(2) live_def conj_ac)
  also have "\<dots> = stage_total d m s c -
      (if live d x \<and> e_account x = m \<and> e_state x = s \<and> e_currency x = c then sint (e_minor x) else 0)"
    unfolding stage_total_def using assms(1,4) by (intro sum_drop_one) (auto simp: store_ok_def)
  finally show ?thesis using x by simp
qed

lemma update_entry_ids: "e_id r' = i \<Longrightarrow> map e_id (update_entry i (\<lambda>_. r') rows) = map e_id rows"
  by (auto simp: update_entry_def)

lemma stage_total_move:
  assumes "store_ok d" and "move_entry i from to rule d = (Inr r', d')"
    and "find_entry d i = Some r" and "live d r"
  shows "stage_total d' m s c = stage_total d m s c +
     (if e_account r = m \<and> e_currency r = c
      then (if s = to then sint (e_minor r) else 0) - (if s = from then sint (e_minor r) else 0)
      else 0)"
proof -
  obtain from': "e_state r = from" and r': "r' = r\<lparr>e_state := to, e_hold_rule := rule\<rparr>"
    and d': "d' = d\<lparr>entries := update_entry i (\<lambda>_. r') (entries d),
       moved := (if from = to then moved d else (i, from, to) # moved d)\<rparr>"
    using move_entry_Inr [OF assms(2)] assms(3) by (metis option.inject)
  have r: "r \<in> set (entries d)" "e_id r = i" using find_entry_Some [OF assms(3)] by auto
  have dist: "distinct (map e_id (entries d))" using assms(1) by (simp add: store_ok_def)
  have rev: "e_reversal_of r' = None" using assms(4) by (simp add: r' live_def)
  have same: "reversed_in d' j = reversed_in d j" for j
  proof -
    have "e_reversal_of r = None" using assms(4) by (simp add: live_def)
    then have "x = r" if "x \<in> set (entries d)" "e_id x = i" for x
      using that r dist by (auto simp: distinct_map dest: inj_onD)
    with rev \<open>e_reversal_of r = None\<close> show ?thesis
      by (auto simp: reversed_in_def d' update_entry_def list_ex_iff split: if_splits)
  qed
  have live': "live d' x = live d x" for x by (simp add: live_def same)
  let ?g = "\<lambda>x. if live d x \<and> e_account x = m \<and> e_state x = s \<and> e_currency x = c
      then sint (e_minor x) else 0"
  have "stage_total d' m s c = (\<Sum>x\<leftarrow>map (\<lambda>x. if e_id x = i then r' else x) (entries d). ?g x)"
    unfolding stage_total_def live' by (simp add: d' update_entry_def)
  also have "\<dots> = stage_total d m s c - ?g r + ?g r'"
    unfolding stage_total_def by (rule sum_update_one [OF dist r])
  also have "live d r'" using assms(4) r' by (simp add: live_def)
  ultimately show ?thesis using assms(4) from' by (auto simp: r')
qed

lemma store_ok_create:
  assumes "store_ok d" and "create_entry fresh now arg d = (Inr r, d')"
  shows "store_ok d'"
  using assms(1) create_entry_Inr [OF assms(2)] entry_foreign_reversal [of d r]
  by (auto simp: store_ok_def entry_unique_None)

lemma store_ok_move:
  assumes "store_ok d" and "move_entry i from to rule d = (Inr r', d')"
  shows "store_ok d'"
proof -
  obtain r where r: "find_entry d i = Some r" and r': "r' = r\<lparr>e_state := to, e_hold_rule := rule\<rparr>"
    and ok: "entry_checks r' = None"
    and full: "d' = d\<lparr>entries := update_entry i (\<lambda>_. r') (entries d),
       moved := (if from = to then moved d else (i, from, to) # moved d)\<rparr>"
    using move_entry_Inr [OF assms(2)] by metis
  have d': "entries d' = update_entry i (\<lambda>_. r') (entries d)" by (simp add: full)
  have ids: "map e_id (entries d') = map e_id (entries d)"
    unfolding d' using find_entry_Some [OF r] r' by (intro update_entry_ids) auto
  then have "set (map e_id (entries d')) = set (map e_id (entries d))" by metis
  then have set_ids: "e_id ` set (entries d') = e_id ` set (entries d)" by simp
  have "x = r' \<or> x \<in> set (entries d)" if "x \<in> set (entries d')" for x
    using that by (auto simp: d' update_entry_def split: if_splits)
  moreover have "e_reversal_of r' = e_reversal_of r" "r \<in> set (entries d)"
    using r' find_entry_Some [OF r] by auto
  ultimately show ?thesis
    using assms(1) ok ids unfolding store_ok_def set_ids by metis
qed

lemma store_ok_cong: "entries d' = entries d \<Longrightarrow> store_ok d' = store_ok d"
  by (simp add: store_ok_def)

end
