(* ===== verification/LedgerPort.thy ===== *)
theory LedgerPort
  imports WalletPort "HOL-Library.Multiset"
begin

text \<open>
  What a client of the wallet may rely on: the interface \<open>Ledger\<close> of
  \<open>internal/cashback/wallet/ledger.go\<close> with the rules its documentation numbers, as a
  locale. \<open>ctx\<close> says whether the caller's context is already done and \<open>at\<close> is the
  instant the ledger's clock answers. \<open>named\<close> is the account a reference is known by,
  \<open>holds\<close> what an account holds, \<open>known\<close> what was recorded under an idempotency key,
  and \<open>sound\<close> the implementation's own invariant. \<open>uuid_text\<close> is what is relied upon
  of the text form of a UUID, with the RFC 4122 form as its model.
\<close>

section \<open>Two transfers that say the same thing\<close>

abbreviation account_net :: "posting list \<Rightarrow> account_id \<Rightarrow> int" where
  "account_net \<equiv> net_at p_account p_amount"

definition entry_of :: "posting \<Rightarrow> account_id \<times> amount" where
  "entry_of p = (p_account p, p_amount p)"

definition same_transfer :: "transfer \<Rightarrow> transfer \<Rightarrow> bool" where
  "same_transfer t u \<longleftrightarrow>
     reference t = reference u \<and> metadata t = metadata u \<and>
     mset (map entry_of (postings t)) = mset (map entry_of (postings u))"

lemma same_transfer_refl [simp, intro!]: "same_transfer t t"
  by (simp add: same_transfer_def)

lemma same_transfer_sym: "same_transfer t u \<Longrightarrow> same_transfer u t"
  by (simp add: same_transfer_def)

lemma same_transfer_trans: "same_transfer t u \<Longrightarrow> same_transfer u v \<Longrightarrow> same_transfer t v"
  by (simp add: same_transfer_def)

lemma account_net_entries:
  "account_net ps acct =
     (\<Sum>e\<in>#filter_mset (\<lambda>e. fst e = acct) (mset (map entry_of ps)). sint (minor (snd e)))"
  by (induction ps) (auto simp: net_at_Cons entry_of_def)

lemma same_transfer_net:
  "same_transfer t u \<Longrightarrow> account_net (postings t) acct = account_net (postings u) acct"
  by (simp add: same_transfer_def account_net_entries)

section \<open>The contract\<close>

locale ledger_port =
  fixes ensure :: "bool \<Rightarrow> account_ref \<Rightarrow> currency \<Rightarrow> 'l \<Rightarrow> (wallet_error + account_id) \<times> 'l"
    and post :: "bool \<Rightarrow> instant \<Rightarrow> transfer \<Rightarrow> 'l \<Rightarrow> (wallet_error + transfer_ref) \<times> 'l"
    and named :: "account_ref \<Rightarrow> currency \<Rightarrow> account_id"
    and holds :: "'l \<Rightarrow> account_id \<Rightarrow> int"
    and known :: "'l \<Rightarrow> string \<Rightarrow> (transfer \<times> transfer_ref) option"
    and sound :: "'l \<Rightarrow> bool"
  assumes ensure_sound: "sound l \<Longrightarrow> sound (snd (ensure ctx r c l))"
    and ensure_answer: "ensure ctx r c l = (Inr acct, l') \<Longrightarrow>
      acct = named r c \<and> ref_validate r = None \<and> currency_valid c"
    and ensure_holds: "holds (snd (ensure ctx r c l)) = holds l"
    and ensure_known: "known (snd (ensure ctx r c l)) = known l"
    and post_sound: "sound l \<Longrightarrow> sound (snd (post ctx at t l))"
    and post_refused: "post ctx at t l = (Inl e, l') \<Longrightarrow> l' = l"
    and post_checked: "post ctx at t l = (Inr ref, l') \<Longrightarrow> transfer_validate t = None"
    and post_new: "sound l \<Longrightarrow> post ctx at t l = (Inr ref, l') \<Longrightarrow>
      known l (idempotency_key t) = None \<Longrightarrow> holds l' acct = holds l acct + account_net (postings t) acct"
    and post_remembered: "sound l \<Longrightarrow> post ctx at t l = (Inr ref, l') \<Longrightarrow>
      known l (idempotency_key t) = None \<Longrightarrow>
      \<exists>u. same_transfer t u \<and> known l' = (known l)(idempotency_key t \<mapsto> (u, ref))"
    and post_known: "sound l \<Longrightarrow> post ctx at t l = (Inr ref, l') \<Longrightarrow>
      known l (idempotency_key t) = Some (u, ref0) \<Longrightarrow> same_transfer t u \<and> ref = ref0 \<and> l' = l"
    and post_again: "sound l \<Longrightarrow> known l (idempotency_key t) = Some (u, ref0) \<Longrightarrow> same_transfer t u \<Longrightarrow>
      transfer_validate t = None \<Longrightarrow> post False at t l = (Inr ref0, l)"
    and member_floor: "sound l \<Longrightarrow> ref_validate r = None \<Longrightarrow> ref_member r \<noteq> None \<Longrightarrow>
      currency_valid c \<Longrightarrow> 0 \<le> holds l (named r c)"
begin

text \<open>Once an accepted transfer is in, its key answers for it for good.\<close>

lemma post_leaves_record:
  assumes "sound l" and "post ctx at t l = (Inr ref, l')"
  shows "\<exists>u. same_transfer t u \<and> known l' (idempotency_key t) = Some (u, ref)"
proof (cases "known l (idempotency_key t)")
  case None
  then show ?thesis using post_remembered [OF assms None] by auto
next
  case (Some p)
  then obtain u r where "known l (idempotency_key t) = Some (u, r)" by (cases p) auto
  with post_known [OF assms this] show ?thesis by blast
qed

lemma post_retried:
  assumes "sound l" and "post ctx at t l = (Inr ref, l')"
    and "same_transfer t' t" and "idempotency_key t' = idempotency_key t" and "transfer_validate t' = None"
  shows "post False at' t' l' = (Inr ref, l')"
proof -
  have "sound l'" using post_sound [OF assms(1), of ctx at t] assms(2) by simp
  moreover obtain u where "same_transfer t u" "known l' (idempotency_key t) = Some (u, ref)"
    using post_leaves_record [OF assms(1,2)] by blast
  ultimately show ?thesis
    using post_again [of l' t' u ref at'] same_transfer_trans [OF assms(3)] assms(4,5) by auto
qed

lemma post_keeps_known:
  assumes "sound l" and "known l k = Some v"
  shows "known (snd (post ctx at t l)) k = Some v"
proof -
  obtain x l' where p: "post ctx at t l = (x, l')" by (cases "post ctx at t l")
  show ?thesis
  proof (cases x)
    case (Inl e)
    have "l' = l" by (rule post_refused) (use p Inl in simp)
    with p assms(2) show ?thesis by simp
  next
    case (Inr ref)
    show ?thesis
    proof (cases "known l (idempotency_key t)")
      case None
      with p Inr assms post_remembered [of l ctx at t ref l'] show ?thesis by fastforce
    next
      case (Some w)
      with p Inr assms post_known [of l ctx at t ref l' "fst w" "snd w"] show ?thesis by simp
    qed
  qed
qed

end

text \<open>A ledger in which a name belongs to one account.\<close>

locale ledger_names = ledger_port +
  assumes named_once: "ref_validate r = None \<Longrightarrow> ref_validate r' = None \<Longrightarrow>
      currency_valid c \<Longrightarrow> currency_valid c' \<Longrightarrow> named r c = named r' c' \<Longrightarrow>
      ref_member r = ref_member r' \<and> ref_house r = ref_house r' \<and> c = c'"
begin

lemma named_members:
  assumes "m \<noteq> nil_uuid" "stage_valid g" "m' \<noteq> nil_uuid" "stage_valid g'" "currency_valid c" "currency_valid c'"
  shows "named (member_account m g) c = named (member_account m' g') c' \<longleftrightarrow> m = m' \<and> g = g' \<and> c = c'"
  using named_once [of "member_account m g" "member_account m' g'" c c'] assms
  by (auto simp: ref_validate_def member_account_def ref_member_def)

lemma named_house_member:
  assumes "ref_validate (house_account h) = None" "m \<noteq> nil_uuid" "stage_valid g"
    "currency_valid c" "currency_valid c'"
  shows "named (house_account h) c \<noteq> named (member_account m g) c'"
  using named_once [of "house_account h" "member_account m g" c c'] assms
  by (auto simp: ref_validate_def member_account_def house_account_def ref_member_def)

end

section \<open>UUID text\<close>

locale uuid_text =
  fixes ustr :: "uuid \<Rightarrow> string"
  assumes ustr_inj: "ustr x = ustr y \<Longrightarrow> x = y"
    and ustr_length: "length (ustr x) = 36"
    and ustr_visible: "\<not> space_byte (of_char (hd (ustr x)))"

fun hex_fixed :: "nat \<Rightarrow> nat \<Rightarrow> string" where
  "hex_fixed 0 n = []"
| "hex_fixed (Suc k) n = hex_fixed k (n div 16) @ [hex_digit (n mod 16)]"

definition rfc4122 :: "uuid \<Rightarrow> string" where
  "rfc4122 u =
     (let h = hex_fixed 32 (unat u) in
      take 8 h @ ''-'' @ take 4 (drop 8 h) @ ''-'' @ take 4 (drop 12 h) @ ''-'' @
      take 4 (drop 16 h) @ ''-'' @ drop 20 h)"

lemma hex_fixed_length [simp]: "length (hex_fixed k n) = k"
  by (induction k arbitrary: n) auto

lemma hex_fixed_inj: "m < 16 ^ k \<Longrightarrow> n < 16 ^ k \<Longrightarrow> hex_fixed k m = hex_fixed k n \<Longrightarrow> m = n"
proof (induction k arbitrary: m n)
  case 0
  then show ?case by simp
next
  case (Suc k)
  then have "hex_digit (m mod 16) = hex_digit (n mod 16)" "m div 16 = n div 16"
    by (auto simp: less_mult_imp_div_less)
  moreover from this(1) have "m mod 16 = n mod 16"
    by (metis mod_less_divisor unhex_hex_digit zero_less_numeral)
  ultimately show ?case by (metis div_mult_mod_eq)
qed

lemma hex_fixed_visible: "c \<in> set (hex_fixed k n) \<Longrightarrow> 48 \<le> (of_char c :: nat) \<and> of_char c < (128::nat)"
  by (induction k arbitrary: n) (auto simp: hex_digit_def)

lemma rfc4122_hex: "rfc4122 x = rfc4122 y \<Longrightarrow> hex_fixed 32 (unat x) = hex_fixed 32 (unat y)"
proof -
  have chunk: "drop n h = take k (drop n h) @ drop (k + n) h" for n k and h :: string
    by (metis append_take_drop_id drop_drop)
  have split: "h = take 8 h @ take 4 (drop 8 h) @ take 4 (drop 12 h) @ take 4 (drop 16 h) @ drop 20 h"
    for h :: string
    using chunk [of 8 h 4] chunk [of 12 h 4] chunk [of 16 h 4] by simp
  assume "rfc4122 x = rfc4122 y"
  then show ?thesis
    using split [of "hex_fixed 32 (unat x)"] split [of "hex_fixed 32 (unat y)"]
    unfolding rfc4122_def Let_def by (simp add: append_eq_append_conv)
qed

interpretation rfc: uuid_text rfc4122
proof
  fix x y :: uuid
  assume "rfc4122 x = rfc4122 y"
  then have "hex_fixed 32 (unat x) = hex_fixed 32 (unat y)" by (rule rfc4122_hex)
  moreover have "unat z < 16 ^ 32" for z :: uuid
    using unsigned_less [of z, where ?'a = nat] by simp
  ultimately have "unat x = unat y" by (intro hex_fixed_inj)
  then show "x = y" by (simp only: word_unat_eq_iff)
next
  fix x :: uuid
  show "length (rfc4122 x) = 36" by (simp add: rfc4122_def Let_def)
  have ne: "hex_fixed 32 (unat x) \<noteq> []"
    by (metis hex_fixed_length list.size(3) zero_neq_numeral)
  then have "hd (rfc4122 x) = hd (hex_fixed 32 (unat x))"
    by (simp add: rfc4122_def Let_def hd_append)
  moreover have "hd (hex_fixed 32 (unat x)) \<in> set (hex_fixed 32 (unat x))"
    using ne by (rule hd_in_set)
  ultimately show "\<not> space_byte (of_char (hd (rfc4122 x)))"
    using hex_fixed_visible [of "hd (rfc4122 x)" 32 "unat x"] by (auto simp: space_byte_def)
qed

end
