(* ===== verification/Entries.thy ===== *)
theory Entries
  imports EarningsStore LedgerPort
begin

text \<open>
  The entry machine of \<open>internal/cashback/earnings\<close>: \<open>statemachine.go\<close> (\<open>Entries.apply\<close>,
  \<open>post\<close>, \<open>record\<close>), \<open>open.go\<close>, \<open>reversal.go\<close>, \<open>confirm.go\<close> and the announcer of \<open>events.go\<close>.
  Every operation posts in a ledger it reaches through two functions and writes the tables of
  \<open>EarningsStore\<close>. \<open>fuse\<close> is how many more calls to the database or the ledger go through
  before the context is done; \<open>None\<close> is a context that lasts. It can be set so that an operation
  is cut off between any two of its steps, which is what the recovery theorems quantify over.
\<close>

section \<open>The world an operation runs in\<close>

record 'l world =
  ledger :: 'l
  db :: earn_db
  fuse :: "nat option"
  clock :: instant

record 'l machine =
  ensure_op :: "bool \<Rightarrow> account_ref \<Rightarrow> currency \<Rightarrow> 'l \<Rightarrow> (wallet_error + account_id) \<times> 'l"
  post_op :: "bool \<Rightarrow> instant \<Rightarrow> transfer \<Rightarrow> 'l \<Rightarrow> (wallet_error + transfer_ref) \<times> 'l"
  uuid_str :: "uuid \<Rightarrow> string"
  fresh_ids :: "nat \<Rightarrow> uuid"
  receivable :: string

definition ctx_done :: "'l world \<Rightarrow> bool" where
  "ctx_done w = (fuse w = Some 0)"

definition burn :: "nat option \<Rightarrow> nat option" where
  "burn = map_option (\<lambda>n. n - 1)"

definition call_db :: "(earn_db \<Rightarrow> (db_error + 'a) \<times> earn_db) \<Rightarrow> 'l world \<Rightarrow> (db_error + 'a) \<times> 'l world" where
  "call_db st w =
     (if ctx_done w then (Inl ConnectionLost, w)
      else case st (db w) of (r, d) \<Rightarrow> (r, w\<lparr>db := d, fuse := burn (fuse w)\<rparr>))"

definition call_ensure ::
  "'l machine \<Rightarrow> account_ref \<Rightarrow> currency \<Rightarrow> 'l world \<Rightarrow> (wallet_error + account_id) \<times> 'l world" where
  "call_ensure M r c w =
     (case ensure_op M (ctx_done w) r c (ledger w) of
        (x, l) \<Rightarrow> (x, w\<lparr>ledger := l, fuse := burn (fuse w)\<rparr>))"

definition call_post ::
  "'l machine \<Rightarrow> transfer \<Rightarrow> 'l world \<Rightarrow> (wallet_error + transfer_ref) \<times> 'l world" where
  "call_post M t w =
     (case post_op M (ctx_done w) (clock w) t (ledger w) of
        (x, l) \<Rightarrow> (x, w\<lparr>ledger := l, fuse := burn (fuse w)\<rparr>))"

section \<open>Values\<close>

record entry =
  en_id :: uuid
  en_member :: uuid
  en_brand :: string
  en_report :: uuid
  en_click :: uuid
  en_state :: entry_state
  en_hold_rule :: string
  en_amount :: amount
  en_reversal_of :: uuid
  en_created :: instant

record transition =
  tr_entry :: uuid
  tr_from :: entry_state
  tr_to :: entry_state
  tr_transfer :: transfer_ref
  tr_at :: instant
  tr_actor :: uuid
  tr_reason :: string

record move =
  mo_entry :: uuid
  mo_from :: entry_state
  mo_to :: entry_state
  mo_member :: uuid
  mo_amount :: amount
  mo_cause :: uuid
  mo_reason :: string
  mo_actor :: uuid
  mo_hold_rule :: string

record credit =
  cr_member :: uuid
  cr_brand :: string
  cr_report :: uuid
  cr_click :: uuid
  cr_state :: entry_state
  cr_hold_rule :: string
  cr_amount :: amount
  cr_reason :: string
  cr_actor :: uuid

record reversal =
  rv_original :: entry
  rv_report :: uuid
  rv_reason :: string
  rv_actor :: uuid

definition or_nil :: "uuid option \<Rightarrow> uuid" where
  "or_nil x = (case x of None \<Rightarrow> nil_uuid | Some u \<Rightarrow> u)"

definition or_empty :: "string option \<Rightarrow> string" where
  "or_empty x = (case x of None \<Rightarrow> [] | Some s \<Rightarrow> s)"

definition uuid_or_null :: "uuid \<Rightarrow> uuid option" where
  "uuid_or_null u = (if u = nil_uuid then None else Some u)"

definition text_or_null :: "string \<Rightarrow> string option" where
  "text_or_null s = (if s = [] then None else Some s)"

definition entry_from :: "entry_row \<Rightarrow> earn_error + entry" where
  "entry_from r =
     (case new_amount (e_minor r) (e_currency r) of
        Inl e \<Rightarrow> Inl (ErrMalformedRow e)
      | Inr a \<Rightarrow>
          Inr \<lparr>en_id = e_id r, en_member = e_account r, en_brand = e_brand r, en_report = e_report r,
            en_click = or_nil (e_click r), en_state = e_state r,
            en_hold_rule = or_empty (e_hold_rule r), en_amount = a,
            en_reversal_of = or_nil (e_reversal_of r), en_created = e_created r\<rparr>)"

section \<open>Keys\<close>

definition idempotency_key_for :: "(uuid \<Rightarrow> string) \<Rightarrow> uuid \<Rightarrow> uuid \<Rightarrow> entry_state \<Rightarrow> string" where
  "idempotency_key_for ustr entry cause to =
     ''entry:'' @ ustr entry @ '':cause:'' @ ustr cause @ '':to:'' @ to"

definition opening_key :: "(uuid \<Rightarrow> string) \<Rightarrow> uuid \<Rightarrow> entry_state \<Rightarrow> string" where
  "opening_key ustr report to = ''credit:report:'' @ ustr report @ '':to:'' @ to"

section \<open>Posting, recording, announcing\<close>

definition new_leg :: "account_id \<Rightarrow> amount \<Rightarrow> posting" where
  "new_leg acct amt = \<lparr>p_account = acct, p_amount = amt, p_ref = [], p_at = zero_time\<rparr>"

definition two_legs :: "string \<Rightarrow> account_id \<Rightarrow> amount \<Rightarrow> account_id \<Rightarrow> amount \<Rightarrow> transfer" where
  "two_legs key source debit target amt =
     \<lparr>idempotency_key = key, postings = [new_leg source debit, new_leg target amt],
      reference = key, metadata = fmempty\<rparr>"

definition post_movement ::
  "'l machine \<Rightarrow> movement \<Rightarrow> amount \<Rightarrow> string \<Rightarrow> 'l world \<Rightarrow> (earn_error + transfer_ref) \<times> 'l world" where
  "post_movement M mv amt key =
     and_then (wrap_error ErrNotPosted (call_ensure M (mv_from mv) (currency_of amt))) (\<lambda>source.
     and_then (wrap_error ErrNotPosted (call_ensure M (mv_to mv) (currency_of amt))) (\<lambda>target.
     and_then (wrap_error (\<lambda>e. ErrNotPosted (MoneyFault e)) (from_sum (neg_amount amt))) (\<lambda>debit.
     wrap_error ErrNotPosted (call_post M (two_legs key source debit target amt)))))"

definition record_move ::
  "'l machine \<Rightarrow> uuid \<Rightarrow> entry_state \<Rightarrow> entry_state \<Rightarrow> transfer_ref \<Rightarrow> string \<Rightarrow> uuid \<Rightarrow>
   'l world \<Rightarrow> (earn_error + transition) \<times> 'l world" where
  "record_move M entry from to ref reason actor w =
     and_then
       (wrap_error ErrNotRecorded (call_db (record_transition (fresh_ids M) (clock w)
          \<lparr>t_id = nil_uuid, t_entry = entry, t_from = text_or_null from, t_to = to, t_ref = ref,
           t_reason = text_or_null reason, t_actor = uuid_or_null actor, t_at = zero_time\<rparr>)))
       (\<lambda>t.
     and_then
       (wrap_error ErrNotRecorded (call_db (link_transfer
          \<lparr>l_transition = t_id t, l_entry = entry, l_ref = ref\<rparr>)))
       (\<lambda>_.
     give
       \<lparr>tr_entry = t_entry t, tr_from = or_empty (t_from t), tr_to = t_to t, tr_transfer = t_ref t,
        tr_at = t_at t, tr_actor = or_nil (t_actor t), tr_reason = or_empty (t_reason t)\<rparr>)) w"

definition announce :: "'l machine \<Rightarrow> event \<Rightarrow> 'l world \<Rightarrow> (earn_error + unit) \<times> 'l world" where
  "announce M ev = wrap_error (\<lambda>_. ErrNotAnnounced) (call_db (append_event (uuid_str M) ev))"

definition announce_created :: "'l machine \<Rightarrow> entry \<Rightarrow> 'l world \<Rightarrow> (earn_error + unit) \<times> 'l world" where
  "announce_created M e =
     (if en_id e = nil_uuid then refuse ErrNotAnnounced
      else announce M (EntryCreated (en_id e) (en_member e) (en_state e) (en_amount e) (en_created e)))"

definition announce_state_changed ::
  "'l machine \<Rightarrow> transition \<Rightarrow> 'l world \<Rightarrow> (earn_error + unit) \<times> 'l world" where
  "announce_state_changed M t =
     (if tr_entry t = nil_uuid then refuse ErrNotAnnounced
      else if tr_transfer t = [] then refuse ErrNotAnnounced
      else announce M (EntryStateChanged (tr_entry t) (tr_from t) (tr_to t) (tr_transfer t) (tr_at t)))"

section \<open>Apply\<close>

definition hold_rule_for :: "move \<Rightarrow> string" where
  "hold_rule_for mo = (if mo_to mo = StHeld then mo_hold_rule mo else [])"

definition moved_error :: "db_error \<Rightarrow> earn_error" where
  "moved_error e = (case e of NoRows \<Rightarrow> ErrEntryMoved | _ \<Rightarrow> ErrNotRecorded e)"

definition apply_move :: "'l machine \<Rightarrow> move \<Rightarrow> 'l world \<Rightarrow> (earn_error + entry \<times> transition) \<times> 'l world" where
  "apply_move M mo =
     (if \<not> can_follow (mo_from mo) (mo_to mo)
      then refuse (ErrIllegalTransition (mo_from mo) (mo_to mo))
      else
     and_then (from_sum (postings_for (mo_member mo) (mo_from mo) (mo_to mo) (receivable M))) (\<lambda>mv.
     and_then (post_movement M mv (mo_amount mo)
        (idempotency_key_for (uuid_str M) (mo_entry mo) (mo_cause mo) (mo_to mo))) (\<lambda>ref.
     and_then (wrap_error moved_error
        (call_db (move_entry (mo_entry mo) (mo_from mo) (mo_to mo) (text_or_null (hold_rule_for mo))))) (\<lambda>row.
     and_then (record_move M (mo_entry mo) (mo_from mo) (mo_to mo) ref (mo_reason mo) (mo_actor mo)) (\<lambda>t.
     and_then (announce_state_changed M t) (\<lambda>_.
     and_then (from_sum (entry_from row)) (\<lambda>e.
     give (e, t))))))))"

section \<open>Open\<close>

definition credit_validate :: "credit \<Rightarrow> earn_error option" where
  "credit_validate c =
     (if \<not> can_open (cr_state c) then Some (ErrIllegalTransition [] (cr_state c))
      else if cr_report c = nil_uuid then Some ErrNoEvidence
      else if cr_member c = nil_uuid then Some ErrNoMember
      else if cr_brand c = [] then Some ErrNoBrand
      else if \<not> currency_valid (currency_of (cr_amount c)) \<or> minor (cr_amount c) \<le>s 0
        then Some ErrNotACredit
      else None)"

definition credit_hold_rule :: "credit \<Rightarrow> string" where
  "credit_hold_rule c = (if cr_state c = StHeld then cr_hold_rule c else [])"

definition opened_error :: "db_error \<Rightarrow> earn_error" where
  "opened_error e =
     (if e = UniqueViolation ''entry_one_per_report'' then ErrAlreadyCredited
      else if e = UniqueViolation ''entry_click_id_idx'' then ErrClickAlreadyCredited
      else if e = ForeignKeyViolation ''entry_currency_is_the_members'' then ErrCurrencyNotTheMembers
      else ErrNotOpened e)"

definition credit_row :: "credit \<Rightarrow> entry_row" where
  "credit_row c =
     \<lparr>e_id = nil_uuid, e_account = cr_member c, e_brand = cr_brand c, e_report = cr_report c,
      e_click = uuid_or_null (cr_click c), e_state = cr_state c, e_minor = minor (cr_amount c),
      e_currency = currency_of (cr_amount c), e_hold_rule = text_or_null (credit_hold_rule c),
      e_reversal_of = None, e_created = zero_time\<rparr>"

definition open_credit :: "'l machine \<Rightarrow> credit \<Rightarrow> 'l world \<Rightarrow> (earn_error + entry) \<times> 'l world" where
  "open_credit M c w =
     (case credit_validate c of
        Some e \<Rightarrow> refuse e w
      | None \<Rightarrow>
     and_then (from_sum (postings_for (cr_member c) [] (cr_state c) (receivable M))) (\<lambda>mv.
     and_then (wrap_error opened_error (call_db (create_entry (fresh_ids M) (clock w) (credit_row c)))) (\<lambda>row.
     and_then (post_movement M mv (cr_amount c) (opening_key (uuid_str M) (cr_report c) (cr_state c))) (\<lambda>ref.
     and_then (record_move M (e_id row) [] (cr_state c) ref (cr_reason c) (cr_actor c)) (\<lambda>t.
     and_then (from_sum (entry_from row)) (\<lambda>e.
     and_then (announce_created M e) (\<lambda>_.
     and_then (announce_state_changed M t) (\<lambda>_.
     give e))))))) w)"

section \<open>Reverse\<close>

definition reversal_row :: "reversal \<Rightarrow> entry_row" where
  "reversal_row rv =
     (let o1 = rv_original rv in
      \<lparr>e_id = nil_uuid, e_account = en_member o1, e_brand = en_brand o1, e_report = rv_report rv,
       e_click = uuid_or_null (en_click o1), e_state = StReversed, e_minor = minor (en_amount o1),
       e_currency = currency_of (en_amount o1), e_hold_rule = None,
       e_reversal_of = Some (en_id o1), e_created = zero_time\<rparr>)"

definition reverse_credit ::
  "'l machine \<Rightarrow> reversal \<Rightarrow> 'l world \<Rightarrow> (earn_error + entry \<times> transition) \<times> 'l world" where
  "reverse_credit M rv w =
     (if rv_report rv = nil_uuid then refuse ErrNoReversingReport w
      else if rv_report rv = en_report (rv_original rv) \<and> rv_actor rv = nil_uuid
        then refuse ErrNoReversingReport w
      else if stage_holding (en_state (rv_original rv)) = None then refuse ErrNotReversible w
      else
     and_then (from_sum (postings_for (en_member (rv_original rv)) (en_state (rv_original rv))
        StReversed (receivable M))) (\<lambda>mv.
     and_then (post_movement M mv (en_amount (rv_original rv))
        (idempotency_key_for (uuid_str M) (en_id (rv_original rv)) (rv_report rv) StReversed)) (\<lambda>ref.
     and_then (wrap_error ErrNotReversed
        (call_db (create_entry (fresh_ids M) (clock w) (reversal_row rv)))) (\<lambda>row.
     and_then (record_move M (e_id row) [] StReversed ref (rv_reason rv) (rv_actor rv)) (\<lambda>t.
     and_then (from_sum (entry_from row)) (\<lambda>e.
     and_then (announce_created M e) (\<lambda>_.
     and_then (announce_state_changed M t) (\<lambda>_.
     give (e, t)))))))) w)"

section \<open>Confirm\<close>

definition report_is_reconciled :: "uuid \<Rightarrow> earn_db \<Rightarrow> (db_error + bool) \<times> earn_db" where
  "report_is_reconciled i d =
     (case find_report d i of None \<Rightarrow> (Inl NoRows, d) | Some r \<Rightarrow> (Inr (rp_reconciled r), d))"

definition confirm_reason :: string where
  "confirm_reason = ''the network approved the commission and a statement accounted for it''"

definition confirm_entry ::
  "'l machine \<Rightarrow> entry \<Rightarrow> string \<Rightarrow> uuid \<Rightarrow> 'l world \<Rightarrow> (earn_error + entry) \<times> 'l world" where
  "confirm_entry M e reported cause =
     (if reported \<noteq> ''confirmed'' then refuse ErrNotApproved
      else
     and_then (wrap_error ErrReconciliationUnknown (call_db (report_is_reconciled (en_report e)))) (\<lambda>answer.
     if \<not> answer then refuse ErrNotReconciled
     else
     and_then (apply_move M
        \<lparr>mo_entry = en_id e, mo_from = en_state e, mo_to = StConfirmed, mo_member = en_member e,
         mo_amount = en_amount e, mo_cause = cause, mo_reason = confirm_reason, mo_actor = nil_uuid,
         mo_hold_rule = []\<rparr>) (\<lambda>(moved, _). give moved)))"

section \<open>One transaction\<close>

text \<open>What a caller of the machine does with its transaction: commit after a success, roll back after an
  error or a refused commit. The ledger is not part of it.\<close>

definition in_tx ::
  "(db_error \<Rightarrow> 'e) \<Rightarrow> ('l world \<Rightarrow> ('e + 'a) \<times> 'l world) \<Rightarrow> 'l world \<Rightarrow> ('e + 'a) \<times> 'l world" where
  "in_tx uncommitted m w =
     (case m w of
        (Inl e, v) \<Rightarrow> (Inl e, v\<lparr>db := db w\<rparr>)
      | (Inr a, v) \<Rightarrow>
          (case call_db commit_tx v of
             (Inl e, v') \<Rightarrow> (Inl (uncommitted e), v'\<lparr>db := db w\<rparr>)
           | (Inr _, v') \<Rightarrow> (Inr a, v')))"

abbreviation "within_tx \<equiv> in_tx ErrNotCommitted"

lemma entry_from_Inr:
  "entry_from r = Inr e \<longleftrightarrow> currency_valid (e_currency r) \<and>
     e = \<lparr>en_id = e_id r, en_member = e_account r, en_brand = e_brand r, en_report = e_report r,
       en_click = or_nil (e_click r), en_state = e_state r, en_hold_rule = or_empty (e_hold_rule r),
       en_amount = \<lparr>minor = e_minor r, currency_of = e_currency r\<rparr>,
       en_reversal_of = or_nil (e_reversal_of r), en_created = e_created r\<rparr>"
  by (auto simp: entry_from_def new_amount_def)

section \<open>What the steps touch\<close>

definition same_ledger :: "'l world \<Rightarrow> 'l world \<Rightarrow> bool" where
  "same_ledger w v \<longleftrightarrow> ledger v = ledger w"

definition same_db :: "'l world \<Rightarrow> 'l world \<Rightarrow> bool" where
  "same_db w v \<longleftrightarrow> db v = db w"

lemma same_reflp [simp, intro!]: "reflp same_ledger" "reflp same_db"
  by (auto simp: reflp_def same_ledger_def same_db_def)

lemma same_transp [simp, intro!]: "transp same_ledger" "transp same_db"
  by (auto simp: transp_def same_ledger_def same_db_def)

lemma call_db_same_ledger [simp, intro!]: "keeps same_ledger (call_db st)"
  by (auto simp: keeps_def same_ledger_def call_db_def split: prod.splits)

lemma call_ensure_same_db [simp, intro!]: "keeps same_db (call_ensure M r c)"
  by (auto simp: keeps_def same_db_def call_ensure_def split: prod.splits)

lemma call_post_same_db [simp, intro!]: "keeps same_db (call_post M t)"
  by (auto simp: keeps_def same_db_def call_post_def split: prod.splits)

lemmas keeps_intros = keeps_and_then keeps_wrap_error keeps_give keeps_refuse keeps_from_sum
  keeps_for_each

lemma post_movement_same_db: "keeps same_db (post_movement M mv amt key)"
  unfolding post_movement_def by (intro keeps_intros) auto

lemma record_move_same_ledger: "keeps same_ledger (record_move M en from to ref reason actor)"
proof (unfold keeps_def, rule allI)
  fix w
  show "same_ledger w (snd (record_move M en from to ref reason actor w))"
    unfolding record_move_def by (rule keeps_snd) (intro keeps_intros; auto)
qed

lemma announce_same_ledger: "keeps same_ledger (announce M ev)"
  unfolding announce_def by (intro keeps_intros) auto

lemma announcements_same_ledger:
  "keeps same_ledger (announce_created M e)" "keeps same_ledger (announce_state_changed M t)"
  using announce_same_ledger [of M] unfolding announce_created_def announce_state_changed_def
  by (auto intro!: keeps_intros)

lemma call_db_Inr:
  "call_db st w = (Inr a, v) \<longleftrightarrow>
     \<not> ctx_done w \<and> (\<exists>d. st (db w) = (Inr a, d) \<and> v = w\<lparr>db := d, fuse := burn (fuse w)\<rparr>)"
  by (auto simp: call_db_def split: prod.splits)

lemma call_db_clock: "clock (snd (call_db st w)) = clock w"
  by (auto simp: call_db_def split: prod.splits)

text \<open>A transition recorded: the entries are as they were, and the transfer is linked to the entry for
  the first time.\<close>

lemma record_move_Inr:
  assumes "record_move M en from to ref reason actor w = (Inr t, v)"
  shows "entries (db v) = entries (db w)"
    and "\<exists>tid. links (db v) = links (db w) @ [\<lparr>l_transition = tid, l_entry = en, l_ref = ref\<rparr>]"
    and "\<forall>x\<in>set (links (db w)). \<not> (l_ref x = ref \<and> l_entry x = en)"
    and "tr_entry t = en \<and> tr_to t = to \<and> tr_transfer t = ref \<and> tr_from t = from"
    and "ledger v = ledger w"
proof -
  obtain r d1 d2 k where r: "record_transition (fresh_ids M) (clock w)
          \<lparr>t_id = nil_uuid, t_entry = en, t_from = text_or_null from, t_to = to, t_ref = ref,
           t_reason = text_or_null reason, t_actor = uuid_or_null actor, t_at = zero_time\<rparr> (db w) = (Inr r, d1)"
    and k: "link_transfer \<lparr>l_transition = t_id r, l_entry = en, l_ref = ref\<rparr> d1 = (Inr k, d2)"
    and v: "db v = d2" "ledger v = ledger w"
    and t: "t = \<lparr>tr_entry = t_entry r, tr_from = or_empty (t_from r), tr_to = t_to r, tr_transfer = t_ref r,
        tr_at = t_at r, tr_actor = or_nil (t_actor r), tr_reason = or_empty (t_reason r)\<rparr>"
    using assms by (auto simp: record_move_def effects call_db_Inr)
  note r' = record_transition_Inr [OF r] and k' = link_transfer_Inr [OF k]
  show "entries (db v) = entries (db w)" by (simp add: v k'(2) r'(3))
  show "\<exists>tid. links (db v) = links (db w) @ [\<lparr>l_transition = tid, l_entry = en, l_ref = ref\<rparr>]"
    by (simp add: v k'(2) r'(3))
  show "\<forall>x\<in>set (links (db w)). \<not> (l_ref x = ref \<and> l_entry x = en)"
    using k'(3) by (simp add: r'(3))
  show "tr_entry t = en \<and> tr_to t = to \<and> tr_transfer t = ref \<and> tr_from t = from"
    by (simp add: t r'(1) or_empty_def text_or_null_def)
  show "ledger v = ledger w" by (rule v)
qed

lemma announce_Inr:
  "announce_created M e w = (Inr x, v) \<Longrightarrow> entries (db v) = entries (db w) \<and> links (db v) = links (db w)"
  "announce_state_changed M t w = (Inr x, v) \<Longrightarrow> entries (db v) = entries (db w) \<and> links (db v) = links (db w)"
  by (auto simp: announce_created_def announce_state_changed_def announce_def effects call_db_Inr
      dest!: append_event_Inr split: if_splits)

lemma in_tx_Inr:
  assumes "in_tx f m w = (Inr a, v)"
  obtains u where "m w = (Inr a, u)" "db v = (db u)\<lparr>moved := []\<rparr>" "ledger v = ledger u"
proof -
  obtain y u where m: "m w = (y, u)" by fastforce
  obtain z t where c: "call_db commit_tx u = (z, t)" by fastforce
  have "y = Inr a" "z = Inr ()" "t = v" using assms m c by (auto simp: in_tx_def split: sum.splits)
  then show thesis using that [of u] m c keepsD [OF call_db_same_ledger c]
    by (auto simp: call_db_Inr same_ledger_def dest!: commit_tx_Inr)
qed

section \<open>What an operation does once its transfer is posted\<close>

lemma apply_move_cases:
  assumes "apply_move M mo w = (x, v)"
  obtains (early) e where "x = Inl e" "v = w"
  | (unposted) mv e where "can_follow (mo_from mo) (mo_to mo)"
      "postings_for (mo_member mo) (mo_from mo) (mo_to mo) (receivable M) = Inr mv"
      "post_movement M mv (mo_amount mo)
         (idempotency_key_for (uuid_str M) (mo_entry mo) (mo_cause mo) (mo_to mo)) w = (Inl e, v)" "x = Inl e"
  | (posted) mv ref u where "can_follow (mo_from mo) (mo_to mo)"
      "postings_for (mo_member mo) (mo_from mo) (mo_to mo) (receivable M) = Inr mv"
      "post_movement M mv (mo_amount mo)
         (idempotency_key_for (uuid_str M) (mo_entry mo) (mo_cause mo) (mo_to mo)) w = (Inr ref, u)"
      "ledger v = ledger u"
      "\<And>e t. x = Inr (e, t) \<Longrightarrow> \<exists>row d1 tid.
         move_entry (mo_entry mo) (mo_from mo) (mo_to mo) (text_or_null (hold_rule_for mo)) (db u) = (Inr row, d1) \<and>
         entry_from row = Inr e \<and> entries (db v) = entries d1 \<and>
         links (db v) = links d1 @ [\<lparr>l_transition = tid, l_entry = mo_entry mo, l_ref = ref\<rparr>] \<and>
         (\<forall>k\<in>set (links d1). \<not> (l_ref k = ref \<and> l_entry k = mo_entry mo))"
proof (cases "can_follow (mo_from mo) (mo_to mo)")
  case False
  with assms early show ?thesis by (auto simp: apply_move_def effects)
next
  case True
  show ?thesis
  proof (cases "postings_for (mo_member mo) (mo_from mo) (mo_to mo) (receivable M)")
    case (Inl e)
    with True assms early show ?thesis by (auto simp: apply_move_def and_then_def from_sum_def)
  next
    case (Inr mv)
    let ?key = "idempotency_key_for (uuid_str M) (mo_entry mo) (mo_cause mo) (mo_to mo)"
    obtain p u where p: "post_movement M mv (mo_amount mo) ?key w = (p, u)"
      by (cases "post_movement M mv (mo_amount mo) ?key w")
    define rest where "rest ref =
     and_then (wrap_error moved_error
        (call_db (move_entry (mo_entry mo) (mo_from mo) (mo_to mo) (text_or_null (hold_rule_for mo))))) (\<lambda>row.
     and_then (record_move M (mo_entry mo) (mo_from mo) (mo_to mo) ref (mo_reason mo) (mo_actor mo)) (\<lambda>t.
     and_then (announce_state_changed M t) (\<lambda>_.
     and_then (from_sum (entry_from row)) (\<lambda>e.
     give (e, t)))))" for ref
    show ?thesis
    proof (cases p)
      case (Inl e)
      with p True Inr assms unposted show ?thesis
        by (auto simp: apply_move_def and_then_def from_sum_def)
    next
      case (Inr ref)
      have x: "rest ref u = (x, v)"
        using assms True p Inr \<open>postings_for _ _ _ _ = Inr mv\<close>
        by (simp add: apply_move_def rest_def and_then_def [of "from_sum _"] and_then_def [of "post_movement M mv _ _"] from_sum_def)
      have "keeps same_ledger (rest ref)"
        unfolding rest_def
        by (intro keeps_intros record_move_same_ledger announcements_same_ledger) auto
      then have l: "ledger v = ledger u" using keepsD x by (fastforce simp: same_ledger_def)
      show ?thesis
      proof (rule posted [OF True \<open>postings_for _ _ _ _ = Inr mv\<close> p [unfolded Inr] l])
        fix e t
        assume "x = Inr (e, t)"
        with x obtain row d1 u1 u2 where
          m: "move_entry (mo_entry mo) (mo_from mo) (mo_to mo) (text_or_null (hold_rule_for mo)) (db u) = (Inr row, d1)"
          and u1: "u1 = u\<lparr>db := d1, fuse := burn (fuse u)\<rparr>"
          and rec: "record_move M (mo_entry mo) (mo_from mo) (mo_to mo) ref (mo_reason mo) (mo_actor mo) u1 = (Inr t, u2)"
          and ann: "announce_state_changed M t u2 = (Inr (), v)" and e: "entry_from row = Inr e"
          by (auto simp: rest_def effects call_db_Inr)
        show "\<exists>row d1 tid.
         move_entry (mo_entry mo) (mo_from mo) (mo_to mo) (text_or_null (hold_rule_for mo)) (db u) = (Inr row, d1) \<and>
         entry_from row = Inr e \<and> entries (db v) = entries d1 \<and>
         links (db v) = links d1 @ [\<lparr>l_transition = tid, l_entry = mo_entry mo, l_ref = ref\<rparr>] \<and>
         (\<forall>k\<in>set (links d1). \<not> (l_ref k = ref \<and> l_entry k = mo_entry mo))"
          using m e record_move_Inr(1-3) [OF rec] announce_Inr(2) [OF ann] u1 by auto
      qed
    qed
  qed
qed

lemma open_credit_cases:
  fixes w :: "'l world"
  assumes "open_credit M c w = (x, v)"
  obtains (early) e where "x = Inl e" "ledger v = ledger w"
  | (unposted) mv row d1 u0 e where "credit_validate c = None"
      "postings_for (cr_member c) [] (cr_state c) (receivable M) = Inr mv"
      "create_entry (fresh_ids M) (clock w) (credit_row c) (db w) = (Inr row, d1)"
      "db u0 = d1" "ledger u0 = ledger w"
      "post_movement M mv (cr_amount c) (opening_key (uuid_str M) (cr_report c) (cr_state c)) u0 = (Inl e, v)"
      "x = Inl e"
  | (posted) mv row d1 u0 ref u where "credit_validate c = None"
      "postings_for (cr_member c) [] (cr_state c) (receivable M) = Inr mv"
      "create_entry (fresh_ids M) (clock w) (credit_row c) (db w) = (Inr row, d1)"
      "db u0 = d1" "ledger u0 = ledger w"
      "post_movement M mv (cr_amount c) (opening_key (uuid_str M) (cr_report c) (cr_state c)) u0 = (Inr ref, u)"
      "ledger v = ledger u"
      "\<And>e. x = Inr e \<Longrightarrow> entry_from row = Inr e \<and> entries (db v) = entries (db u) \<and>
         (\<exists>tid. links (db v) = links (db u) @ [\<lparr>l_transition = tid, l_entry = e_id row, l_ref = ref\<rparr>])"
proof (cases "credit_validate c")
  case (Some e)
  with assms early show ?thesis by (auto simp: open_credit_def effects)
next
  case None
  note valid = None
  show ?thesis
  proof (cases "postings_for (cr_member c) [] (cr_state c) (receivable M)")
    case (Inl e)
    with None assms early show ?thesis by (auto simp: open_credit_def and_then_def from_sum_def)
  next
    case (Inr mv)
    note mv = Inr
    let ?key = "opening_key (uuid_str M) (cr_report c) (cr_state c)"
    define insert_row :: "'l world \<Rightarrow> (earn_error + entry_row) \<times> 'l world" where
      "insert_row = wrap_error opened_error (call_db (create_entry (fresh_ids M) (clock w) (credit_row c)))"
    define rest where "rest row ref =
     and_then (record_move M (e_id row) [] (cr_state c) ref (cr_reason c) (cr_actor c)) (\<lambda>t.
     and_then (from_sum (entry_from row)) (\<lambda>e.
     and_then (announce_created M e) (\<lambda>_.
     and_then (announce_state_changed M t) (\<lambda>_.
     give e))))" for row ref
    obtain p u0 where p: "insert_row w = (p, u0)" by (cases "insert_row w")
    have "keeps same_ledger insert_row" unfolding insert_row_def by (intro keeps_intros) auto
    then have l0: "ledger u0 = ledger w" using keepsD p by (fastforce simp: same_ledger_def)
    have run: "and_then insert_row (\<lambda>row. and_then (post_movement M mv (cr_amount c) ?key) (rest row)) w = (x, v)"
      using assms valid mv
      by (simp add: open_credit_def insert_row_def rest_def [abs_def] and_then_def [of "from_sum (Inr mv)"]
          from_sum_def)
    show ?thesis
    proof (cases p)
      case (Inl e)
      with run p l0 early show ?thesis by (auto simp: and_then_def)
    next
      case (Inr row)
      obtain d1 where ins: "create_entry (fresh_ids M) (clock w) (credit_row c) (db w) = (Inr row, d1)" and d1: "db u0 = d1"
        using p Inr by (auto simp: insert_row_def effects call_db_Inr)
      obtain q u where q: "post_movement M mv (cr_amount c) ?key u0 = (q, u)"
        by (cases "post_movement M mv (cr_amount c) ?key u0")
      show ?thesis
      proof (cases q)
        case (Inl e)
        with run p \<open>p = Inr row\<close> q have "x = Inl e" "v = u" by (auto simp: and_then_def)
        with unposted [OF valid mv ins d1 l0] q Inl show ?thesis by blast
      next
        case (Inr ref)
        with run p \<open>p = Inr row\<close> q have x: "rest row ref u = (x, v)" by (simp add: and_then_def)
        have "keeps same_ledger (rest row ref)"
          unfolding rest_def
          by (intro keeps_intros record_move_same_ledger announcements_same_ledger) auto
        then have l: "ledger v = ledger u" using keepsD x by (fastforce simp: same_ledger_def)
        have "entry_from row = Inr e \<and> entries (db v) = entries (db u) \<and>
            (\<exists>tid. links (db v) = links (db u) @ [\<lparr>l_transition = tid, l_entry = e_id row, l_ref = ref\<rparr>])"
          if xe: "x = Inr e" for e
        proof -
          obtain t u1 u2 where
            rec: "record_move M (e_id row) [] (cr_state c) ref (cr_reason c) (cr_actor c) u = (Inr t, u1)"
            and e: "entry_from row = Inr e" and a1: "announce_created M e u1 = (Inr (), u2)"
            and a2: "announce_state_changed M t u2 = (Inr (), v)"
            using x xe by (auto simp: rest_def effects)
          show ?thesis
            using e record_move_Inr(1,2) [OF rec] announce_Inr(1) [OF a1] announce_Inr(2) [OF a2] by simp
        qed
        with posted [OF valid mv ins d1 l0 _ l] q Inr show ?thesis by blast
      qed
    qed
  qed
qed

lemma reverse_credit_cases:
  assumes "reverse_credit M rv w = (x, v)"
  obtains (early) e where "x = Inl e" "v = w"
  | (unposted) mv e where "stage_holding (en_state (rv_original rv)) \<noteq> None"
      "postings_for (en_member (rv_original rv)) (en_state (rv_original rv)) StReversed (receivable M) = Inr mv"
      "post_movement M mv (en_amount (rv_original rv))
        (idempotency_key_for (uuid_str M) (en_id (rv_original rv)) (rv_report rv) StReversed) w = (Inl e, v)"
      "x = Inl e"
  | (posted) mv ref u where "stage_holding (en_state (rv_original rv)) \<noteq> None"
      "postings_for (en_member (rv_original rv)) (en_state (rv_original rv)) StReversed (receivable M) = Inr mv"
      "post_movement M mv (en_amount (rv_original rv))
        (idempotency_key_for (uuid_str M) (en_id (rv_original rv)) (rv_report rv) StReversed) w = (Inr ref, u)"
      "ledger v = ledger u"
      "\<And>e t. x = Inr (e, t) \<Longrightarrow> \<exists>row d1 tid.
         create_entry (fresh_ids M) (clock u) (reversal_row rv) (db u) = (Inr row, d1) \<and>
         entry_from row = Inr e \<and> entries (db v) = entries d1 \<and>
         links (db v) = links d1 @ [\<lparr>l_transition = tid, l_entry = e_id row, l_ref = ref\<rparr>]"
proof (cases "rv_report rv = nil_uuid \<or> rv_report rv = en_report (rv_original rv) \<and> rv_actor rv = nil_uuid \<or>
    stage_holding (en_state (rv_original rv)) = None")
  case True
  with assms early show ?thesis by (auto simp: reverse_credit_def effects split: if_splits)
next
  case False
  then have holds: "stage_holding (en_state (rv_original rv)) \<noteq> None"
    and c1: "rv_report rv \<noteq> nil_uuid"
    and c2: "\<not> (rv_report rv = en_report (rv_original rv) \<and> rv_actor rv = nil_uuid)" by blast+
  let ?o = "rv_original rv"
  let ?key = "idempotency_key_for (uuid_str M) (en_id ?o) (rv_report rv) StReversed"
  obtain mv where mv: "postings_for (en_member ?o) (en_state ?o) StReversed (receivable M) = Inr mv"
    using holds postings_for_reverse by (cases "stage_holding (en_state ?o)") auto
  define rest where "rest ref w' =
     and_then (wrap_error ErrNotReversed
        (call_db (create_entry (fresh_ids M) (clock w') (reversal_row rv)))) (\<lambda>row.
     and_then (record_move M (e_id row) [] StReversed ref (rv_reason rv) (rv_actor rv)) (\<lambda>t.
     and_then (from_sum (entry_from row)) (\<lambda>e.
     and_then (announce_created M e) (\<lambda>_.
     and_then (announce_state_changed M t) (\<lambda>_.
     give (e, t)))))) w'" for ref w'
  obtain p u where p: "post_movement M mv (en_amount ?o) ?key w = (p, u)"
    by (cases "post_movement M mv (en_amount ?o) ?key w")
  have run: "and_then (post_movement M mv (en_amount ?o) ?key) (\<lambda>ref.
     and_then (wrap_error ErrNotReversed
        (call_db (create_entry (fresh_ids M) (clock w) (reversal_row rv)))) (\<lambda>row.
     and_then (record_move M (e_id row) [] StReversed ref (rv_reason rv) (rv_actor rv)) (\<lambda>t.
     and_then (from_sum (entry_from row)) (\<lambda>e.
     and_then (announce_created M e) (\<lambda>_.
     and_then (announce_state_changed M t) (\<lambda>_.
     give (e, t))))))) w = (x, v)"
    using assms unfolding reverse_credit_def if_not_P [OF c1] if_not_P [OF c2] if_not_P [OF holds] mv
    by (simp add: and_then_def [of "from_sum (Inr mv)"] from_sum_def)
  have clk: "clock u = clock w"
  proof -
    have "clock (snd (post_movement M mv (en_amount ?o) ?key w)) = clock w"
      by (auto simp: post_movement_def and_then_def wrap_error_def call_ensure_def call_post_def
          from_sum_def split: prod.splits sum.splits)
    with p show ?thesis by simp
  qed
  show ?thesis
  proof (cases p)
    case (Inl e)
    with run p have "x = Inl e" "v = u" by (auto simp: and_then_def)
    with unposted [OF holds mv] p Inl show ?thesis by blast
  next
    case (Inr ref)
    with run p have x: "rest ref u = (x, v)"
      by (simp add: rest_def clk and_then_def [of "post_movement M mv _ _"])
    have "same_ledger u (snd (rest ref u))"
      unfolding rest_def
      by (rule keeps_snd) (intro keeps_intros record_move_same_ledger announcements_same_ledger; auto)
    then have l: "ledger v = ledger u" by (simp add: x same_ledger_def)
    show ?thesis
    proof (rule posted [OF holds mv p [unfolded Inr] l])
      fix e t
      assume "x = Inr (e, t)"
      with x obtain row d1 u1 u2 u3 where
        m: "create_entry (fresh_ids M) (clock u) (reversal_row rv) (db u) = (Inr row, d1)"
        and u1: "u1 = u\<lparr>db := d1, fuse := burn (fuse u)\<rparr>"
        and rec: "record_move M (e_id row) [] StReversed ref (rv_reason rv) (rv_actor rv) u1 = (Inr t, u2)"
        and e: "entry_from row = Inr e" and a1: "announce_created M e u2 = (Inr (), u3)"
        and a2: "announce_state_changed M t u3 = (Inr (), v)"
        by (auto simp: rest_def effects call_db_Inr)
      show "\<exists>row d1 tid.
         create_entry (fresh_ids M) (clock u) (reversal_row rv) (db u) = (Inr row, d1) \<and>
         entry_from row = Inr e \<and> entries (db v) = entries d1 \<and>
         links (db v) = links d1 @ [\<lparr>l_transition = tid, l_entry = e_id row, l_ref = ref\<rparr>]"
        using m e record_move_Inr(1,2) [OF rec] announce_Inr(1) [OF a1] announce_Inr(2) [OF a2] u1 by auto
    qed
  qed
qed

lemma post_movement_cases:
  assumes "post_movement M mv amt key w = (x, v)"
  obtains (first) e where "call_ensure M (mv_from mv) (currency_of amt) w = (Inl e, v)" "x = Inl (ErrNotPosted e)"
  | (second) source w1 e where "call_ensure M (mv_from mv) (currency_of amt) w = (Inr source, w1)"
      "call_ensure M (mv_to mv) (currency_of amt) w1 = (Inl e, v)" "x = Inl (ErrNotPosted e)"
  | (negated) source w1 target e where "call_ensure M (mv_from mv) (currency_of amt) w = (Inr source, w1)"
      "call_ensure M (mv_to mv) (currency_of amt) w1 = (Inr target, v)" "x = Inl (ErrNotPosted e)"
  | (asked) source w1 target w2 debit y where
      "call_ensure M (mv_from mv) (currency_of amt) w = (Inr source, w1)"
      "call_ensure M (mv_to mv) (currency_of amt) w1 = (Inr target, w2)" "neg_amount amt = Inr debit"
      "call_post M (two_legs key source debit target amt) w2 = (y, v)"
      "x = (case y of Inl e \<Rightarrow> Inl (ErrNotPosted e) | Inr ref \<Rightarrow> Inr ref)"
proof (cases x)
  case (Inl e)
  with assms consider "\<exists>e. call_ensure M (mv_from mv) (currency_of amt) w = (Inl e, v) \<and> x = Inl (ErrNotPosted e)"
    | "\<exists>source w1 e. call_ensure M (mv_from mv) (currency_of amt) w = (Inr source, w1) \<and>
        call_ensure M (mv_to mv) (currency_of amt) w1 = (Inl e, v) \<and> x = Inl (ErrNotPosted e)"
    | "\<exists>source w1 target e. call_ensure M (mv_from mv) (currency_of amt) w = (Inr source, w1) \<and>
        call_ensure M (mv_to mv) (currency_of amt) w1 = (Inr target, v) \<and> x = Inl (ErrNotPosted e)"
    | "\<exists>source w1 target w2 debit e. call_ensure M (mv_from mv) (currency_of amt) w = (Inr source, w1) \<and>
        call_ensure M (mv_to mv) (currency_of amt) w1 = (Inr target, w2) \<and> neg_amount amt = Inr debit \<and>
        call_post M (two_legs key source debit target amt) w2 = (Inl e, v) \<and> x = Inl (ErrNotPosted e)"
    unfolding post_movement_def by (auto simp: effects)
  then show ?thesis
  proof cases
    case 4
    then show ?thesis using asked by (metis sum.simps(5))
  qed (use first second negated in blast)+
next
  case (Inr ref)
  with assms show ?thesis
    unfolding post_movement_def by (auto simp: effects intro: asked)
qed

end
