(* ===== verification/Books.thy ===== *)
theory Books
  imports Entries
begin

text \<open>
  D7: the wallet and the ledger agree. \<open>books\<close> says that what a member's stage account holds in
  the ledger is the sum of the live credits the database has in that stage, up to the transfers
  posted under the keys \<open>pend\<close> whose transaction did not commit, and that every other key an entry
  was moved under is claimed by the rows that record the move. The three operations of the entry
  machine keep it, however they end: a success leaves nothing pending, a failure at any point
  leaves at most its own key pending, and repeating the operation settles it.
\<close>

section \<open>Agreement\<close>

definition pending_net ::
  "('l \<Rightarrow> string \<Rightarrow> (transfer \<times> transfer_ref) option) \<Rightarrow> 'l \<Rightarrow> string set \<Rightarrow> account_id \<Rightarrow> int" where
  "pending_net known l pend acct = (\<Sum>k\<in>pend. account_net (postings (fst (the (known l k)))) acct)"

definition books_agree ::
  "(account_ref \<Rightarrow> currency \<Rightarrow> account_id) \<Rightarrow> ('l \<Rightarrow> account_id \<Rightarrow> int) \<Rightarrow>
   ('l \<Rightarrow> string \<Rightarrow> (transfer \<times> transfer_ref) option) \<Rightarrow> string set \<Rightarrow> 'l \<Rightarrow> earn_db \<Rightarrow> bool" where
  "books_agree named holds known pend l d \<longleftrightarrow>
     finite pend \<and> (\<forall>k\<in>pend. known l k \<noteq> None) \<and>
     (\<forall>m s g c. m \<noteq> nil_uuid \<longrightarrow> stage_holding s = Some g \<longrightarrow> currency_valid c \<longrightarrow>
        holds l (named (member_account m g) c) =
          stage_total d m s c + pending_net known l pend (named (member_account m g) c))"

definition credited :: "earn_db \<Rightarrow> uuid \<Rightarrow> bool" where
  "credited d report = list_ex (\<lambda>r. e_reversal_of r = None \<and> e_report r = report) (entries d)"

definition linked :: "earn_db \<Rightarrow> uuid \<Rightarrow> transfer_ref \<Rightarrow> bool" where
  "linked d i ref = list_ex (\<lambda>k. l_entry k = i \<and> l_ref k = ref) (links d)"

definition keys_claimed ::
  "(uuid \<Rightarrow> string) \<Rightarrow> ('l \<Rightarrow> string \<Rightarrow> (transfer \<times> transfer_ref) option) \<Rightarrow> string set \<Rightarrow> 'l \<Rightarrow> earn_db \<Rightarrow> bool" where
  "keys_claimed ustr known pend l d \<longleftrightarrow>
     (\<forall>i cause to u ref. known l (idempotency_key_for ustr i cause to) = Some (u, ref) \<longrightarrow>
        idempotency_key_for ustr i cause to \<in> pend \<or>
        (if to = StReversed then reversed_in d i else linked d i ref)) \<and>
     (\<forall>report to. known l (opening_key ustr report to) \<noteq> None \<longrightarrow>
        opening_key ustr report to \<in> pend \<or> credited d report)"

definition books ::
  "(uuid \<Rightarrow> string) \<Rightarrow> (account_ref \<Rightarrow> currency \<Rightarrow> account_id) \<Rightarrow> ('l \<Rightarrow> account_id \<Rightarrow> int) \<Rightarrow>
   ('l \<Rightarrow> string \<Rightarrow> (transfer \<times> transfer_ref) option) \<Rightarrow> string set \<Rightarrow> 'l \<Rightarrow> earn_db \<Rightarrow> bool" where
  "books ustr named holds known pend l d \<longleftrightarrow>
     books_agree named holds known pend l d \<and> keys_claimed ustr known pend l d \<and> store_ok d"

text \<open>What a row written later leaves of the claims.\<close>

definition grown :: "earn_db \<Rightarrow> earn_db \<Rightarrow> bool" where
  "grown d d' \<longleftrightarrow>
     (\<forall>i. reversed_in d i \<longrightarrow> reversed_in d' i) \<and> (\<forall>report. credited d report \<longrightarrow> credited d' report) \<and>
     (\<forall>i ref. linked d i ref \<longrightarrow> linked d' i ref)"

section \<open>Keys\<close>

context uuid_text
begin

lemma idempotency_key_for_inj:
  assumes "idempotency_key_for ustr i cause to = idempotency_key_for ustr i' cause' to'"
  shows "i = i' \<and> cause = cause' \<and> to = to'"
proof -
  have "ustr i @ '':cause:'' @ ustr cause @ '':to:'' @ to = ustr i' @ '':cause:'' @ ustr cause' @ '':to:'' @ to'"
    using assms by (simp add: idempotency_key_for_def)
  then have "ustr i = ustr i'" "ustr cause @ '':to:'' @ to = ustr cause' @ '':to:'' @ to'"
    by (auto simp: append_eq_append_conv ustr_length)
  then show ?thesis by (auto simp: append_eq_append_conv ustr_length dest: ustr_inj)
qed

lemma opening_key_inj:
  assumes "opening_key ustr r to = opening_key ustr r' to'"
  shows "r = r' \<and> to = to'"
  using assms by (auto simp: opening_key_def append_eq_append_conv ustr_length dest: ustr_inj)

end

lemma keys_differ: "idempotency_key_for ustr i cause to \<noteq> opening_key ustr' r to'"
  by (simp add: idempotency_key_for_def opening_key_def)

section \<open>What posting a movement does\<close>

definition serves ::
  "(bool \<Rightarrow> account_ref \<Rightarrow> currency \<Rightarrow> 'l \<Rightarrow> (wallet_error + account_id) \<times> 'l) \<Rightarrow>
   (bool \<Rightarrow> instant \<Rightarrow> transfer \<Rightarrow> 'l \<Rightarrow> (wallet_error + transfer_ref) \<times> 'l) \<Rightarrow>
   (uuid \<Rightarrow> string) \<Rightarrow> 'l machine \<Rightarrow> bool" where
  "serves ensure post ustr M \<longleftrightarrow> ensure_op M = ensure \<and> post_op M = post \<and> uuid_str M = ustr"

definition move_effect :: "account_id \<Rightarrow> account_id \<Rightarrow> int \<Rightarrow> account_id \<Rightarrow> int" where
  "move_effect source target n acct =
     (if acct = target then n else 0) - (if acct = source then n else 0)"

lemma two_legs_net:
  "sint (minor debit) = - sint (minor amt) \<Longrightarrow>
     account_net (postings (two_legs key source debit target amt)) acct =
       move_effect source target (sint (minor amt)) acct"
  by (simp add: two_legs_def net_at_def new_leg_def move_effect_def)

locale entry_books = ledger_names ensure post named holds known sound + uuid_text ustr
  for ensure post named holds known sound and ustr :: "uuid \<Rightarrow> string"
begin

abbreviation the_books :: "string set \<Rightarrow> 'a \<Rightarrow> earn_db \<Rightarrow> bool" where
  "the_books \<equiv> books ustr named holds known"

lemma ensured:
  assumes "serves ensure post ustr M" and "sound (ledger w)" and "call_ensure M r c w = (y, v)"
  shows "sound (ledger v) \<and> holds (ledger v) = holds (ledger w) \<and> known (ledger v) = known (ledger w)"
    and "y = Inr acct \<Longrightarrow> acct = named r c \<and> ref_validate r = None \<and> currency_valid c"
proof -
  have e: "ensure (ctx_done w) r c (ledger w) = (y, ledger v)"
    using assms(1,3) by (auto simp: call_ensure_def serves_def split: prod.splits)
  then show "sound (ledger v) \<and> holds (ledger v) = holds (ledger w) \<and> known (ledger v) = known (ledger w)"
    using ensure_sound [OF assms(2)] ensure_holds ensure_known by (metis snd_conv)
  show "y = Inr acct \<Longrightarrow> acct = named r c \<and> ref_validate r = None \<and> currency_valid c"
    using ensure_answer e by blast
qed

text \<open>A transfer accepted under a key: it answers for the key from now on, and it moved its net if the
  key was new and nothing if it was not.\<close>

definition accepted :: "string \<Rightarrow> (account_id \<Rightarrow> int) \<Rightarrow> transfer_ref \<Rightarrow> 'a \<Rightarrow> 'a \<Rightarrow> bool" where
  "accepted key net ref l l' \<longleftrightarrow>
     (\<exists>u. known l' key = Some (u, ref) \<and> (\<forall>a. account_net (postings u) a = net a) \<and>
        (if known l key = None
         then known l' = (known l)(key \<mapsto> (u, ref)) \<and> (\<forall>a. holds l' a = holds l a + net a)
         else known l' = known l \<and> holds l' = holds l))"

lemma asked_to_post:
  assumes M: "serves ensure post ustr M" and l: "sound (ledger w)" and p: "call_post M t w = (y, v)"
  shows "sound (ledger v)" and "y = Inl e \<Longrightarrow> ledger v = ledger w"
    and "y = Inr ref \<Longrightarrow> accepted (idempotency_key t) (account_net (postings t)) ref (ledger w) (ledger v)"
proof -
  have po: "post (ctx_done w) (clock w) t (ledger w) = (y, ledger v)"
    using p M by (auto simp: call_post_def serves_def split: prod.splits)
  then show "sound (ledger v)" using post_sound [OF l] by (metis snd_conv)
  show "y = Inl e \<Longrightarrow> ledger v = ledger w" using post_refused po by blast
  assume "y = Inr ref"
  with po have po: "post (ctx_done w) (clock w) t (ledger w) = (Inr ref, ledger v)" by simp
  show "accepted (idempotency_key t) (account_net (postings t)) ref (ledger w) (ledger v)"
  proof (cases "known (ledger w) (idempotency_key t)")
    case None
    then show ?thesis
      using post_remembered [OF l po None] post_new [OF l po None] same_transfer_net
      by (fastforce simp: accepted_def)
  next
    case (Some pr)
    then obtain u r0 where old: "known (ledger w) (idempotency_key t) = Some (u, r0)" by (cases pr) auto
    from post_known [OF l po old] old same_transfer_net show ?thesis
      by (fastforce simp: accepted_def)
  qed
qed

abbreviation movement_effect :: "movement \<Rightarrow> amount \<Rightarrow> account_id \<Rightarrow> int" where
  "movement_effect mv amt \<equiv>
     move_effect (named (mv_from mv) (currency_of amt)) (named (mv_to mv) (currency_of amt)) (sint (minor amt))"

lemma post_movement_outcome:
  assumes M: "serves ensure post ustr M" and l: "sound (ledger w)"
    and p: "post_movement M mv amt key w = (x, v)"
  shows "db v = db w" and "sound (ledger v)"
    and "x = Inl e \<Longrightarrow> holds (ledger v) = holds (ledger w) \<and> known (ledger v) = known (ledger w)"
    and "x = Inr ref \<Longrightarrow> ref_validate (mv_from mv) = None \<and> ref_validate (mv_to mv) = None \<and>
       currency_valid (currency_of amt) \<and>
       accepted key (movement_effect mv amt) ref (ledger w) (ledger v)"
proof -
  show "db v = db w" using keepsD [OF post_movement_same_db p] by (simp add: same_db_def)
  have "sound (ledger v) \<and>
     (\<forall>e. x = Inl e \<longrightarrow> holds (ledger v) = holds (ledger w) \<and> known (ledger v) = known (ledger w)) \<and>
     (\<forall>ref. x = Inr ref \<longrightarrow> ref_validate (mv_from mv) = None \<and> ref_validate (mv_to mv) = None \<and>
       currency_valid (currency_of amt) \<and> accepted key (movement_effect mv amt) ref (ledger w) (ledger v))"
    using p
  proof (cases rule: post_movement_cases)
    case (first e)
    then show ?thesis using ensured(1) [OF M l first(1)] by simp
  next
    case (second source w1 e)
    note e1 = ensured(1) [OF M l second(1)]
    then show ?thesis using ensured(1) [OF M _ second(2)] second(3) by simp
  next
    case (negated source w1 target e)
    note e1 = ensured(1) [OF M l negated(1)]
    then show ?thesis using ensured(1) [OF M _ negated(2)] negated(3) by simp
  next
    case (asked source w1 target w2 debit y)
    note e1 = ensured [OF M l asked(1)]
    note e2 = ensured [OF M e1(1) [THEN conjunct1] asked(2)]
    note e3 = asked_to_post [OF M e2(1) [THEN conjunct1] asked(4)]
    have "sint (minor debit) = - sint (minor amt)"
      using asked(3) by (auto simp: neg_amount_Inr sint_neg64)
    then have net: "account_net (postings (two_legs key source debit target amt)) = movement_effect mv amt"
      using e1(2) e2(2) by (intro ext) (simp add: two_legs_net)
    have key: "idempotency_key (two_legs key source debit target amt) = key" by (simp add: two_legs_def)
    show ?thesis
    proof (cases y)
      case (Inl e)
      with e3(1,2) e1(1) e2(1) asked(5) show ?thesis by simp
    next
      case (Inr ref)
      with e3(3) have "accepted key (movement_effect mv amt) ref (ledger w2) (ledger v)"
        by (simp add: net key)
      then have "accepted key (movement_effect mv amt) ref (ledger w) (ledger v)"
        using e1(1) e2(1) unfolding accepted_def by metis
      with e3(1) e1(2) e2(2) Inr asked(5) show ?thesis by simp
    qed
  qed
  then show "sound (ledger v)"
    and "x = Inl e \<Longrightarrow> holds (ledger v) = holds (ledger w) \<and> known (ledger v) = known (ledger w)"
    and "x = Inr ref \<Longrightarrow> ref_validate (mv_from mv) = None \<and> ref_validate (mv_to mv) = None \<and>
       currency_valid (currency_of amt) \<and> accepted key (movement_effect mv amt) ref (ledger w) (ledger v)"
    by blast+
qed

section \<open>Keeping the books\<close>

text \<open>Posting makes the key pending; nothing else about the books changes.\<close>

lemma books_posted:
  assumes b: "the_books pend l d" and a: "accepted key net ref l l'"
  defines "pend' \<equiv> (if known l key = None then insert key pend else pend)"
  shows "the_books pend' l' d"
proof -
  obtain u where u: "known l' key = Some (u, ref)" "\<And>a. account_net (postings u) a = net a"
    and step: "if known l key = None then known l' = (known l)(key \<mapsto> (u, ref)) \<and> (\<forall>a. holds l' a = holds l a + net a)
         else known l' = known l \<and> holds l' = holds l"
    using a by (auto simp: accepted_def)
  show ?thesis
  proof (cases "known l key = None")
    case False
    then show ?thesis
      using b step by (simp add: pend'_def books_def books_agree_def keys_claimed_def pending_net_def)
  next
    case True
    then have new: "key \<notin> pend" and fin: "finite pend"
      using b by (auto simp: books_def books_agree_def)
    have known': "known l' = (known l)(key \<mapsto> (u, ref))" and holds': "\<And>a. holds l' a = holds l a + net a"
      using step True by auto
    have "pending_net known l' pend' a = net a + pending_net known l pend a" for a
    proof -
      have "pending_net known l' pend a = pending_net known l pend a"
        unfolding pending_net_def using new by (intro sum.cong) (auto simp: known')
      then show ?thesis
        using True new fin u by (simp add: pend'_def pending_net_def)
    qed
    then have "books_agree named holds known pend' l' d"
      using b True by (auto simp: books_def books_agree_def pend'_def holds' known')
    moreover have "keys_claimed ustr known pend' l' d"
      using b True unfolding books_def keys_claimed_def pend'_def known'
      by (auto split: if_splits)
    ultimately show ?thesis using b by (simp add: books_def)
  qed
qed

text \<open>Rows that account for exactly what the transfer moved, and claim its key, settle it.\<close>

lemma books_settled:
  assumes b: "the_books pend l d" and key: "key \<in> pend" and u: "known l key = Some (u, ref)"
    and d': "store_ok d'" "grown d d'"
    and claim: "\<And>i cause to. key = idempotency_key_for ustr i cause to \<Longrightarrow>
        if to = StReversed then reversed_in d' i else linked d' i ref"
      "\<And>report to. key = opening_key ustr report to \<Longrightarrow> credited d' report"
    and total: "\<And>m s g c. m \<noteq> nil_uuid \<Longrightarrow> stage_holding s = Some g \<Longrightarrow> currency_valid c \<Longrightarrow>
        stage_total d' m s c = stage_total d m s c + account_net (postings u) (named (member_account m g) c)"
  shows "the_books (pend - {key}) l d'"
proof -
  have fin: "finite pend" using b by (simp add: books_def books_agree_def)
  have "pending_net known l pend a = account_net (postings u) a + pending_net known l (pend - {key}) a" for a
    unfolding pending_net_def using fin key u by (simp add: sum.remove [of _ key])
  then have "books_agree named holds known (pend - {key}) l d'"
    using b total unfolding books_def books_agree_def by auto
  moreover have "keys_claimed ustr known (pend - {key}) l d'"
    unfolding keys_claimed_def
  proof (intro conjI allI impI)
    fix i cause to w r
    assume k: "known l (idempotency_key_for ustr i cause to) = Some (w, r)"
    show "idempotency_key_for ustr i cause to \<in> pend - {key} \<or>
        (if to = StReversed then reversed_in d' i else linked d' i r)"
    proof (cases "idempotency_key_for ustr i cause to = key")
      case True
      with claim(1) [of i cause to] u k show ?thesis by auto
    next
      case False
      moreover have "idempotency_key_for ustr i cause to \<in> pend \<or>
          (if to = StReversed then reversed_in d i else linked d i r)"
        using b k by (simp add: books_def keys_claimed_def)
      ultimately show ?thesis using d'(2) by (auto simp: grown_def split: if_splits)
    qed
  next
    fix report to
    assume k: "known l (opening_key ustr report to) \<noteq> None"
    show "opening_key ustr report to \<in> pend - {key} \<or> credited d' report"
    proof (cases "opening_key ustr report to = key")
      case True
      with claim(2) [of report to] show ?thesis by auto
    next
      case False
      moreover have "opening_key ustr report to \<in> pend \<or> credited d report"
        using b k by (simp add: books_def keys_claimed_def)
      ultimately show ?thesis using d'(2) by (auto simp: grown_def)
    qed
  qed
  ultimately show ?thesis using d'(1) by (simp add: books_def)
qed

text \<open>The books do not depend on anything but the entries and the links.\<close>

lemma books_cong:
  "entries d' = entries d \<Longrightarrow> links d' = links d \<Longrightarrow> the_books pend l d' = the_books pend l d"
  by (simp add: books_def books_agree_def keys_claimed_def stage_total_cong [of d' d] store_ok_cong [of d' d]
      reversed_in_def credited_def linked_def)

lemma books_same_ledger:
  "holds l' = holds l \<Longrightarrow> known l' = known l \<Longrightarrow> the_books pend l' d = the_books pend l d"
  by (simp add: books_def books_agree_def keys_claimed_def pending_net_def)

end

lemma grown_entries:
  assumes "\<And>r. r \<in> set (entries d) \<Longrightarrow> \<exists>r'\<in>set (entries d'). e_reversal_of r' = e_reversal_of r \<and> e_report r' = e_report r"
    and "set (links d) \<subseteq> set (links d')"
  shows "grown d d'"
proof -
  have "reversed_in d' i" if rv: "reversed_in d i" for i
  proof -
    obtain r where "r \<in> set (entries d)" "e_reversal_of r = Some i"
      using rv by (auto simp: reversed_in_def list_ex_iff)
    with assms(1) [of r] show ?thesis by (auto simp: reversed_in_def list_ex_iff)
  qed
  moreover have "credited d' p" if cd: "credited d p" for p
  proof -
    obtain r where "r \<in> set (entries d)" "e_reversal_of r = None" "e_report r = p"
      using cd by (auto simp: credited_def list_ex_iff)
    with assms(1) [of r] show ?thesis by (auto simp: credited_def list_ex_iff)
  qed
  moreover have "linked d i ref \<Longrightarrow> linked d' i ref" for i ref
    using assms(2) by (auto simp: linked_def list_ex_iff)
  ultimately show ?thesis by (simp add: grown_def)
qed

lemma grown_create:
  assumes "create_entry fresh now arg d = (Inr r, d1)" and "entries d' = entries d1"
    and "set (links d) \<subseteq> set (links d')"
  shows "grown d d'"
  using create_entry_Inr(2) [OF assms(1)] assms(2,3) by (intro grown_entries) auto

lemma grown_move:
  assumes "store_ok d" and "move_entry i from to rule d = (Inr r', d1)" and "entries d' = entries d1"
    and "set (links d) \<subseteq> set (links d')"
  shows "grown d d'"
proof (rule grown_entries [OF _ assms(4)])
  fix r
  assume r: "r \<in> set (entries d)"
  obtain o1 where o1: "find_entry d i = Some o1" "r' = o1\<lparr>e_state := to, e_hold_rule := rule\<rparr>"
    and full: "d1 = d\<lparr>entries := update_entry i (\<lambda>_. r') (entries d),
       moved := (if from = to then moved d else (i, from, to) # moved d)\<rparr>"
    using move_entry_Inr [OF assms(2)] by metis
  have e': "entries d' = map (\<lambda>x. if e_id x = i then r' else x) (entries d)"
    by (simp add: assms(3) full update_entry_def)
  have "e_id r = i \<Longrightarrow> r = o1"
    using find_entry_unique [of d r] r o1(1) assms(1) by (auto simp: store_ok_def)
  with o1(2) have "e_reversal_of (if e_id r = i then r' else r) = e_reversal_of r \<and>
      e_report (if e_id r = i then r' else r) = e_report r" by auto
  moreover have "(if e_id r = i then r' else r) \<in> set (entries d')"
    unfolding e' using r by simp
  ultimately show "\<exists>x\<in>set (entries d'). e_reversal_of x = e_reversal_of r \<and> e_report x = e_report r"
    by blast
qed

section \<open>Every operation keeps the books\<close>

definition books_after ::
  "(string set \<Rightarrow> 'l \<Rightarrow> earn_db \<Rightarrow> bool) \<Rightarrow> ('l \<Rightarrow> string \<Rightarrow> (transfer \<times> transfer_ref) option) \<Rightarrow> string \<Rightarrow>
   string set \<Rightarrow> 'l world \<Rightarrow> 'e + 'a \<Rightarrow> 'l world \<Rightarrow> bool" where
  "books_after B known key pend w x v \<longleftrightarrow>
     (\<exists>P. pend \<subseteq> P \<and> P \<subseteq> insert key pend \<and> B P (ledger v) (db w) \<and>
        (known (ledger w) key = None \<longrightarrow> known (ledger v) key \<noteq> None \<longrightarrow> key \<in> P)) \<and>
     (case x of Inl _ \<Rightarrow> True | Inr _ \<Rightarrow> B (pend - {key}) (ledger v) (db v))"

lemma stage_iff: "stage_holding s = Some g \<Longrightarrow> stage_holding s' = Some g' \<Longrightarrow> (g = g') = (s = s')"
  by (auto dest: stage_holding_inj)

context entry_books
begin

lemma claimedD:
  assumes "the_books pend l d"
  shows "known l (idempotency_key_for ustr i cause to) = Some (u, ref) \<Longrightarrow> to \<noteq> StReversed \<Longrightarrow>
      idempotency_key_for ustr i cause to \<in> pend \<or> linked d i ref"
    and "known l (idempotency_key_for ustr i cause StReversed) = Some (u, ref) \<Longrightarrow>
      idempotency_key_for ustr i cause StReversed \<in> pend \<or> reversed_in d i"
    and "known l (opening_key ustr report to) = Some (u, ref) \<Longrightarrow>
      opening_key ustr report to \<in> pend \<or> credited d report"
  using assms unfolding books_def keys_claimed_def by (metis option.distinct(1))+

lemma books_failed:
  assumes "the_books pend l d" and "accepted key net ref l l'"
  shows "\<exists>P. pend \<subseteq> P \<and> P \<subseteq> insert key pend \<and> the_books P l' d \<and>
     (known l key = None \<longrightarrow> known l' key \<noteq> None \<longrightarrow> key \<in> P)"
  using books_posted [OF assms] by (cases "known l key = None") auto

lemma books_unposted:
  assumes "the_books pend (ledger w) d" and "holds l' = holds (ledger w) \<and> known l' = known (ledger w)"
  shows "\<exists>P. pend \<subseteq> P \<and> P \<subseteq> insert key pend \<and> the_books P l' d \<and>
     (known (ledger w) key = None \<longrightarrow> known l' key \<noteq> None \<longrightarrow> key \<in> P)"
  using assms books_same_ledger [of l' "ledger w" pend d] by (intro exI [of _ pend]) auto

lemma accepted_pending:
  assumes b: "the_books pend l d" and a: "accepted key net ref l l'"
    and claim: "\<And>u. known l key = Some (u, ref) \<Longrightarrow> key \<in> pend"
  obtains P u where "key \<in> P" "P - {key} = pend - {key}" "the_books P l' d"
    "known l' key = Some (u, ref)" "\<And>a. account_net (postings u) a = net a"
proof -
  let ?P = "if known l key = None then insert key pend else pend"
  obtain u where u: "known l' key = Some (u, ref)" "\<And>a. account_net (postings u) a = net a"
    and step: "known l key \<noteq> None \<Longrightarrow> known l' = known l"
    using a by (auto simp: accepted_def split: if_splits)
  have "key \<in> ?P"
  proof (cases "known l key = None")
    case False
    with step u(1) have "known l key = Some (u, ref)" by simp
    with claim False show ?thesis by simp
  qed simp
  moreover have "?P - {key} = pend - {key}" by auto
  ultimately show thesis using that books_posted [OF b a] u by blast
qed

lemma apply_books:
  assumes M: "serves ensure post ustr M" and l: "sound (ledger w)" and b: "the_books pend (ledger w) (db w)"
    and row: "find_entry (db w) (mo_entry mo) = Some row" "live (db w) row" "e_account row \<noteq> nil_uuid"
    and mo: "mo_member mo = e_account row" "mo_amount mo = \<lparr>minor = e_minor row, currency_of = e_currency row\<rparr>"
    and run: "apply_move M mo w = (x, v)"
  shows "sound (ledger v) \<and>
     books_after the_books known (idempotency_key_for ustr (mo_entry mo) (mo_cause mo) (mo_to mo)) pend w x v"
  using run
proof (cases rule: apply_move_cases)
  case (early e)
  then show ?thesis using l b by (auto simp: books_after_def)
next
  case (unposted mv e)
  note o = post_movement_outcome [OF M l unposted(3)]
  show ?thesis
    using o(2) books_unposted [OF b o(3)] unposted(4) by (simp add: books_after_def)
next
  case (posted mv ref u)
  let ?key = "idempotency_key_for ustr (mo_entry mo) (mo_cause mo) (mo_to mo)"
  have key: "idempotency_key_for (uuid_str M) (mo_entry mo) (mo_cause mo) (mo_to mo) = ?key"
    using M by (simp add: serves_def)
  note o = post_movement_outcome [OF M l posted(3) [unfolded key]]
  have acc: "accepted ?key (movement_effect mv (mo_amount mo)) ref (ledger w) (ledger u)"
    and cur: "currency_valid (e_currency row)" using o(4) mo(2) by auto
  show ?thesis
  proof (cases x)
    case (Inl e)
    with books_failed [OF b acc] o(2) posted(4) show ?thesis by (simp add: books_after_def)
  next
    case (Inr et)
    then obtain e t where "x = Inr (e, t)" by (cases et) auto
    from posted(5) [OF this] obtain row' d1 tid where
      mv1: "move_entry (mo_entry mo) (mo_from mo) (mo_to mo) (text_or_null (hold_rule_for mo)) (db w) = (Inr row', d1)"
      and ent: "entries (db v) = entries d1"
      and lnk: "links (db v) = links d1 @ [\<lparr>l_transition = tid, l_entry = mo_entry mo, l_ref = ref\<rparr>]"
      and once: "\<forall>k\<in>set (links d1). \<not> (l_ref k = ref \<and> l_entry k = mo_entry mo)"
      unfolding o(1) by blast
    have d1: "links d1 = links (db w)" by (rule move_entry_Inr [OF mv1]) simp
    have not_rev: "mo_to mo \<noteq> StReversed" using posted(1) by (auto simp: can_follow_iff)
    have claim: "?key \<in> pend" if "known (ledger w) ?key = Some (u0, ref)" for u0
    proof -
      have "?key \<in> pend \<or> linked (db w) (mo_entry mo) ref"
        using claimedD(1) [OF b that not_rev] .
      with once d1 show ?thesis by (auto simp: linked_def list_ex_iff)
    qed
    obtain P u1 where P: "?key \<in> P" "P - {?key} = pend - {?key}" "the_books P (ledger u) (db w)"
      and u1: "known (ledger u) ?key = Some (u1, ref)"
      and net: "\<And>a. account_net (postings u1) a = movement_effect mv (mo_amount mo) a"
      by (rule accepted_pending [OF b acc], erule claim, rule that)
    have ok: "store_ok (db w)" using b by (simp add: books_def)
    have "the_books (P - {?key}) (ledger u) (db v)"
    proof (rule books_settled [OF P(3,1) u1])
      show "store_ok (db v)" using store_ok_move [OF ok mv1] store_ok_cong [OF ent] by simp
      show "grown (db w) (db v)" using grown_move [OF ok mv1 ent] lnk d1 by auto
    next
      fix i cause to
      assume "?key = idempotency_key_for ustr i cause to"
      from idempotency_key_for_inj [OF this] not_rev lnk
      show "if to = StReversed then reversed_in (db v) i else linked (db v) i ref"
        by (auto simp: linked_def)
    next
      fix report to
      assume "?key = opening_key ustr report to"
      then show "credited (db v) report" using keys_differ by blast
    next
      fix m s g c
      assume m: "m \<noteq> nil_uuid" "stage_holding s = Some g" "currency_valid c"
      obtain g0 h0 where gh: "stage_holding (mo_from mo) = Some g0" "stage_holding (mo_to mo) = Some h0"
        "mv = \<lparr>mv_from = member_account (e_account row) g0, mv_to = member_account (e_account row) h0\<rparr>"
        using postings_for_follow [OF posted(1), of "mo_member mo" "receivable M"] posted(2) mo(1) by auto
      have "account_net (postings u1) (named (member_account m g) c) =
          (if m = e_account row \<and> g = h0 \<and> c = e_currency row then sint (e_minor row) else 0) -
          (if m = e_account row \<and> g = g0 \<and> c = e_currency row then sint (e_minor row) else 0)"
        using m row(3) cur gh stage_holding_valid
        by (simp add: net mo(2) move_effect_def named_members)
      moreover have "stage_total (db v) m s c = stage_total (db w) m s c +
         (if e_account row = m \<and> e_currency row = c
          then (if s = mo_to mo then sint (e_minor row) else 0) - (if s = mo_from mo then sint (e_minor row) else 0)
          else 0)"
        using stage_total_move [OF ok mv1 row(1,2)] stage_total_cong [OF ent] by simp
      ultimately show "stage_total (db v) m s c =
          stage_total (db w) m s c + account_net (postings u1) (named (member_account m g) c)"
        using stage_iff [OF m(2) gh(1)] stage_iff [OF m(2) gh(2)] by auto
    qed
    with P(2) o(2) posted(4) Inr books_failed [OF b acc] show ?thesis by (simp add: books_after_def)
  qed
qed

lemma open_books:
  assumes M: "serves ensure post ustr M" and l: "sound (ledger w)" and b: "the_books pend (ledger w) (db w)"
    and run: "open_credit M c w = (x, v)"
  shows "sound (ledger v) \<and>
     books_after the_books known (opening_key ustr (cr_report c) (cr_state c)) pend w x v"
  using run
proof (cases rule: open_credit_cases)
  case (early e)
  then show ?thesis using l b by (auto simp: books_after_def)
next
  case (unposted mv row d1 u0 e)
  have l0: "sound (ledger u0)" using l unposted(5) by simp
  note o = post_movement_outcome [OF M l0 unposted(6)]
  show ?thesis
    using o(2) books_unposted [of pend u0 "db w" "ledger v"] b o(3) unposted(5,7)
    by (simp add: books_after_def)
next
  case (posted mv row d1 u0 ref u)
  let ?key = "opening_key ustr (cr_report c) (cr_state c)" and ?s = "cr_state c"
  have key: "opening_key (uuid_str M) (cr_report c) ?s = ?key" using M by (simp add: serves_def)
  have l0: "sound (ledger u0)" using l posted(5) by simp
  note o = post_movement_outcome [OF M l0 posted(6) [unfolded key]]
  have acc: "accepted ?key (movement_effect mv (cr_amount c)) ref (ledger w) (ledger u)"
    and cur: "currency_valid (currency_of (cr_amount c))" and house: "ref_validate (mv_from mv) = None"
    using o(4) posted(5) by auto
  show ?thesis
  proof (cases x)
    case (Inl e)
    with books_failed [OF b acc] o(2) posted(7) show ?thesis by (simp add: books_after_def)
  next
    case (Inr e)
    obtain tid where ent: "entries (db v) = entries d1"
      and lnk: "links (db v) = links d1 @ [\<lparr>l_transition = tid, l_entry = e_id row, l_ref = ref\<rparr>]"
      using posted(8) [OF Inr] o(1) posted(4) by auto
    note cr = create_entry_Inr [OF posted(3)]
    have row: "e_account row = cr_member c" "e_state row = ?s" "e_minor row = minor (cr_amount c)"
      "e_currency row = currency_of (cr_amount c)" "e_reversal_of row = None" "e_report row = cr_report c"
      using cr(1) by (simp_all add: credit_row_def)
    have member: "cr_member c \<noteq> nil_uuid" using posted(1) by (auto simp: credit_validate_def split: if_splits)
    obtain h0 where h0: "stage_holding ?s = Some h0"
      "mv = \<lparr>mv_from = house_account (receivable M), mv_to = member_account (cr_member c) h0\<rparr>"
      using posted(2) by (cases "stage_holding ?s") (auto simp: postings_for_def)
    have claim: "?key \<in> pend" if "known (ledger w) ?key = Some (u1, ref)" for u1
    proof -
      have "?key \<in> pend \<or> credited (db w) (cr_report c)"
        using claimedD(3) [OF b] that by blast
      with cr(5) row show ?thesis by (auto simp: entry_unique_None credited_def list_ex_iff)
    qed
    obtain P u1 where P: "?key \<in> P" "P - {?key} = pend - {?key}" "the_books P (ledger u) (db w)"
      and u1: "known (ledger u) ?key = Some (u1, ref)"
      and net: "\<And>a. account_net (postings u1) a = movement_effect mv (cr_amount c) a"
      by (rule accepted_pending [OF b acc], erule claim, rule that)
    have ok: "store_ok (db w)" using b by (simp add: books_def)
    have d1: "links d1 = links (db w)" by (simp add: cr(2))
    have "the_books (P - {?key}) (ledger u) (db v)"
    proof (rule books_settled [OF P(3,1) u1])
      show "store_ok (db v)" using store_ok_create [OF ok posted(3)] store_ok_cong [OF ent] by simp
      show "grown (db w) (db v)" using grown_create [OF posted(3) ent] lnk d1 by auto
    next
      fix i cause to
      assume "?key = idempotency_key_for ustr i cause to"
      then show "if to = StReversed then reversed_in (db v) i else linked (db v) i ref"
        using keys_differ [of ustr i cause to ustr "cr_report c" ?s] by simp
    next
      fix report to
      assume "?key = opening_key ustr report to"
      from opening_key_inj [OF this] show "credited (db v) report"
        using row ent by (simp add: credited_def cr(2))
    next
      fix m s g c'
      assume m: "m \<noteq> nil_uuid" "stage_holding s = Some g" "currency_valid c'"
      have "account_net (postings u1) (named (member_account m g) c') =
          (if m = cr_member c \<and> g = h0 \<and> c' = currency_of (cr_amount c) then sint (minor (cr_amount c)) else 0)"
        using m member cur h0 house stage_holding_valid not_sym [OF named_house_member [of "receivable M" m g]]
        by (auto simp: net move_effect_def named_members)
      moreover have "stage_total (db v) m s c' = stage_total (db w) m s c' +
         (if e_account row = m \<and> e_state row = s \<and> e_currency row = c' then sint (e_minor row) else 0)"
        using stage_total_credit [OF ok posted(3)] stage_total_cong [OF ent] by (simp add: credit_row_def)
      ultimately show "stage_total (db v) m s c' =
          stage_total (db w) m s c' + account_net (postings u1) (named (member_account m g) c')"
        using stage_iff [OF m(2) h0(1)] row by auto
    qed
    with P(2) o(2) posted(7) Inr books_failed [OF b acc] show ?thesis by (simp add: books_after_def)
  qed
qed

lemma reverse_books:
  assumes M: "serves ensure post ustr M" and l: "sound (ledger w)" and b: "the_books pend (ledger w) (db w)"
    and row: "row \<in> set (entries (db w))" "e_reversal_of row = None" "e_account row \<noteq> nil_uuid"
      "entry_from row = Inr (rv_original rv)"
    and run: "reverse_credit M rv w = (x, v)"
  shows "sound (ledger v) \<and>
     books_after the_books known (idempotency_key_for ustr (e_id row) (rv_report rv) StReversed) pend w x v"
  using run
proof (cases rule: reverse_credit_cases)
  case (early e)
  then show ?thesis using l b by (auto simp: books_after_def)
next
  case (unposted mv e)
  note o = post_movement_outcome [OF M l unposted(3)]
  show ?thesis
    using o(2) books_unposted [OF b o(3)] unposted(4) by (simp add: books_after_def)
next
  case (posted mv ref u)
  let ?o = "rv_original rv" and ?key = "idempotency_key_for ustr (e_id row) (rv_report rv) StReversed"
  have o1: "en_id ?o = e_id row" "en_member ?o = e_account row" "en_state ?o = e_state row"
    "en_amount ?o = \<lparr>minor = e_minor row, currency_of = e_currency row\<rparr>"
    using row(4) by (auto simp: entry_from_Inr)
  have key: "idempotency_key_for (uuid_str M) (en_id ?o) (rv_report rv) StReversed = ?key"
    using M o1 by (simp add: serves_def)
  note o = post_movement_outcome [OF M l posted(3) [unfolded key]]
  have acc: "accepted ?key (movement_effect mv (en_amount ?o)) ref (ledger w) (ledger u)"
    and cur: "currency_valid (e_currency row)" and house: "ref_validate (mv_to mv) = None"
    using o(4) o1(4) by auto
  show ?thesis
  proof (cases x)
    case (Inl e)
    with books_failed [OF b acc] o(2) posted(4) show ?thesis by (simp add: books_after_def)
  next
    case (Inr et)
    then obtain e t where "x = Inr (e, t)" by (cases et) auto
    from posted(5) [OF this] obtain new d1 tid where
      ins: "create_entry (fresh_ids M) (clock u) (reversal_row rv) (db w) = (Inr new, d1)"
      and ent: "entries (db v) = entries d1"
      and lnk: "links (db v) = links d1 @ [\<lparr>l_transition = tid, l_entry = e_id new, l_ref = ref\<rparr>]"
      unfolding o(1) by blast
    note cr = create_entry_Inr [OF ins]
    have new: "e_reversal_of new = Some (e_id row)"
      using cr(1) o1(1) by (simp add: reversal_row_def Let_def)
    obtain g0 where g0: "stage_holding (e_state row) = Some g0"
      "mv = \<lparr>mv_from = member_account (e_account row) g0, mv_to = house_account (receivable M)\<rparr>"
      using posted(1,2) o1 postings_for_reverse by (cases "stage_holding (e_state row)") auto
    have claim: "?key \<in> pend" if "known (ledger w) ?key = Some (u1, ref)" for u1
    proof -
      have "?key \<in> pend \<or> reversed_in (db w) (e_id row)"
        using claimedD(2) [OF b that] .
      with cr(5) new show ?thesis by (auto simp: entry_unique_None reversed_in_def list_ex_iff)
    qed
    obtain P u1 where P: "?key \<in> P" "P - {?key} = pend - {?key}" "the_books P (ledger u) (db w)"
      and u1: "known (ledger u) ?key = Some (u1, ref)"
      and net: "\<And>a. account_net (postings u1) a = movement_effect mv (en_amount ?o) a"
      by (rule accepted_pending [OF b acc], erule claim, rule that)
    have ok: "store_ok (db w)" using b by (simp add: books_def)
    have d1: "links d1 = links (db w)" by (simp add: cr(2))
    have "the_books (P - {?key}) (ledger u) (db v)"
    proof (rule books_settled [OF P(3,1) u1])
      show "store_ok (db v)" using store_ok_create [OF ok ins] store_ok_cong [OF ent] by simp
      show "grown (db w) (db v)" using grown_create [OF ins ent] lnk d1 by auto
    next
      fix i cause to
      assume "?key = idempotency_key_for ustr i cause to"
      from idempotency_key_for_inj [OF this] new ent
      show "if to = StReversed then reversed_in (db v) i else linked (db v) i ref"
        by (auto simp: reversed_in_def cr(2))
    next
      fix report to
      assume "?key = opening_key ustr report to"
      then show "credited (db v) report" using keys_differ by blast
    next
      fix m s g c
      assume m: "m \<noteq> nil_uuid" "stage_holding s = Some g" "currency_valid c"
      have "account_net (postings u1) (named (member_account m g) c) =
          - (if m = e_account row \<and> g = g0 \<and> c = e_currency row then sint (e_minor row) else 0)"
        using m row(3) cur g0 house stage_holding_valid not_sym [OF named_house_member [of "receivable M" m g]]
        by (auto simp: net o1(4) move_effect_def named_members)
      moreover have "stage_total (db v) m s c = stage_total (db w) m s c -
         (if e_account row = m \<and> e_state row = s \<and> e_currency row = c then sint (e_minor row) else 0)"
        using stage_total_reversal [OF ok ins _ row(1,2)] stage_total_cong [OF ent] o1(1)
        by (simp add: reversal_row_def Let_def)
      ultimately show "stage_total (db v) m s c =
          stage_total (db w) m s c + account_net (postings u1) (named (member_account m g) c)"
        using stage_iff [OF m(2) g0(1)] by auto
    qed
    with P(2) o(2) posted(4) Inr books_failed [OF b acc] show ?thesis by (simp add: books_after_def)
  qed
qed

text \<open>Around it, the transaction: the commit writes nothing the books read, and a rollback puts the
  database back.\<close>

lemma within_tx_books:
  assumes "\<And>y u. m w = (y, u) \<Longrightarrow> sound (ledger u) \<and> books_after the_books known key pend w y u"
    and "the_books pend (ledger w) (db w)"
    and "within_tx m w = (x, v)"
  shows "sound (ledger v) \<and> books_after the_books known key pend w x v \<and> (\<forall>e. x = Inl e \<longrightarrow> db v = db w)"
proof -
  obtain y u where run: "m w = (y, u)" by (cases "m w")
  note after = assms(1) [OF run]
  show ?thesis
  proof (cases y)
    case (Inl e)
    with run assms(3) have "x = Inl e" "v = u\<lparr>db := db w\<rparr>" by (simp_all add: in_tx_def)
    with after show ?thesis by (simp add: books_after_def)
  next
    case (Inr a)
    obtain z v' where com: "call_db commit_tx u = (z, v')" by (cases "call_db commit_tx u")
    have lv: "ledger v' = ledger u"
      using keepsD [OF call_db_same_ledger com] by (simp add: same_ledger_def)
    show ?thesis
    proof (cases z)
      case (Inl e)
      have "x = Inl (ErrNotCommitted e)" "v = v'\<lparr>db := db w\<rparr>"
        using assms(3) run \<open>y = Inr a\<close> com Inl by (auto simp: in_tx_def)
      then show ?thesis using after lv by (auto simp: books_after_def)
    next
      case (Inr unit)
      have "x = Inr a" "v = v'"
        using assms(3) run \<open>y = Inr a\<close> com Inr by (auto simp: in_tx_def)
      moreover have "entries (db v') = entries (db u)" "links (db v') = links (db u)"
        using com Inr by (auto simp: call_db_Inr dest: commit_tx_Inr)
      ultimately show ?thesis
        using after lv \<open>y = Inr a\<close> books_cong [of "db v'" "db u"] by (auto simp: books_after_def)
    qed
  qed
qed

end

end
