(* ===== verification/Reservation.thy ===== *)
theory Reservation
  imports Books "HOL-Library.Product_Lexorder"
begin

text \<open>
  \<open>internal/cashback/earnings/reserve.go\<close>: which entries a withdrawal takes (\<open>Covering\<close>,
  \<open>Total\<close>), the two locking reads, and the move of a whole set of entries under one transfer
  (\<open>Reserve\<close>, \<open>Release\<close>, \<open>moveTogether\<close>, \<open>moveOne\<close>).
\<close>

section \<open>Which entries are taken\<close>

fun cover_from :: "amount \<Rightarrow> amount \<Rightarrow> entry list \<Rightarrow> entry list \<Rightarrow> earn_error + entry list \<times> amount" where
  "cover_from want running taken [] =
     (case sub_amount want running of
        Inl e \<Rightarrow> Inl (ErrReservationMoney e)
      | Inr short \<Rightarrow> Inl (ShortConfirmedBalance want running short))"
| "cover_from want running taken (e # es) =
     (if currency_of (en_amount e) \<noteq> currency_of want then Inl ErrMixedBalances
      else case add_amount running (en_amount e) of
          Inl err \<Rightarrow> Inl (ErrReservationMoney err)
        | Inr sm \<Rightarrow>
            if minor want \<le>s minor sm then Inr (taken @ [e], sm)
            else cover_from want sm (taken @ [e]) es)"

definition covering :: "entry list \<Rightarrow> amount \<Rightarrow> earn_error + entry list \<times> amount" where
  "covering es want =
     (case validate_amount want of
        Some _ \<Rightarrow> Inl ErrNothingToReserve
      | None \<Rightarrow>
          if \<not> is_positive want then Inl ErrNothingToReserve
          else case new_amount 0 (currency_of want) of
              Inl e \<Rightarrow> Inl (ErrReservationMoney e)
            | Inr zero \<Rightarrow> cover_from want zero [] es)"

fun total_from :: "amount \<Rightarrow> entry list \<Rightarrow> currency \<Rightarrow> earn_error + amount" where
  "total_from acc [] c = Inr acc"
| "total_from acc (e # es) c =
     (if currency_of (en_amount e) \<noteq> c then Inl ErrMixedBalances
      else case add_amount acc (en_amount e) of
          Inl err \<Rightarrow> Inl (ErrReservationMoney err)
        | Inr sm \<Rightarrow> total_from sm es c)"

definition total :: "entry list \<Rightarrow> currency \<Rightarrow> earn_error + amount" where
  "total es c =
     (case new_amount 0 c of Inl e \<Rightarrow> Inl (ErrReservationMoney e) | Inr zero \<Rightarrow> total_from zero es c)"

section \<open>Reading under a lock\<close>

definition by_age :: "entry_row \<Rightarrow> instant \<times> uuid" where
  "by_age r = (e_created r, e_id r)"

definition confirmed_entries_for :: "uuid \<Rightarrow> currency \<Rightarrow> earn_db \<Rightarrow> (db_error + entry_row list) \<times> earn_db" where
  "confirmed_entries_for m c d =
     (Inr (sort_key by_age (filter (\<lambda>r. e_account r = m \<and> e_currency r = c \<and> e_state r = StConfirmed \<and>
         \<not> reversed_in d (e_id r)) (entries d))), d)"

definition entries_reserved_under :: "transfer_ref \<Rightarrow> earn_db \<Rightarrow> (db_error + entry_row list) \<times> earn_db" where
  "entries_reserved_under ref d =
     (Inr (sort_key by_age (concat (map (\<lambda>r. map (\<lambda>_. r)
         (filter (\<lambda>t. t_entry t = e_id r \<and> t_ref t = ref \<and> t_to t = StReserved) (transitions d)))
         (entries d)))), d)"

fun entries_from :: "entry_row list \<Rightarrow> earn_error + entry list" where
  "entries_from [] = Inr []"
| "entries_from (r # rs) =
     (case entry_from r of
        Inl e \<Rightarrow> Inl e
      | Inr x \<Rightarrow> (case entries_from rs of Inl e \<Rightarrow> Inl e | Inr xs \<Rightarrow> Inr (x # xs)))"

definition confirmed :: "uuid \<Rightarrow> currency \<Rightarrow> 'l world \<Rightarrow> (earn_error + entry list) \<times> 'l world" where
  "confirmed m c =
     and_then (wrap_error ErrReading (call_db (confirmed_entries_for m c))) (\<lambda>rows.
     from_sum (entries_from rows))"

definition reserved :: "transfer_ref \<Rightarrow> 'l world \<Rightarrow> (earn_error + entry list) \<times> 'l world" where
  "reserved ref =
     and_then (wrap_error ErrReading (call_db (entries_reserved_under ref))) (\<lambda>rows.
     from_sum (entries_from rows))"

section \<open>Moving a set under one transfer\<close>

record reservation =
  rs_transfer :: transfer_ref
  rs_entries :: "entry list"
  rs_amount :: amount

definition reservation_key :: "(uuid \<Rightarrow> string) \<Rightarrow> uuid \<Rightarrow> string" where
  "reservation_key ustr cause = ''withdrawal:'' @ ustr cause @ '':reserve''"

definition release_key :: "(uuid \<Rightarrow> string) \<Rightarrow> uuid \<Rightarrow> string" where
  "release_key ustr cause = ''withdrawal:'' @ ustr cause @ '':release''"

definition move_one ::
  "'l machine \<Rightarrow> entry_state \<Rightarrow> entry_state \<Rightarrow> transfer_ref \<Rightarrow> entry \<Rightarrow> 'l world \<Rightarrow> (earn_error + entry) \<times> 'l world" where
  "move_one M from to ref e =
     and_then (wrap_error moved_error (call_db (move_entry (en_id e) from to None))) (\<lambda>row.
     and_then (record_move M (en_id e) from to ref [] nil_uuid) (\<lambda>t.
     and_then (announce_state_changed M t) (\<lambda>_.
     from_sum (entry_from row))))"

fun set_fault :: "uuid \<Rightarrow> entry_state \<Rightarrow> entry_state \<Rightarrow> entry list \<Rightarrow> earn_error option" where
  "set_fault m from to [] = None"
| "set_fault m from to (e # es) =
     (if en_member e \<noteq> m then Some ErrManyMembers
      else if en_state e \<noteq> from then Some (ErrIllegalTransition (en_state e) to)
      else set_fault m from to es)"

definition move_together ::
  "'l machine \<Rightarrow> entry list \<Rightarrow> entry_state \<Rightarrow> entry_state \<Rightarrow> string \<Rightarrow> uuid \<Rightarrow>
   'l world \<Rightarrow> (earn_error + reservation) \<times> 'l world" where
  "move_together M es from to key cause =
     (if cause = nil_uuid then refuse ErrNoReservationCause
      else case es of
          [] \<Rightarrow> refuse ErrNothingToReserve
        | e0 # _ \<Rightarrow>
            (case set_fault (en_member e0) from to es of
               Some err \<Rightarrow> refuse err
             | None \<Rightarrow>
     and_then (from_sum (total es (currency_of (en_amount e0)))) (\<lambda>sm.
     if \<not> is_positive sm then refuse ErrNothingToReserve
     else
     and_then (from_sum (postings_for (en_member e0) from to (receivable M))) (\<lambda>mv.
     and_then (post_movement M mv sm key) (\<lambda>ref.
     and_then (for_each (move_one M from to ref) es) (\<lambda>moved.
     give \<lparr>rs_transfer = ref, rs_entries = moved, rs_amount = sm\<rparr>))))))"

definition reserve :: "'l machine \<Rightarrow> entry list \<Rightarrow> uuid \<Rightarrow> 'l world \<Rightarrow> (earn_error + reservation) \<times> 'l world" where
  "reserve M taking cause =
     move_together M taking StConfirmed StReserved (reservation_key (uuid_str M) cause) cause"

definition release :: "'l machine \<Rightarrow> entry list \<Rightarrow> uuid \<Rightarrow> 'l world \<Rightarrow> (earn_error + reservation) \<times> 'l world" where
  "release M releasing cause =
     move_together M releasing StReserved StConfirmed (release_key (uuid_str M) cause) cause"

section \<open>What covering takes\<close>

definition entry_sum :: "entry list \<Rightarrow> int" where
  "entry_sum es = (\<Sum>e\<leftarrow>es. sint (minor (en_amount e)))"

lemma entry_sum_simps [simp]:
  "entry_sum [] = 0" "entry_sum (e # es) = sint (minor (en_amount e)) + entry_sum es"
  "entry_sum (es @ fs) = entry_sum es + entry_sum fs"
  by (simp_all add: entry_sum_def)

lemma cover_from_Inr:
  assumes "cover_from want running taken es = Inr (got, sm)"
    and "sint (minor running) = entry_sum taken" and "entry_sum taken < sint (minor want)"
    and "currency_of running = currency_of want"
  shows "\<exists>before e rest. es = before @ e # rest \<and> got = taken @ before @ [e] \<and>
     sint (minor sm) = entry_sum got \<and> currency_of sm = currency_of want \<and>
     sint (minor want) \<le> entry_sum got \<and> (\<forall>n<length (before @ [e]). entry_sum (taken @ take n (before @ [e])) < sint (minor want)) \<and>
     (\<forall>x\<in>set (before @ [e]). currency_of (en_amount x) = currency_of want)"
  using assms
proof (induction es arbitrary: running taken)
  case Nil
  then show ?case by (auto split: sum.splits)
next
  case (Cons e es)
  have cur: "currency_of (en_amount e) = currency_of want" using Cons.prems(1) by (auto split: if_splits)
  then obtain s where s: "add_amount running (en_amount e) = Inr s"
    using Cons.prems(1) by (auto split: sum.splits)
  note ss = add_amount_sint [OF s]
  show ?case
  proof (cases "minor want \<le>s minor s")
    case True
    with Cons.prems s cur ss show ?thesis
      by (intro exI [of _ "[]"] exI [of _ e] exI [of _ es]) (auto simp: word_sle_iff64)
  next
    case False
    then have run: "cover_from want s (taken @ [e]) es = Inr (got, sm)"
      using Cons.prems(1) s cur by simp
    have "sint (minor s) = entry_sum (taken @ [e])" "entry_sum (taken @ [e]) < sint (minor want)"
      using ss Cons.prems(2) False by (auto simp: word_sle_iff64)
    from Cons.IH [OF run this] ss Cons.prems(4) obtain before e' rest where
      b: "es = before @ e' # rest" "got = (taken @ [e]) @ before @ [e']" "sint (minor sm) = entry_sum got"
      "currency_of sm = currency_of want" "sint (minor want) \<le> entry_sum got"
      "\<forall>n<length (before @ [e']). entry_sum ((taken @ [e]) @ take n (before @ [e'])) < sint (minor want)"
      "\<forall>x\<in>set (before @ [e']). currency_of (en_amount x) = currency_of want" by auto
    have "\<forall>n<length ((e # before) @ [e']). entry_sum (taken @ take n ((e # before) @ [e'])) < sint (minor want)"
    proof (intro allI impI)
      fix n
      assume n: "n < length ((e # before) @ [e'])"
      show "entry_sum (taken @ take n ((e # before) @ [e'])) < sint (minor want)"
      proof (cases n)
        case 0
        with Cons.prems(3) show ?thesis by simp
      next
        case (Suc k)
        with n b(6) show ?thesis by (auto simp: add.assoc)
      qed
    qed
    with b cur show ?thesis
      by (intro exI [of _ "e # before"] exI [of _ e'] exI [of _ rest]) auto
  qed
qed

lemma cover_from_short:
  assumes "cover_from want running taken es = Inl (ShortConfirmedBalance w h s)"
    and "sint (minor running) = entry_sum taken" and "currency_of running = currency_of want"
  shows "w = want \<and> sint (minor h) = entry_sum (taken @ es) \<and>
     sint (minor s) = sint (minor want) - entry_sum (taken @ es)"
  using assms
proof (induction es arbitrary: running taken)
  case Nil
  then show ?case by (auto simp: sub_amount_Inr sint_minus64 split: sum.splits)
next
  case (Cons e es)
  then obtain t where t: "add_amount running (en_amount e) = Inr t" "cover_from want t (taken @ [e]) es = Inl (ShortConfirmedBalance w h s)"
    by (auto split: if_splits sum.splits)
  from Cons.IH [OF t(2)] add_amount_sint [OF t(1)] Cons.prems(2,3) show ?case by simp
qed

text \<open>(C16) Covering: oldest first, whole entries, and no more of them than it takes. What it answers is a
  prefix of the entries whose sum it reports exactly, reaches the amount asked for, and would
  not have reached it one entry earlier; and when it refuses for want of money, the figures it
  names are the whole balance and the exact difference.\<close>

theorem covering_takes_the_shortest_prefix:
  "(\<forall>got sm. covering es want = Inr (got, sm) \<longrightarrow>
      (\<exists>rest. es = got @ rest) \<and> got \<noteq> [] \<and> sint (minor sm) = entry_sum got \<and>
      sint (minor want) \<le> entry_sum got \<and> entry_sum (butlast got) < sint (minor want) \<and>
      (\<forall>n<length got. entry_sum (take n got) < sint (minor want)) \<and>
      list_all (\<lambda>e. currency_of (en_amount e) = currency_of want) got) \<and>
   (\<forall>w h s. covering es want = Inl (ShortConfirmedBalance w h s) \<longrightarrow>
      w = want \<and> sint (minor h) = entry_sum es \<and> sint (minor s) = sint (minor want) - entry_sum es)"
proof (intro conjI allI impI)
  fix got sm
  assume c: "covering es want = Inr (got, sm)"
  define z where "z = \<lparr>minor = 0 :: i64, currency_of = currency_of want\<rparr>"
  have v: "currency_valid (currency_of want)" "is_positive want" "cover_from want z [] es = Inr (got, sm)"
    using c by (auto simp: covering_def validate_amount_def new_amount_def z_def split: if_splits option.splits)
  then obtain before e rest where b: "es = before @ e # rest" "got = before @ [e]"
      "sint (minor sm) = entry_sum got" "sint (minor want) \<le> entry_sum got"
      "\<forall>n<length (before @ [e]). entry_sum (take n (before @ [e])) < sint (minor want)"
      "\<forall>x\<in>set (before @ [e]). currency_of (en_amount x) = currency_of want"
    using cover_from_Inr [OF v(3)] by (auto simp: z_def is_positive_def word_sless_iff64)
  show "\<exists>rest. es = got @ rest" "got \<noteq> []" "sint (minor sm) = entry_sum got"
    "sint (minor want) \<le> entry_sum got" using b by auto
  show "list_all (\<lambda>e. currency_of (en_amount e) = currency_of want) got" using b by (auto simp: list_all_iff)
  show less: "\<And>n. n < length got \<Longrightarrow> entry_sum (take n got) < sint (minor want)"
    using b(2,5) by simp
  show "entry_sum (butlast got) < sint (minor want)"
    using less [of "length got - 1"] b(2) by (simp add: butlast_conv_take)
next
  fix w h s
  assume c: "covering es want = Inl (ShortConfirmedBalance w h s)"
  define z where "z = \<lparr>minor = 0 :: i64, currency_of = currency_of want\<rparr>"
  have "cover_from want z [] es = Inl (ShortConfirmedBalance w h s)"
    using c by (auto simp: covering_def validate_amount_def new_amount_def z_def split: if_splits option.splits)
  from cover_from_short [OF this]
  show "w = want" "sint (minor h) = entry_sum es" "sint (minor s) = sint (minor want) - entry_sum es"
    by (auto simp: z_def)
qed

section \<open>What moving a set does\<close>

lemma find_update:
  assumes "f y = i"
  shows "find (\<lambda>x. f x = j) (map (\<lambda>x. if f x = i then y else x) xs) =
     (if j = i \<and> i \<in> f ` set xs then Some y else find (\<lambda>x. f x = j) xs)"
  using assms by (induction xs) auto

lemma move_entry_find:
  assumes "move_entry i from to rule d = (Inr r', d')" and "find_entry d i = Some r"
  shows "find_entry d' j = (if j = i then Some r' else find_entry d j)"
proof -
  have r': "r' = r\<lparr>e_state := to, e_hold_rule := rule\<rparr>" and full: "d' = d\<lparr>entries := update_entry i (\<lambda>_. r') (entries d),
       moved := (if from = to then moved d else (i, from, to) # moved d)\<rparr>"
    using move_entry_Inr [OF assms(1)] assms(2) by (metis option.inject)+
  have "i \<in> e_id ` set (entries d)" "e_id r' = i" using find_entry_Some [OF assms(2)] r' by auto
  with find_update [of e_id r' i j "entries d"] show ?thesis
    by (auto simp: find_entry_def full update_entry_def)
qed

lemma reversed_in_move:
  assumes "store_ok d" and "move_entry i from to rule d = (Inr r', d')"
  shows "reversed_in d' j = reversed_in d j"
proof -
  obtain r where r: "find_entry d i = Some r" and r': "r' = r\<lparr>e_state := to, e_hold_rule := rule\<rparr>"
    and full: "d' = d\<lparr>entries := update_entry i (\<lambda>_. r') (entries d),
       moved := (if from = to then moved d else (i, from, to) # moved d)\<rparr>"
    using move_entry_Inr [OF assms(2)] by metis
  have "e_reversal_of (if e_id x = i then r' else x) = e_reversal_of x" if "x \<in> set (entries d)" for x
    using find_entry_unique [of d x] that assms(1) r r' by (auto simp: store_ok_def)
  then have "map (\<lambda>x. e_reversal_of (if e_id x = i then r' else x)) (entries d) = map e_reversal_of (entries d)"
    by (intro map_cong) auto
  moreover have "map e_reversal_of (entries d') = map (\<lambda>x. e_reversal_of (if e_id x = i then r' else x)) (entries d)"
    by (simp add: full update_entry_def)
  ultimately have same: "set (map e_reversal_of (entries d')) = set (map e_reversal_of (entries d))" by metis
  have "reversed_in z j \<longleftrightarrow> Some j \<in> set (map e_reversal_of (entries z))" for z
    by (auto simp: reversed_in_def list_ex_iff image_iff) metis
  with same show ?thesis by blast
qed

definition row_of :: "earn_db \<Rightarrow> entry \<Rightarrow> bool" where
  "row_of d e \<longleftrightarrow> (\<exists>row. find_entry d (en_id e) = Some row \<and> live d row \<and> e_account row = en_member e \<and>
     e_minor row = minor (en_amount e) \<and> e_currency row = currency_of (en_amount e))"

definition moved_amount :: "entry_state \<Rightarrow> entry_state \<Rightarrow> entry list \<Rightarrow> uuid \<Rightarrow> entry_state \<Rightarrow> currency \<Rightarrow> int" where
  "moved_amount from to es m s c =
     (\<Sum>e\<leftarrow>es. if en_member e = m \<and> currency_of (en_amount e) = c
              then (if s = to then sint (minor (en_amount e)) else 0) - (if s = from then sint (minor (en_amount e)) else 0)
              else 0)"

lemma move_one_Inr:
  assumes ok: "store_ok (db w)" and row: "row_of (db w) e"
    and run: "move_one M from to ref e w = (Inr e', v)"
  shows "store_ok (db v)" and "grown (db w) (db v)"
    and "stage_total (db v) m s c = stage_total (db w) m s c + moved_amount from to [e] m s c"
    and "row_of (db w) x \<Longrightarrow> row_of (db v) x"
    and "linked (db v) (en_id e) ref"
proof -
  obtain row' d1 u1 t u2 where
    m: "move_entry (en_id e) from to None (db w) = (Inr row', d1)"
    and u1: "u1 = w\<lparr>db := d1, fuse := burn (fuse w)\<rparr>"
    and rec: "record_move M (en_id e) from to ref [] nil_uuid u1 = (Inr t, u2)"
    and ann: "announce_state_changed M t u2 = (Inr (), v)"
    using run by (auto simp: move_one_def effects call_db_Inr)
  have ent: "entries (db v) = entries d1" using record_move_Inr(1) [OF rec] announce_Inr(2) [OF ann] u1 by simp
  have d1: "links d1 = links (db w)" by (rule move_entry_Inr [OF m]) simp
  obtain tid where lnk: "links (db v) = links (db w) @ [\<lparr>l_transition = tid, l_entry = en_id e, l_ref = ref\<rparr>]"
    using record_move_Inr(2) [OF rec] announce_Inr(2) [OF ann] u1 d1 by auto
  obtain row where r: "find_entry (db w) (en_id e) = Some row" "live (db w) row" "e_account row = en_member e"
      "e_minor row = minor (en_amount e)" "e_currency row = currency_of (en_amount e)"
    using row by (auto simp: row_of_def)
  have r': "row' = row\<lparr>e_state := to, e_hold_rule := None\<rparr>"
    using move_entry_Inr [OF m] r(1) by (metis option.inject)
  show "store_ok (db v)" using store_ok_move [OF ok m] store_ok_cong [OF ent] by simp
  show g: "grown (db w) (db v)" using grown_move [OF ok m ent] lnk by auto
  show "stage_total (db v) m s c = stage_total (db w) m s c + moved_amount from to [e] m s c"
    using stage_total_move [OF ok m r(1,2)] stage_total_cong [OF ent] r by (simp add: moved_amount_def)
  show "linked (db v) (en_id e) ref" by (simp add: linked_def lnk)
  show "row_of (db v) x" if x: "row_of (db w) x"
  proof -
    have f: "find_entry (db v) j = (if j = en_id e then Some row' else find_entry (db w) j)" for j
      using move_entry_find [OF m r(1)] ent by (simp add: find_entry_def)
    have rev: "reversed_in (db v) j = reversed_in (db w) j" for j
      using reversed_in_move [OF ok m] ent by (simp add: reversed_in_def)
    obtain xr where xr: "find_entry (db w) (en_id x) = Some xr" "live (db w) xr" "e_account xr = en_member x"
        "e_minor xr = minor (en_amount x)" "e_currency xr = currency_of (en_amount x)"
      using x by (auto simp: row_of_def)
    show ?thesis
    proof (cases "en_id x = en_id e")
      case True
      with xr r(1) have "xr = row" by simp
      with xr True show ?thesis by (auto simp: row_of_def f r' live_def rev)
    next
      case False
      with xr show ?thesis by (auto simp: row_of_def f live_def rev)
    qed
  qed
qed

lemma move_all_Inr:
  assumes "store_ok (db w)" and "\<forall>e\<in>set es. row_of (db w) e"
    and "for_each (move_one M from to ref) es w = (Inr out, v)"
  shows "store_ok (db v) \<and> grown (db w) (db v) \<and> length out = length es \<and>
     (\<forall>m s c. stage_total (db v) m s c = stage_total (db w) m s c + moved_amount from to es m s c) \<and>
     (\<forall>e\<in>set es. linked (db v) (en_id e) ref)"
  using assms
proof (induction es arbitrary: w out)
  case Nil
  then show ?case by (auto simp: effects grown_def moved_amount_def)
next
  case (Cons e es)
  obtain o1 u os where one: "move_one M from to ref e w = (Inr o1, u)"
    and rest: "for_each (move_one M from to ref) es u = (Inr os, v)" and out: "out = o1 # os"
    using Cons.prems(3) by (auto simp: effects)
  have row: "row_of (db w) e" using Cons.prems(2) by simp
  note s = move_one_Inr [OF Cons.prems(1) row one]
  have "\<forall>x\<in>set es. row_of (db u) x" using s(4) Cons.prems(2) by auto
  from Cons.IH [OF s(1) this rest] s(2,3,5) out show ?case
    by (auto simp: grown_def moved_amount_def)
qed

lemma move_one_same_ledger: "keeps same_ledger (move_one M from to ref e)"
  unfolding move_one_def by (intro keeps_intros record_move_same_ledger announcements_same_ledger) auto

lemma total_from_sum:
  "total_from acc es c = Inr t \<Longrightarrow> currency_of acc = c \<Longrightarrow>
     sint (minor t) = sint (minor acc) + entry_sum es \<and> currency_of t = c \<and>
     (\<forall>e\<in>set es. currency_of (en_amount e) = c)"
proof (induction es arbitrary: acc)
  case Nil
  then show ?case by simp
next
  case (Cons e es)
  then obtain a where a: "add_amount acc (en_amount e) = Inr a" "total_from a es c = Inr t"
    by (auto split: if_splits sum.splits)
  from Cons.IH [OF a(2)] add_amount_sint [OF a(1)] Cons.prems show ?case by (auto split: if_splits)
qed

lemma total_sum:
  "total es c = Inr t \<Longrightarrow>
     sint (minor t) = entry_sum es \<and> currency_of t = c \<and> (\<forall>e\<in>set es. currency_of (en_amount e) = c)"
  using total_from_sum [of "\<lparr>minor = 0, currency_of = c\<rparr>" es c t]
  by (auto simp: total_def new_amount_def split: if_splits)

lemma set_fault_None: "set_fault m from to es = None \<longleftrightarrow> (\<forall>e\<in>set es. en_member e = m \<and> en_state e = from)"
  by (induction es) auto

lemma moved_amount_one_member:
  assumes "\<forall>e\<in>set es. en_member e = m0 \<and> currency_of (en_amount e) = c0"
  shows "moved_amount from to es m s c =
     (if m = m0 \<and> c = c0 then (if s = to then entry_sum es else 0) - (if s = from then entry_sum es else 0) else 0)"
  using assms by (induction es) (auto simp: moved_amount_def)

lemma move_together_cases:
  assumes "move_together M es from to key cause w = (x, v)"
  obtains (early) e where "x = Inl e" "v = w"
  | (unposted) mv sm e where "post_movement M mv sm key w = (Inl e, v)" "x = Inl e"
  | (posted) m0 mv sm ref u where "es \<noteq> []" "\<forall>e\<in>set es. en_member e = m0 \<and> en_state e = from"
      "total es (currency_of sm) = Inr sm" "is_positive sm"
      "postings_for m0 from to (receivable M) = Inr mv"
      "post_movement M mv sm key w = (Inr ref, u)" "ledger v = ledger u"
      "\<And>r. x = Inr r \<Longrightarrow> rs_transfer r = ref \<and> rs_amount r = sm \<and>
         for_each (move_one M from to ref) es u = (Inr (rs_entries r), v)"
proof (cases "cause = nil_uuid \<or> es = [] \<or> set_fault (en_member (hd es)) from to es \<noteq> None")
  case True
  have "\<exists>e. (x, v) = (Inl e, w)"
  proof (cases "cause = nil_uuid")
    case True
    with assms show ?thesis by (auto simp: move_together_def refuse_def)
  next
    case False
    with True assms show ?thesis
      by (cases es) (auto simp: move_together_def refuse_def simp del: set_fault.simps)
  qed
  with early show ?thesis by blast
next
  case False
  then obtain e0 rest where es: "es = e0 # rest" and sf: "set_fault (en_member e0) from to es = None" and c: "cause \<noteq> nil_uuid"
    by (cases es) auto
  have run: "and_then (from_sum (total es (currency_of (en_amount e0)))) (\<lambda>sm.
     if \<not> is_positive sm then refuse ErrNothingToReserve
     else
     and_then (from_sum (postings_for (en_member e0) from to (receivable M))) (\<lambda>mv.
     and_then (post_movement M mv sm key) (\<lambda>ref.
     and_then (for_each (move_one M from to ref) es) (\<lambda>moved.
     give \<lparr>rs_transfer = ref, rs_entries = moved, rs_amount = sm\<rparr>)))) w = (x, v)"
    using assms sf c unfolding move_together_def es by simp
  show ?thesis
  proof (cases "total es (currency_of (en_amount e0))")
    case (Inl e)
    with run early show ?thesis by (auto simp: and_then_def from_sum_def)
  next
    case (Inr sm)
    note tot = Inr
    have tc: "total es (currency_of sm) = Inr sm" using total_sum [OF tot] tot by simp
    show ?thesis
    proof (cases "is_positive sm")
      case False
      with run tot early show ?thesis by (auto simp: and_then_def from_sum_def refuse_def)
    next
      case True
      show ?thesis
      proof (cases "postings_for (en_member e0) from to (receivable M)")
        case (Inl e)
        with run tot True early show ?thesis by (auto simp: and_then_def from_sum_def)
      next
        case (Inr mv)
        note mv = Inr
        obtain p u where p: "post_movement M mv sm key w = (p, u)" by (cases "post_movement M mv sm key w")
        show ?thesis
        proof (cases p)
          case (Inl e)
          with run tot True mv p have "x = Inl e" "v = u" by (auto simp: and_then_def from_sum_def)
          with unposted p Inl show ?thesis by blast
        next
          case (Inr ref)
          let ?rest = "and_then (for_each (move_one M from to ref) es) (\<lambda>moved.
             give \<lparr>rs_transfer = ref, rs_entries = moved, rs_amount = sm\<rparr>)"
          have rest: "?rest u = (x, v)"
            using run tot True mv p Inr
            by (simp add: and_then_def [of "from_sum _"] and_then_def [of "post_movement M mv sm key"] from_sum_def)
          have "keeps same_ledger ?rest" by (intro keeps_intros move_one_same_ledger) auto
          then have l: "ledger v = ledger u" using keepsD rest by (fastforce simp: same_ledger_def)
          have "\<forall>e\<in>set es. en_member e = en_member e0 \<and> en_state e = from"
            using sf by (simp add: set_fault_None)
          moreover have "rs_transfer r = ref \<and> rs_amount r = sm \<and>
              for_each (move_one M from to ref) es u = (Inr (rs_entries r), v)" if "x = Inr r" for r
            using rest that by (auto simp: effects)
          ultimately show ?thesis using posted [OF _ _ tc True mv p [unfolded Inr] l] es by blast
        qed
      qed
    qed
  qed
qed

context entry_books
begin

text \<open>Reserving and releasing keep the books as the single moves do, for a key that is new or left over
  from an attempt of the same request that did not commit.\<close>

lemma move_together_books:
  assumes M: "serves ensure post ustr M" and l: "sound (ledger w)" and b: "the_books pend (ledger w) (db w)"
    and rows: "\<forall>e\<in>set es. row_of (db w) e \<and> en_member e \<noteq> nil_uuid"
    and follow: "can_follow from to"
    and mine: "known (ledger w) key = None \<or> key \<in> pend"
    and other: "\<And>i cause to. key \<noteq> idempotency_key_for ustr i cause to" "\<And>r to. key \<noteq> opening_key ustr r to"
    and run: "move_together M es from to key cause w = (x, v)"
  shows "sound (ledger v) \<and> books_after the_books known key pend w x v"
  using run
proof (cases rule: move_together_cases)
  case (early e)
  then show ?thesis using l b by (auto simp: books_after_def)
next
  case (unposted mv sm e)
  note o = post_movement_outcome [OF M l unposted(1)]
  show ?thesis
    using o(2) books_unposted [OF b o(3)] unposted(2) by (simp add: books_after_def)
next
  case (posted m0 mv sm ref u)
  note o = post_movement_outcome [OF M l posted(6)]
  have acc: "accepted key (movement_effect mv sm) ref (ledger w) (ledger u)"
    and cur: "currency_valid (currency_of sm)" using o(4) by auto
  show ?thesis
  proof (cases x)
    case (Inl e)
    with books_failed [OF b acc] o(2) posted(7) show ?thesis by (simp add: books_after_def)
  next
    case (Inr r)
    have m0: "m0 \<noteq> nil_uuid" using posted(1,2) rows by (cases es) auto
    have fe: "for_each (move_one M from to ref) es u = (Inr (rs_entries r), v)"
      using posted(8) [OF Inr] by blast
    have ok: "store_ok (db w)" using b by (simp add: books_def)
    have all: "store_ok (db v) \<and> grown (db w) (db v) \<and>
       (\<forall>m s c. stage_total (db v) m s c = stage_total (db w) m s c + moved_amount from to es m s c)"
      using move_all_Inr [OF _ _ fe] ok rows o(1) by simp
    have claim: "key \<in> pend" if "known (ledger w) key = Some (u0, ref)" for u0
      using mine that by simp
    obtain P u1 where P: "key \<in> P" "P - {key} = pend - {key}" "the_books P (ledger u) (db w)"
      and u1: "known (ledger u) key = Some (u1, ref)"
      and net: "\<And>a. account_net (postings u1) a = movement_effect mv sm a"
      by (rule accepted_pending [OF b acc], erule claim, rule that)
    have "the_books (P - {key}) (ledger u) (db v)"
    proof (rule books_settled [OF P(3,1) u1])
      show "store_ok (db v)" "grown (db w) (db v)" using all by auto
    next
      fix i cause' to'
      assume "key = idempotency_key_for ustr i cause' to'"
      then show "if to' = StReversed then reversed_in (db v) i else linked (db v) i ref" using other(1) by blast
    next
      fix report to'
      assume "key = opening_key ustr report to'"
      then show "credited (db v) report" using other(2) by blast
    next
      fix m s g c
      assume m: "m \<noteq> nil_uuid" "stage_holding s = Some g" "currency_valid c"
      obtain g0 h0 where gh: "stage_holding from = Some g0" "stage_holding to = Some h0"
        "mv = \<lparr>mv_from = member_account m0 g0, mv_to = member_account m0 h0\<rparr>"
        using postings_for_follow [OF follow, of m0 "receivable M"] posted(5) by auto
      note ts = total_sum [OF posted(3)]
      have "account_net (postings u1) (named (member_account m g) c) =
          (if m = m0 \<and> g = h0 \<and> c = currency_of sm then entry_sum es else 0) -
          (if m = m0 \<and> g = g0 \<and> c = currency_of sm then entry_sum es else 0)"
        using m m0 cur gh stage_holding_valid ts
        by (simp add: net move_effect_def named_members)
      moreover have "moved_amount from to es m s c =
         (if m = m0 \<and> c = currency_of sm then (if s = to then entry_sum es else 0) - (if s = from then entry_sum es else 0) else 0)"
        using posted(2) ts by (intro moved_amount_one_member) auto
      ultimately show "stage_total (db v) m s c =
          stage_total (db w) m s c + account_net (postings u1) (named (member_account m g) c)"
        using all stage_iff [OF m(2) gh(1)] stage_iff [OF m(2) gh(2)] by auto
    qed
    with P(2) o(2) posted(7) Inr books_failed [OF b acc] show ?thesis by (simp add: books_after_def)
  qed
qed

end

section \<open>An example\<close>

definition sample_entry :: "uuid \<Rightarrow> i64 \<Rightarrow> entry" where
  "sample_entry i n =
     \<lparr>en_id = i, en_member = 7, en_brand = ''b'', en_report = i, en_click = 0, en_state = StConfirmed,
      en_hold_rule = [], en_amount = \<lparr>minor = n, currency_of = ''EUR''\<rparr>, en_reversal_of = 0, en_created = 0\<rparr>"

lemma sample_covering:
  "covering [sample_entry 1 100, sample_entry 2 200, sample_entry 3 5] \<lparr>minor = 150, currency_of = ''EUR''\<rparr> =
     Inr ([sample_entry 1 100, sample_entry 2 200], \<lparr>minor = 300, currency_of = ''EUR''\<rparr>)"
  "covering [sample_entry 1 100] \<lparr>minor = 150, currency_of = ''EUR''\<rparr> =
     Inl (ShortConfirmedBalance \<lparr>minor = 150, currency_of = ''EUR''\<rparr> \<lparr>minor = 100, currency_of = ''EUR''\<rparr>
       \<lparr>minor = 50, currency_of = ''EUR''\<rparr>)"
  by code_simp+

theorem covering_takes_the_shortest_prefix_witness:
  "entry_sum (butlast [sample_entry 1 100, sample_entry 2 200]) < 150 \<and>
   sint (50 :: i64) = 150 - entry_sum [sample_entry 1 100]"
proof -
  have "entry_sum (butlast [sample_entry 1 100, sample_entry 2 200]) < sint (150 :: i64)"
    using covering_takes_the_shortest_prefix [of "[sample_entry 1 100, sample_entry 2 200, sample_entry 3 5]"
      "\<lparr>minor = 150, currency_of = ''EUR''\<rparr>"] sample_covering(1) by auto
  moreover have "sint (50 :: i64) = sint (150 :: i64) - entry_sum [sample_entry 1 100]"
    using covering_takes_the_shortest_prefix [of "[sample_entry 1 100]"
      "\<lparr>minor = 150, currency_of = ''EUR''\<rparr>"] sample_covering(2) by auto
  ultimately show ?thesis by simp
qed

end
