(* ===== verification/MemoryLedger.thy ===== *)
theory MemoryLedger
  imports LedgerPort "HOL-Library.Product_Lexorder"
begin

text \<open>
  The in-process ledger of \<open>internal/cashback/wallet/memory/memory.go\<close>, the reference
  the other implementations are measured against. The mutex makes every operation
  atomic, so an operation is a function from a ledger to its answer and the ledger
  after it. \<open>ctx\<close> is whether the caller's context is already done; \<open>at\<close> is what the
  injected clock answers; \<open>ustr\<close> renders a UUID and belongs to a library outside the
  repository.
\<close>

section \<open>State\<close>

record mem_account =
  a_currency :: currency
  a_member :: bool
  a_postings :: "posting list"

record recorded =
  r_ref :: transfer_ref
  r_postings :: "posting list"
  r_reference :: string
  r_metadata :: "(string, string) fmap"

record mem_ledger =
  accounts :: "account_id \<rightharpoonup> mem_account"
  transfers :: "string \<rightharpoonup> recorded"
  sequence :: u64

definition new_ledger :: mem_ledger where
  "new_ledger = \<lparr>accounts = Map.empty, transfers = Map.empty, sequence = 0\<rparr>"

section \<open>Operations\<close>

fun balance_from :: "amount \<Rightarrow> posting list \<Rightarrow> money_error + amount" where
  "balance_from acc [] = Inr acc"
| "balance_from acc (p # ps) =
     (case add_amount acc (p_amount p) of Inl e \<Rightarrow> Inl e | Inr s \<Rightarrow> balance_from s ps)"

definition account_balance :: "mem_account \<Rightarrow> money_error + amount" where
  "account_balance a =
     (case zero_amount (a_currency a) of
        Inl e \<Rightarrow> Inl e
      | Inr z \<Rightarrow> balance_from z (a_postings a))"

definition strip_posting :: "posting \<Rightarrow> posting" where
  "strip_posting p = \<lparr>p_account = p_account p, p_amount = p_amount p, p_ref = [], p_at = zero_time\<rparr>"

definition canonical_key :: "posting \<Rightarrow> string \<times> string \<times> int" where
  "canonical_key p = (p_account p, posting_currency p, sint (minor (p_amount p)))"

definition canonical :: "posting list \<Rightarrow> posting list" where
  "canonical ps = sort_key canonical_key (map strip_posting ps)"

definition matches :: "recorded \<Rightarrow> transfer \<Rightarrow> bool" where
  "matches r t =
     (if r_reference r \<noteq> reference t then False
      else if r_metadata r \<noteq> metadata t then False
      else
        (let incoming = canonical (postings t)
         in if length incoming \<noteq> length (r_postings r) then False
            else list_all2
                   (\<lambda>a b. p_account a = p_account b \<and> amount_equal (p_amount a) (p_amount b))
                   incoming (r_postings r)))"

definition account_id :: "(uuid \<Rightarrow> string) \<Rightarrow> account_ref \<Rightarrow> currency \<Rightarrow> account_id" where
  "account_id ustr r c =
     (case ref_member r of
        Some (m, s) \<Rightarrow> ''member/'' @ ustr m @ ''/'' @ stage_string s @ ''/'' @ c
      | None \<Rightarrow>
          ''house/'' @ quote (case ref_house r of Some n \<Rightarrow> n | None \<Rightarrow> []) @ ''/'' @ c)"

definition ensure_account ::
  "(uuid \<Rightarrow> string) \<Rightarrow> bool \<Rightarrow> account_ref \<Rightarrow> currency \<Rightarrow> mem_ledger \<Rightarrow>
   (wallet_error + account_id) \<times> mem_ledger" where
  "ensure_account ustr ctx r c l =
     (case ref_validate r of
        Some e \<Rightarrow> (Inl e, l)
      | None \<Rightarrow>
          (case parse_currency c of
             Inl e \<Rightarrow> (Inl (MoneyFault e), l)
           | Inr _ \<Rightarrow>
               if ctx then (Inl ContextDone, l)
               else
                 (let member = (ref_member r \<noteq> None); acct = account_id ustr r c
                  in (Inr acct,
                      if accounts l acct = None
                      then l\<lparr>accounts := (accounts l)
                             (acct \<mapsto> \<lparr>a_currency = c, a_member = member, a_postings = []\<rparr>)\<rparr>
                      else l))))"

fun check_accounts :: "mem_ledger \<Rightarrow> posting list \<Rightarrow> wallet_error option" where
  "check_accounts l [] = None"
| "check_accounts l (p # ps) =
     (case accounts l (p_account p) of
        None \<Rightarrow> Some ErrUnknownAccount
      | Some a \<Rightarrow>
          if posting_currency p \<noteq> a_currency a then Some (MoneyFault ErrCurrencyMismatch)
          else check_accounts l ps)"

definition member_posting :: "mem_ledger \<Rightarrow> posting \<Rightarrow> bool" where
  "member_posting l p =
     (case accounts l (p_account p) of None \<Rightarrow> False | Some a \<Rightarrow> a_member a)"

fun net_drawn ::
  "mem_ledger \<Rightarrow> posting list \<Rightarrow> (account_id \<rightharpoonup> amount) \<times> account_id list \<Rightarrow>
   wallet_error + ((account_id \<rightharpoonup> amount) \<times> account_id list)" where
  "net_drawn l [] nd = Inr nd"
| "net_drawn l (p # ps) nd =
     (if \<not> member_posting l p then net_drawn l ps nd
      else case accumulate (fst nd) (snd nd) (p_account p) (p_amount p) of
          Inl e \<Rightarrow> Inl (MoneyFault e)
        | Inr nd' \<Rightarrow> net_drawn l ps nd')"

definition judge_account :: "mem_ledger \<Rightarrow> (account_id \<rightharpoonup> amount) \<Rightarrow> account_id \<Rightarrow> wallet_error option" where
  "judge_account l nets acct =
     (case accounts l acct of
        None \<Rightarrow> Some ErrUnknownAccount
      | Some a \<Rightarrow>
          (case account_balance a of
             Inl e \<Rightarrow> Some (MoneyFault e)
           | Inr held \<Rightarrow>
               (case add_amount held (total_at nets acct) of
                  Inl e \<Rightarrow> Some (MoneyFault e)
                | Inr after \<Rightarrow> if is_negative after then Some ErrInsufficientFunds else None)))"

fun judge_drawn :: "mem_ledger \<Rightarrow> (account_id \<rightharpoonup> amount) \<Rightarrow> account_id list \<Rightarrow> wallet_error option" where
  "judge_drawn l nets [] = None"
| "judge_drawn l nets (acct # rest) =
     (case judge_account l nets acct of Some e \<Rightarrow> Some e | None \<Rightarrow> judge_drawn l nets rest)"

definition check_funds :: "mem_ledger \<Rightarrow> posting list \<Rightarrow> wallet_error option" where
  "check_funds l ps =
     (case net_drawn l ps (Map.empty, []) of
        Inl e \<Rightarrow> Some e
      | Inr (nets, drawn) \<Rightarrow> judge_drawn l nets drawn)"

definition stamp :: "transfer_ref \<Rightarrow> instant \<Rightarrow> posting \<Rightarrow> posting" where
  "stamp ref at p = \<lparr>p_account = p_account p, p_amount = p_amount p, p_ref = ref, p_at = at\<rparr>"

fun append_postings ::
  "transfer_ref \<Rightarrow> instant \<Rightarrow> posting list \<Rightarrow> (account_id \<rightharpoonup> mem_account) \<Rightarrow> (account_id \<rightharpoonup> mem_account)" where
  "append_postings ref at [] accts = accts"
| "append_postings ref at (p # ps) accts =
     append_postings ref at ps
       (case accts (p_account p) of
          None \<Rightarrow> accts
        | Some a \<Rightarrow>
            accts(p_account p \<mapsto> a\<lparr>a_postings := a_postings a @ [stamp ref at p]\<rparr>))"

definition mint_ref :: "u64 \<Rightarrow> transfer_ref" where
  "mint_ref n = ''transfer-'' @ dec_nat (unat n)"

definition post ::
  "bool \<Rightarrow> instant \<Rightarrow> transfer \<Rightarrow> mem_ledger \<Rightarrow> (wallet_error + transfer_ref) \<times> mem_ledger" where
  "post ctx at t l =
     (case transfer_validate t of
        Some e \<Rightarrow> (Inl e, l)
      | None \<Rightarrow>
          if ctx then (Inl ContextDone, l)
          else case transfers l (idempotency_key t) of
              Some prior \<Rightarrow>
                (if matches prior t then (Inr (r_ref prior), l)
                 else (Inl ErrIdempotencyConflict, l))
            | None \<Rightarrow>
                (case check_accounts l (postings t) of
                   Some e \<Rightarrow> (Inl e, l)
                 | None \<Rightarrow>
                     (case check_funds l (postings t) of
                        Some e \<Rightarrow> (Inl e, l)
                      | None \<Rightarrow>
                          (let n = sequence l + 1; ref = mint_ref n
                           in (Inr ref,
                               l\<lparr>sequence := n,
                                 accounts := append_postings ref at (postings t) (accounts l),
                                 transfers := (transfers l)
                                   (idempotency_key t \<mapsto>
                                      \<lparr>r_ref = ref, r_postings = canonical (postings t),
                                       r_reference = reference t, r_metadata = metadata t\<rparr>)\<rparr>)))))"

definition balance_of :: "bool \<Rightarrow> account_id \<Rightarrow> currency \<Rightarrow> mem_ledger \<Rightarrow> wallet_error + amount" where
  "balance_of ctx acct c l =
     (if ctx then Inl ContextDone
      else case accounts l acct of
          None \<Rightarrow> Inl ErrUnknownAccount
        | Some a \<Rightarrow>
            if c \<noteq> a_currency a then Inl (MoneyFault ErrCurrencyMismatch)
            else (case account_balance a of Inl e \<Rightarrow> Inl (MoneyFault e) | Inr b \<Rightarrow> Inr b))"

definition snapshot :: "account_id \<Rightarrow> window \<Rightarrow> mem_ledger \<Rightarrow> wallet_error + posting list" where
  "snapshot acct w l =
     (case accounts l acct of
        None \<Rightarrow> Inl ErrUnknownAccount
      | Some a \<Rightarrow> Inr (filter (\<lambda>p. window_contains w (p_at p)) (a_postings a)))"

definition history :: "bool \<Rightarrow> account_id \<Rightarrow> window \<Rightarrow> mem_ledger \<Rightarrow> wallet_error + posting list" where
  "history ctx acct w l =
     (case window_validate w of
        Some e \<Rightarrow> Inl e
      | None \<Rightarrow>
          if ctx then Inl ContextDone
          else case snapshot acct w l of
              Inl e \<Rightarrow> Inl e
            | Inr matched \<Rightarrow> Inr (sort_key p_at matched))"

section \<open>What an account holds\<close>

definition posting_sum :: "posting list \<Rightarrow> int" where
  "posting_sum ps = (\<Sum>p\<leftarrow>ps. sint (minor (p_amount p)))"

definition held :: "mem_ledger \<Rightarrow> account_id \<Rightarrow> int" where
  "held l acct = (case accounts l acct of None \<Rightarrow> 0 | Some a \<Rightarrow> posting_sum (a_postings a))"

lemma posting_sum_Nil [simp]: "posting_sum [] = 0"
  and posting_sum_Cons [simp]: "posting_sum (p # ps) = sint (minor (p_amount p)) + posting_sum ps"
  and posting_sum_append [simp]: "posting_sum (ps @ qs) = posting_sum ps + posting_sum qs"
  by (simp_all add: posting_sum_def)

lemma stamp_simps [simp]:
  "p_account (stamp ref at p) = p_account p" "p_amount (stamp ref at p) = p_amount p"
  "p_ref (stamp ref at p) = ref" "p_at (stamp ref at p) = at"
  "posting_currency (stamp ref at p) = posting_currency p"
  by (simp_all add: stamp_def posting_currency_def)

lemma posting_sum_mset: "mset ps = mset qs \<Longrightarrow> posting_sum ps = posting_sum qs"
proof -
  have "posting_sum xs = (\<Sum>p\<in>#mset xs. sint (minor (p_amount p)))" for xs
    by (induction xs) auto
  then show "mset ps = mset qs \<Longrightarrow> posting_sum ps = posting_sum qs" by simp
qed

lemma posting_sum_stamp [simp]: "posting_sum (map (stamp ref at) ps) = posting_sum ps"
  by (induction ps) auto

lemma account_net_filter: "account_net ps acct = posting_sum (filter (\<lambda>p. p_account p = acct) ps)"
  by (simp add: net_at_def posting_sum_def)

text \<open>The balance the loop computes is the sum of the whole history.\<close>

lemma balance_from_sound:
  "balance_from acc ps = Inr b \<Longrightarrow>
     sint (minor b) = sint (minor acc) + posting_sum ps \<and> currency_of b = currency_of acc"
proof (induction ps arbitrary: acc)
  case Nil
  then show ?case by simp
next
  case (Cons p ps)
  then obtain s where s: "add_amount acc (p_amount p) = Inr s" "balance_from s ps = Inr b"
    by (auto split: sum.splits)
  from Cons.IH [OF s(2)] add_amount_sint [OF s(1)] show ?case by simp
qed

lemma account_balance_sound:
  "account_balance a = Inr b \<Longrightarrow>
     sint (minor b) = posting_sum (a_postings a) \<and> currency_of b = a_currency a"
  by (auto simp: account_balance_def zero_amount_def new_amount_def split: if_splits
      dest: balance_from_sound)

text \<open>The running totals of a history the loop passes through.\<close>

definition prefixes_fit :: "posting list \<Rightarrow> bool" where
  "prefixes_fit ps \<longleftrightarrow> (\<forall>n\<le>length ps. fits64 (posting_sum (take n ps)))"

lemma balance_from_total:
  assumes "currency_valid (currency_of acc)"
    and "\<And>p. p \<in> set ps \<Longrightarrow> posting_currency p = currency_of acc"
    and "\<And>n. n \<le> length ps \<Longrightarrow> fits64 (sint (minor acc) + posting_sum (take n ps))"
  shows "\<exists>b. balance_from acc ps = Inr b"
  using assms
proof (induction ps arbitrary: acc)
  case Nil
  then show ?case by simp
next
  case (Cons p ps)
  define s where "s = \<lparr>minor = minor acc + minor (p_amount p), currency_of = currency_of acc\<rparr>"
  have fit: "fits64 (sint (minor acc) + sint (minor (p_amount p)))"
    using Cons.prems(3) [of 1] by simp
  have s: "add_amount acc (p_amount p) = Inr s"
    using Cons.prems(1,2) fit by (auto simp: add_amount_Inr s_def posting_currency_def)
  have "fits64 (sint (minor s) + posting_sum (take n ps))" if "n \<le> length ps" for n
    using Cons.prems(3) [of "Suc n"] that fit by (simp add: s_def sint_plus64 add.assoc)
  then obtain b where "balance_from s ps = Inr b"
    using Cons.IH [of s] Cons.prems(1,2) by (auto simp: s_def)
  with s show ?case by auto
qed

section \<open>What an accepted transfer does\<close>

lemma check_accounts_None:
  "check_accounts l ps = None \<longleftrightarrow>
     (\<forall>p\<in>set ps. \<exists>a. accounts l (p_account p) = Some a \<and> posting_currency p = a_currency a)"
  by (induction ps) (auto split: option.splits)

lemma append_postings_lookup:
  "append_postings ref at ps accts acct =
     map_option (\<lambda>a. a\<lparr>a_postings :=
        a_postings a @ map (stamp ref at) (filter (\<lambda>p. p_account p = acct) ps)\<rparr>) (accts acct)"
proof (induction ps arbitrary: accts)
  case Nil
  then show ?case by (cases "accts acct") auto
next
  case (Cons p ps)
  show ?case
    by (cases "accts (p_account p)"; cases "accts acct"; cases "p_account p = acct")
      (auto simp: Cons.IH)
qed

lemma append_postings_dom [simp]: "dom (append_postings ref at ps accts) = dom accts"
  by (auto simp: append_postings_lookup dom_def)

lemma post_cases:
  obtains (refused) e where "post ctx at t l = (Inl e, l)"
  | (replayed) prior where "transfers l (idempotency_key t) = Some prior" "matches prior t"
      "transfer_validate t = None" "\<not> ctx" "post ctx at t l = (Inr (r_ref prior), l)"
  | (fresh) "transfers l (idempotency_key t) = None" "transfer_validate t = None" "\<not> ctx"
      "check_accounts l (postings t) = None" "check_funds l (postings t) = None"
      "post ctx at t l = (Inr (mint_ref (sequence l + 1)),
         l\<lparr>sequence := sequence l + 1,
           accounts := append_postings (mint_ref (sequence l + 1)) at (postings t) (accounts l),
           transfers := (transfers l)(idempotency_key t \<mapsto>
              \<lparr>r_ref = mint_ref (sequence l + 1), r_postings = canonical (postings t),
               r_reference = reference t, r_metadata = metadata t\<rparr>)\<rparr>)"
  unfolding post_def Let_def
  by (cases "transfer_validate t"; cases ctx; cases "transfers l (idempotency_key t)";
      cases "check_accounts l (postings t)"; cases "check_funds l (postings t)";
      cases "\<exists>r. transfers l (idempotency_key t) = Some r \<and> matches r t")
    auto

lemma post_refusal_unchanged: "post ctx at t l = (Inl e, l') \<Longrightarrow> l' = l"
  by (cases rule: post_cases [of ctx at t l]) auto

lemma post_held:
  assumes "post ctx at t l = (Inr ref, l')" and "transfers l (idempotency_key t) = None"
  shows "held l' acct = held l acct + account_net (postings t) acct"
proof (cases rule: post_cases [of ctx at t l])
  case fresh
  show ?thesis
  proof (cases "accounts l acct")
    case None
    with fresh(4) have "acct \<notin> p_account ` set (postings t)"
      by (auto simp: check_accounts_None)
    with None fresh(6) assms(1) show ?thesis
      by (auto simp: held_def append_postings_lookup net_at_unseen)
  next
    case (Some a)
    with fresh(6) assms(1) show ?thesis
      by (auto simp: held_def append_postings_lookup account_net_filter)
  qed
qed (use assms in auto)

section \<open>The funds check\<close>

lemma nets_of_total:
  assumes "nets_of key amt ps mo" and "k \<in> key ` set ps"
  shows "sint (minor (total_at (fst mo) k)) = net_at key amt ps k"
proof -
  obtain a where "fst mo k = Some a"
    using assms unfolding nets_of_def by (cases "fst mo k") auto
  then show ?thesis using assms(1) by (simp add: nets_of_def total_at_def)
qed

lemma net_drawn_Inr:
  assumes "net_drawn l qs nd = Inr nd'" and "nets_of p_account p_amount ps nd"
  shows "nets_of p_account p_amount (ps @ filter (member_posting l) qs) nd'"
  using assms
proof (induction qs arbitrary: nd ps)
  case Nil
  then show ?case by simp
next
  case (Cons q qs)
  show ?case
  proof (cases "member_posting l q")
    case False
    with Cons.prems Cons.IH [of nd ps] show ?thesis by simp
  next
    case True
    then obtain m where m: "accumulate (fst nd) (snd nd) (p_account q) (p_amount q) = Inr m"
        "net_drawn l qs m = Inr nd'"
      using Cons.prems(1) by (auto split: sum.splits)
    from nets_of_accumulate [OF Cons.prems(2) m(1)] m(2) True Cons.IH [of m "ps @ [q]"]
    show ?thesis by simp
  qed
qed

lemma judge_drawn_None:
  "judge_drawn l nets drawn = None \<longleftrightarrow> (\<forall>acct\<in>set drawn. judge_account l nets acct = None)"
  by (induction drawn) (auto split: option.splits)

lemma judge_account_None:
  assumes "judge_account l nets acct = None"
  shows "0 \<le> held l acct + sint (minor (total_at nets acct))"
    and "fits64 (held l acct + sint (minor (total_at nets acct)))"
proof -
  obtain a h where a: "accounts l acct = Some a" "account_balance a = Inr h"
    using assms by (auto simp: judge_account_def split: option.splits sum.splits)
  then obtain b where b: "add_amount h (total_at nets acct) = Inr b" "\<not> is_negative b"
    using assms by (auto simp: judge_account_def split: sum.splits if_splits)
  have h: "sint (minor h) = held l acct"
    using account_balance_sound [OF a(2)] by (simp add: held_def a(1))
  show "0 \<le> held l acct + sint (minor (total_at nets acct))"
    using add_amount_sint [OF b(1)] b(2) h by (simp add: is_negative_def word_sless_iff64)
  show "fits64 (held l acct + sint (minor (total_at nets acct)))"
    using b(1) h by (simp add: add_amount_Inr)
qed

definition is_member :: "mem_ledger \<Rightarrow> account_id \<Rightarrow> bool" where
  "is_member l acct \<longleftrightarrow> (case accounts l acct of None \<Rightarrow> False | Some a \<Rightarrow> a_member a)"

lemma account_net_members:
  "is_member l acct \<Longrightarrow> account_net (filter (member_posting l) ps) acct = account_net ps acct"
  by (induction ps) (auto simp: net_at_Cons member_posting_def is_member_def)

text \<open>A transfer the check lets through leaves no member account it touches below zero, judged on
  the net of its postings and not on any one of them.\<close>

lemma check_funds_None:
  assumes "check_funds l ps = None" and "is_member l acct" and "acct \<in> p_account ` set ps"
  shows "0 \<le> held l acct + account_net ps acct"
proof -
  obtain nets drawn where nd: "net_drawn l ps (Map.empty, []) = Inr (nets, drawn)"
      and judged: "judge_drawn l nets drawn = None"
    using assms(1) by (auto simp: check_funds_def split: sum.splits)
  have nets: "nets_of p_account p_amount (filter (member_posting l) ps) (nets, drawn)"
    using net_drawn_Inr [OF nd, of "[]"] by simp
  obtain p where p: "p \<in> set ps" "p_account p = acct" using assms(3) by blast
  with assms(2) have "member_posting l p" by (simp add: member_posting_def is_member_def)
  with p have mem: "acct \<in> p_account ` set (filter (member_posting l) ps)" by auto
  with nets have "acct \<in> set drawn" by (simp add: nets_of_def)
  then have "0 \<le> held l acct + sint (minor (total_at nets acct))"
    using judged judge_account_None(1) by (auto simp: judge_drawn_None)
  moreover have "sint (minor (total_at nets acct)) = account_net ps acct"
    using nets_of_total [OF nets mem] account_net_members [OF assms(2)] by simp
  ultimately show ?thesis by simp
qed

section \<open>The invariant\<close>

definition account_wf :: "account_id \<Rightarrow> mem_account \<Rightarrow> bool" where
  "account_wf acct a \<longleftrightarrow>
     currency_valid (a_currency a) \<and>
     (\<forall>p\<in>set (a_postings a). p_account p = acct \<and> posting_currency p = a_currency a)"

definition in_currency :: "mem_ledger \<Rightarrow> currency \<Rightarrow> account_id set" where
  "in_currency l c = {acct. \<exists>a. accounts l acct = Some a \<and> a_currency a = c}"

definition wf_ledger :: "mem_ledger \<Rightarrow> bool" where
  "wf_ledger l \<longleftrightarrow>
     finite (dom (accounts l)) \<and>
     (\<forall>acct a. accounts l acct = Some a \<longrightarrow> account_wf acct a) \<and>
     (\<forall>acct. is_member l acct \<longrightarrow> 0 \<le> held l acct) \<and>
     (\<forall>c. (\<Sum>acct\<in>in_currency l c. held l acct) = 0)"

lemma wf_new_ledger: "wf_ledger new_ledger"
  by (simp add: wf_ledger_def new_ledger_def is_member_def in_currency_def)

lemma ensure_cases:
  obtains (refused) e where "ensure_account ustr ctx r c l = (Inl e, l)"
  | (known) a where "ref_validate r = None" "currency_valid c"
      "accounts l (account_id ustr r c) = Some a"
      "ensure_account ustr ctx r c l = (Inr (account_id ustr r c), l)"
  | (opened) "ref_validate r = None" "currency_valid c"
      "accounts l (account_id ustr r c) = None"
      "ensure_account ustr ctx r c l =
         (Inr (account_id ustr r c),
          l\<lparr>accounts := (accounts l)(account_id ustr r c \<mapsto>
             \<lparr>a_currency = c, a_member = (ref_member r \<noteq> None), a_postings = []\<rparr>)\<rparr>)"
  unfolding ensure_account_def parse_currency_def Let_def
  by (cases "ref_validate r"; cases "currency_valid c"; cases ctx;
      cases "accounts l (account_id ustr r c)") auto

lemma ensure_refusal_unchanged: "ensure_account ustr ctx r c l = (Inl e, l') \<Longrightarrow> l' = l"
  by (cases rule: ensure_cases [of ustr ctx r c l]) auto

lemma ensure_named:
  "ensure_account ustr ctx r c l = (Inr acct, l') \<Longrightarrow>
     acct = account_id ustr r c \<and> acct \<in> dom (accounts l') \<and> transfers l' = transfers l \<and>
     sequence l' = sequence l"
  by (cases rule: ensure_cases [of ustr ctx r c l]) auto

lemma ensure_held: "held (snd (ensure_account ustr ctx r c l)) acct = held l acct"
  by (cases rule: ensure_cases [of ustr ctx r c l]) (auto simp: held_def)

lemma wf_ensure:
  assumes "wf_ledger l"
  shows "wf_ledger (snd (ensure_account ustr ctx r c l))"
proof (cases rule: ensure_cases [of ustr ctx r c l])
  case opened
  let ?k = "account_id ustr r c" and ?l = "snd (ensure_account ustr ctx r c l)"
  have held: "held ?l acct = held l acct" for acct by (rule ensure_held)
  have new: "held ?l ?k = 0" using opened by (simp add: held_def)
  have fin: "finite (in_currency l d)" for d
    using assms by (auto simp: wf_ledger_def in_currency_def intro: rev_finite_subset)
  have cur: "in_currency ?l d = (if d = c then insert ?k (in_currency l d) else in_currency l d)" for d
    using opened by (auto simp: in_currency_def)
  have "?k \<notin> in_currency l d" for d using opened by (simp add: in_currency_def)
  then have "(\<Sum>acct\<in>in_currency ?l d. held ?l acct) = (\<Sum>acct\<in>in_currency l d. held l acct)" for d
    using fin new held by (simp add: cur)
  moreover have "is_member ?l acct \<Longrightarrow> 0 \<le> held ?l acct" for acct
    using assms opened new held by (cases "acct = ?k") (auto simp: wf_ledger_def is_member_def)
  ultimately show ?thesis
    using assms opened unfolding wf_ledger_def by (auto simp: account_wf_def)
qed (use assms in auto)

lemma posting_sum_restricted:
  assumes "finite A" and "\<And>p. p \<in> set ps \<Longrightarrow> p_account p \<in> A \<longleftrightarrow> posting_currency p = c"
  shows "(\<Sum>acct\<in>A. account_net ps acct) = net_at posting_currency p_amount ps c"
  using assms(2)
proof (induction ps)
  case Nil
  then show ?case by simp
next
  case (Cons p ps)
  have "(\<Sum>acct\<in>A. account_net (p # ps) acct) =
      (\<Sum>acct\<in>A. if p_account p = acct then sint (minor (p_amount p)) else 0) +
      (\<Sum>acct\<in>A. account_net ps acct)"
    by (simp add: net_at_Cons sum.distrib)
  also have "(\<Sum>acct\<in>A. if p_account p = acct then sint (minor (p_amount p)) else 0) =
      (if p_account p \<in> A then sint (minor (p_amount p)) else 0)"
    using assms(1) by simp
  finally show ?case using Cons by (simp add: net_at_Cons)
qed

lemma wf_post:
  assumes "wf_ledger l"
  shows "wf_ledger (snd (post ctx at t l))"
proof (cases rule: post_cases [of ctx at t l])
  case fresh
  let ?l = "snd (post ctx at t l)" and ?ps = "postings t"
  obtain ref where post: "post ctx at t l = (Inr ref, ?l)"
    using fresh(6) by simp
  have held: "held ?l acct = held l acct + account_net ?ps acct" for acct
    using post_held [OF post fresh(1)] .
  have known: "\<exists>a. accounts l (p_account p) = Some a \<and> posting_currency p = a_currency a"
    if "p \<in> set ?ps" for p
    using fresh(4) that by (simp add: check_accounts_None)
  have acct: "accounts ?l acct = map_option (\<lambda>a. a\<lparr>a_postings :=
      a_postings a @ map (stamp (mint_ref (sequence l + 1)) at)
        (filter (\<lambda>p. p_account p = acct) ?ps)\<rparr>) (accounts l acct)" for acct
    by (simp add: fresh(6) append_postings_lookup)
  have cur: "in_currency ?l c = in_currency l c" for c
    by (auto simp: in_currency_def acct)
  have mem: "is_member ?l a = is_member l a" for a
    by (cases "accounts l a") (auto simp: is_member_def acct)
  have fin: "finite (in_currency l c)" for c
    using assms by (auto simp: wf_ledger_def in_currency_def intro: rev_finite_subset)
  have "account_wf a b" if acc: "accounts ?l a = Some b" for a b
  proof -
    obtain b0 where b0: "accounts l a = Some b0" using acc acct [of a] by (cases "accounts l a") auto
    then have "account_wf a b0" using assms by (simp add: wf_ledger_def)
    moreover have "posting_currency p = a_currency b0" if "p \<in> set ?ps" "p_account p = a" for p
      using known [OF that(1)] that(2) b0 by simp
    ultimately show ?thesis using acc b0 by (auto simp: acct account_wf_def)
  qed
  moreover have "0 \<le> held ?l a" if "is_member l a" for a
  proof (cases "a \<in> p_account ` set ?ps")
    case True
    then show ?thesis using check_funds_None [OF fresh(5) that] by (simp add: held)
  next
    case False
    then show ?thesis using assms that by (simp add: held net_at_unseen wf_ledger_def)
  qed
  moreover have "(\<Sum>a\<in>in_currency l c. held ?l a) = 0" for c
  proof -
    have "p_account p \<in> in_currency l c \<longleftrightarrow> posting_currency p = c" if "p \<in> set ?ps" for p
      using known [OF that] by (auto simp: in_currency_def)
    then have "(\<Sum>a\<in>in_currency l c. account_net ?ps a) = currency_net ?ps c"
      using fin by (intro posting_sum_restricted) auto
    then show ?thesis
      using assms transfer_validate_None(4) [OF fresh(2), of c]
      by (simp add: held sum.distrib wf_ledger_def)
  qed
  moreover have "finite (dom (accounts ?l))"
    using assms by (simp add: fresh(6) wf_ledger_def)
  ultimately show ?thesis
    unfolding wf_ledger_def by (auto simp: cur mem)
qed (use assms in auto)

section \<open>Idempotency\<close>

lemma canonical_key_inj: "inj_on canonical_key (strip_posting ` A)"
  by (auto simp: inj_on_def canonical_key_def strip_posting_def posting_currency_def
      sint_eq_iff64)

lemma canonical_key_strip [simp]: "canonical_key (strip_posting p) = canonical_key p"
  by (simp add: canonical_key_def strip_posting_def posting_currency_def)

lemma canonical_entries: "mset (map entry_of (canonical ps)) = mset (map entry_of ps)"
proof -
  have "entry_of \<circ> strip_posting = entry_of" by (simp add: fun_eq_iff entry_of_def strip_posting_def)
  then show ?thesis by (simp add: canonical_def image_mset.compositionality)
qed

lemma canonical_strips: "map strip_posting (canonical ps) = canonical ps"
proof -
  have "strip_posting (strip_posting p) = strip_posting p" for p by (simp add: strip_posting_def)
  then show ?thesis by (intro map_idI) (auto simp: canonical_def)
qed

lemma canonical_eq_iff:
  "canonical ps = canonical qs \<longleftrightarrow> mset (map entry_of ps) = mset (map entry_of qs)"
proof
  assume "canonical ps = canonical qs"
  then show "mset (map entry_of ps) = mset (map entry_of qs)"
    by (metis canonical_entries)
next
  assume eq: "mset (map entry_of ps) = mset (map entry_of qs)"
  let ?mk = "\<lambda>e. \<lparr>p_account = fst e, p_amount = snd e, p_ref = [], p_at = zero_time\<rparr>"
  have strip: "map strip_posting xs = map ?mk (map entry_of xs)" for xs
    by (simp add: strip_posting_def entry_of_def)
  have "mset (map strip_posting ps) = mset (map strip_posting qs)"
    unfolding strip mset_map [of ?mk] using eq by metis
  then have "sort_key canonical_key (map strip_posting ps) =
      sort_key canonical_key (map strip_posting qs)"
    by (intro sort_key_inj_key_eq) (auto intro: canonical_key_inj [THEN inj_on_subset])
  then show "canonical ps = canonical qs"
    by (simp add: canonical_def)
qed

lemma list_all2_entries:
  "list_all2 (\<lambda>a b. p_account a = p_account b \<and> amount_equal (p_amount a) (p_amount b)) ps qs
     \<longleftrightarrow> map entry_of ps = map entry_of qs"
  by (induction ps qs rule: list_induct2')
    (auto simp: entry_of_def amount_equal_def)

lemma canonical_eq_entries:
  "map entry_of (canonical ps) = map entry_of (canonical qs) \<longleftrightarrow> canonical ps = canonical qs"
  using canonical_eq_iff canonical_entries by metis

text \<open>A recorded transfer keeps its postings in canonical order; a key is reused correctly exactly
  when the transfer presented says the same thing.\<close>

lemma matches_iff:
  assumes "r_postings r = canonical (postings u)"
    and "r_reference r = reference u" and "r_metadata r = metadata u"
  shows "matches r t \<longleftrightarrow> same_transfer t u"
proof -
  have "matches r t \<longleftrightarrow> reference u = reference t \<and> metadata u = metadata t \<and>
      map entry_of (canonical (postings t)) = map entry_of (canonical (postings u))"
    unfolding matches_def Let_def assms list_all2_entries
    by (auto dest: map_eq_imp_length_eq)
  then show ?thesis
    by (auto simp: same_transfer_def canonical_eq_entries canonical_eq_iff)
qed

section \<open>Account names\<close>

lemma stage_string_inj: "stage_valid s \<Longrightarrow> stage_valid s' \<Longrightarrow> stage_string s = stage_string s' \<Longrightarrow> s = s'"
  by (cases s; cases s') auto

lemma currency_valid_length: "currency_valid c \<Longrightarrow> length c = 3"
  by (auto simp: currency_valid_def split: if_splits)

lemma ref_validate_None:
  "ref_validate r = None \<longleftrightarrow>
     (kind r = KindMember \<and> member_of r \<noteq> nil_uuid \<and> stage_valid (stage_of r)) \<or>
     (kind r = KindHouse \<and> house_of r \<noteq> [] \<and> house_of r = trim_space (house_of r))"
  by (auto simp: ref_validate_def split: account_kind.splits)

lemma append_same_length_inj:
  "xs @ ys = xs' @ ys' \<Longrightarrow> length ys = length ys' \<Longrightarrow> xs = xs' \<and> ys = ys'"
  by simp

context uuid_text
begin

lemma account_id_inj:
  assumes "ref_validate r = None" and "ref_validate r' = None"
    and "currency_valid c" and "currency_valid c'"
    and "account_id ustr r c = account_id ustr r' c'"
  shows "ref_member r = ref_member r' \<and> ref_house r = ref_house r' \<and> c = c'"
proof -
  have len: "length c = length c'" using assms(3,4) by (simp add: currency_valid_length)
  consider (member) "kind r = KindMember" "kind r' = KindMember"
    | (house) "kind r = KindHouse" "kind r' = KindHouse"
    | (mixed) "kind r = KindMember \<and> kind r' = KindHouse \<or> kind r = KindHouse \<and> kind r' = KindMember"
    using assms(1,2) by (auto simp: ref_validate_None)
  then show ?thesis
  proof cases
    case member
    have "(ustr (member_of r) @ ''/'' @ stage_string (stage_of r) @ ''/'') @ c =
        (ustr (member_of r') @ ''/'' @ stage_string (stage_of r') @ ''/'') @ c'"
      using assms(5) member by (simp add: account_id_def ref_member_def)
    from append_same_length_inj [OF this len]
    have c: "c = c'" and "ustr (member_of r) @ ''/'' @ stage_string (stage_of r) @ ''/'' =
        ustr (member_of r') @ ''/'' @ stage_string (stage_of r') @ ''/''" by auto
    then have "ustr (member_of r) = ustr (member_of r')" "stage_string (stage_of r) = stage_string (stage_of r')"
      by (auto simp: append_eq_append_conv ustr_length)
    with c member assms(1,2) show ?thesis
      by (auto simp: ref_member_def ref_house_def ref_validate_None dest: ustr_inj stage_string_inj)
  next
    case house
    have "(quote (house_of r) @ ''/'') @ c = (quote (house_of r') @ ''/'') @ c'"
      using assms(5) house by (simp add: account_id_def ref_member_def ref_house_def)
    from append_same_length_inj [OF this len] house show ?thesis
      by (simp add: ref_member_def ref_house_def)
  next
    case mixed
    with assms(5) show ?thesis by (auto simp: account_id_def ref_member_def)
  qed
qed

end

section \<open>What is recorded, and the whole invariant\<close>

definition mem_known :: "mem_ledger \<Rightarrow> string \<Rightarrow> (transfer \<times> transfer_ref) option" where
  "mem_known l k =
     map_option (\<lambda>r. (\<lparr>idempotency_key = k, postings = r_postings r, reference = r_reference r,
                      metadata = r_metadata r\<rparr>, r_ref r)) (transfers l k)"

definition records_ok :: "mem_ledger \<Rightarrow> bool" where
  "records_ok l \<longleftrightarrow> (\<forall>k r. transfers l k = Some r \<longrightarrow> canonical (r_postings r) = r_postings r)"

definition names_ok :: "(uuid \<Rightarrow> string) \<Rightarrow> mem_ledger \<Rightarrow> bool" where
  "names_ok ustr l \<longleftrightarrow>
     (\<forall>acct a. accounts l acct = Some a \<longrightarrow>
        (\<exists>r. ref_validate r = None \<and> acct = account_id ustr r (a_currency a) \<and>
             a_member a = (ref_member r \<noteq> None)))"

text \<open>Every account's holding is the sum of what the recorded transfers did to it.\<close>

definition audited :: "mem_ledger \<Rightarrow> bool" where
  "audited l \<longleftrightarrow> finite (dom (transfers l)) \<and>
     (\<forall>acct. held l acct = (\<Sum>k\<in>dom (transfers l). account_net (r_postings (the (transfers l k))) acct))"

definition sound_ledger :: "(uuid \<Rightarrow> string) \<Rightarrow> mem_ledger \<Rightarrow> bool" where
  "sound_ledger ustr l \<longleftrightarrow> wf_ledger l \<and> records_ok l \<and> names_ok ustr l \<and> audited l"

lemma sound_records: "sound_ledger ustr l \<Longrightarrow> records_ok l"
  by (simp add: sound_ledger_def)

lemma sound_new_ledger: "sound_ledger ustr new_ledger"
  by (simp add: sound_ledger_def wf_new_ledger)
    (simp add: records_ok_def names_ok_def audited_def new_ledger_def held_def)

lemma canonical_net: "account_net (canonical ps) acct = account_net ps acct"
  unfolding account_net_entries canonical_entries ..

lemma canonical_idem [simp]: "canonical (canonical ps) = canonical ps"
  unfolding canonical_eq_iff canonical_entries ..

lemma sound_ensure:
  assumes "sound_ledger ustr l"
  shows "sound_ledger ustr (snd (ensure_account ustr ctx r c l))"
proof -
  let ?l = "snd (ensure_account ustr ctx r c l)"
  have "transfers ?l = transfers l"
    by (cases rule: ensure_cases [of ustr ctx r c l]) auto
  moreover have "names_ok ustr ?l"
  proof (cases rule: ensure_cases [of ustr ctx r c l])
    case opened
    with assms show ?thesis by (auto simp: sound_ledger_def names_ok_def)
  qed (use assms in \<open>auto simp: sound_ledger_def\<close>)
  ultimately show ?thesis
    using assms wf_ensure by (auto simp: sound_ledger_def records_ok_def audited_def ensure_held)
qed

lemma sound_post:
  assumes "sound_ledger ustr l"
  shows "sound_ledger ustr (snd (post ctx at t l))"
proof (cases rule: post_cases [of ctx at t l])
  case fresh
  let ?l = "snd (post ctx at t l)" and ?k = "idempotency_key t"
  obtain ref where post: "post ctx at t l = (Inr ref, ?l)" using fresh(6) by simp
  have tr: "transfers ?l = (transfers l)(?k \<mapsto> \<lparr>r_ref = mint_ref (sequence l + 1),
      r_postings = canonical (postings t), r_reference = reference t, r_metadata = metadata t\<rparr>)"
    by (simp add: fresh(6))
  have acct: "accounts ?l = append_postings (mint_ref (sequence l + 1)) at (postings t) (accounts l)"
    by (simp add: fresh(6))
  have fin: "finite (dom (transfers l))" and new: "?k \<notin> dom (transfers l)"
    using assms fresh(1) by (auto simp: sound_ledger_def audited_def)
  have "(\<Sum>k\<in>dom (transfers ?l). account_net (r_postings (the (transfers ?l k))) a) =
      account_net (postings t) a + (\<Sum>k\<in>dom (transfers l). account_net (r_postings (the (transfers ?l k))) a)" for a
    using fin new by (simp add: tr canonical_net del: fun_upd_apply) (simp add: canonical_net)
  moreover have "(\<Sum>k\<in>dom (transfers l). account_net (r_postings (the (transfers ?l k))) a) =
      (\<Sum>k\<in>dom (transfers l). account_net (r_postings (the (transfers l k))) a)" for a
    using new by (intro sum.cong) (auto simp: tr)
  ultimately have "audited ?l"
    using assms fin post_held [OF post fresh(1)] by (auto simp: sound_ledger_def audited_def tr)
  moreover have "records_ok ?l"
    using assms by (auto simp: sound_ledger_def records_ok_def tr)
  moreover have "names_ok ustr ?l"
    using assms by (fastforce simp: sound_ledger_def names_ok_def acct append_postings_lookup)
  ultimately show ?thesis
    using assms wf_post by (auto simp: sound_ledger_def)
qed (use assms in auto)

lemma known_postings:
  assumes "records_ok l" and "mem_known l k = Some (u, ref)"
  obtains r where "transfers l k = Some r" "r_ref r = ref" "r_postings r = canonical (postings u)"
    "r_reference r = reference u" "r_metadata r = metadata u"
  using assms by (auto simp: mem_known_def records_ok_def)

lemma post_known_cases:
  assumes "records_ok l" and "mem_known l (idempotency_key t) = Some (u, ref)"
    and "transfer_validate t = None"
  shows "post False at t l =
     (if same_transfer t u then (Inr ref, l) else (Inl ErrIdempotencyConflict, l))"
proof -
  obtain r where r: "transfers l (idempotency_key t) = Some r" "r_ref r = ref"
      "r_postings r = canonical (postings u)" "r_reference r = reference u" "r_metadata r = metadata u"
    using known_postings [OF assms(1,2)] by metis
  show ?thesis using r(1,2) matches_iff [OF r(3-5), of t] assms(3) by (simp add: post_def)
qed

lemma post_remembers:
  assumes "post ctx at t l = (Inr ref, l')" and "mem_known l (idempotency_key t) = None"
  shows "\<exists>u. same_transfer t u \<and> mem_known l' = (mem_known l)(idempotency_key t \<mapsto> (u, ref))"
proof (cases rule: post_cases [of ctx at t l])
  case fresh
  let ?u = "\<lparr>idempotency_key = idempotency_key t, postings = canonical (postings t),
     reference = reference t, metadata = metadata t\<rparr>"
  have "same_transfer t ?u"
    using canonical_entries [of "postings t"] by (simp add: same_transfer_def del: mset_map)
  moreover have "mem_known l' = (mem_known l)(idempotency_key t \<mapsto> (?u, ref))"
    using fresh(6) assms(1) by (auto simp: mem_known_def fun_eq_iff)
  ultimately show ?thesis by blast
qed (use assms in \<open>auto simp: mem_known_def\<close>)

lemma names_member:
  assumes "uuid_text ustr" and "names_ok ustr l" and "wf_ledger l" and "ref_validate r = None"
    and "currency_valid c" and "accounts l (account_id ustr r c) = Some a"
  shows "a_member a = (ref_member r \<noteq> None)"
proof -
  obtain r' where r': "ref_validate r' = None" "account_id ustr r c = account_id ustr r' (a_currency a)"
      "a_member a = (ref_member r' \<noteq> None)"
    using assms(2,6) unfolding names_ok_def by metis
  have "currency_valid (a_currency a)" using assms(3,6) by (auto simp: wf_ledger_def account_wf_def)
  from uuid_text.account_id_inj [OF assms(1,4) r'(1) assms(5) this r'(2)] r'(3)
  show ?thesis by simp
qed

sublocale uuid_text \<subseteq> memory: ledger_names "ensure_account ustr" post "account_id ustr" held mem_known "sound_ledger ustr"
proof
  fix l :: mem_ledger and ctx :: bool and r c
  show "held (snd (ensure_account ustr ctx r c l)) = held l"
    by (rule ext) (rule ensure_held)
  show "mem_known (snd (ensure_account ustr ctx r c l)) = mem_known l"
    by (cases rule: ensure_cases [of ustr ctx r c l]) (auto simp: mem_known_def)
next
  fix l :: mem_ledger and r c
  assume l: "sound_ledger ustr l" and r: "ref_validate r = None" "ref_member r \<noteq> None" "currency_valid c"
  show "0 \<le> held l (account_id ustr r c)"
  proof (cases "accounts l (account_id ustr r c)")
    case None
    then show ?thesis by (simp add: held_def)
  next
    case (Some a)
    then have "is_member l (account_id ustr r c)"
      using names_member [OF uuid_text_axioms _ _ r(1,3), of l a] l r(2)
      by (auto simp: sound_ledger_def is_member_def)
    with l show ?thesis by (simp add: sound_ledger_def wf_ledger_def)
  qed
next
  fix l l' :: mem_ledger and ctx at t ref u ref0
  assume l: "sound_ledger ustr l" and p: "post ctx at t l = (Inr ref, l')"
    and k: "mem_known l (idempotency_key t) = Some (u, ref0)"
  have "transfers l (idempotency_key t) \<noteq> None" using k by (auto simp: mem_known_def)
  then have v: "transfer_validate t = None" and c: "\<not> ctx"
    using p by (cases rule: post_cases [of ctx at t l]; auto)+
  have "records_ok l" using l by (simp add: sound_ledger_def)
  from post_known_cases [OF this k v] p c show "same_transfer t u \<and> ref = ref0 \<and> l' = l"
    by (auto split: if_splits)
next
  fix l l' :: mem_ledger and ctx at t ref
  assume "post ctx at t l = (Inr ref, l')"
  then show "transfer_validate t = None"
    by (cases rule: post_cases [of ctx at t l]) auto
next
  fix l l' :: mem_ledger and ctx at t ref acct
  assume "post ctx at t l = (Inr ref, l')" "mem_known l (idempotency_key t) = None"
  then show "held l' acct = held l acct + account_net (postings t) acct"
    by (intro post_held) (auto simp: mem_known_def)
next
  fix l l' :: mem_ledger and ctx r c acct
  assume "ensure_account ustr ctx r c l = (Inr acct, l')"
  then show "acct = account_id ustr r c \<and> ref_validate r = None \<and> currency_valid c"
    by (cases rule: ensure_cases [of ustr ctx r c l]) auto
qed (auto intro: sound_ensure sound_post post_remembers simp: post_known_cases [OF sound_records]
    dest: ensure_named post_refusal_unchanged account_id_inj)

section \<open>Every ledger the operations can reach\<close>

inductive ledger_step :: "(uuid \<Rightarrow> string) \<Rightarrow> mem_ledger \<Rightarrow> mem_ledger \<Rightarrow> bool" for ustr where
  step_ensure: "ledger_step ustr l (snd (ensure_account ustr ctx r c l))"
| step_post: "ledger_step ustr l (snd (post ctx at t l))"

inductive ledger_run :: "(uuid \<Rightarrow> string) \<Rightarrow> mem_ledger \<Rightarrow> mem_ledger \<Rightarrow> bool" for ustr where
  run_here: "ledger_run ustr l l"
| run_step: "ledger_run ustr l m \<Longrightarrow> ledger_step ustr m n \<Longrightarrow> ledger_run ustr l n"

lemma run_sound: "ledger_run ustr l m \<Longrightarrow> sound_ledger ustr l \<Longrightarrow> sound_ledger ustr m"
proof (induction rule: ledger_run.induct)
  case (run_step l m n)
  from run_step.hyps(2) run_step.IH [OF run_step.prems] show ?case
    by cases (auto intro: sound_ensure sound_post)
qed

lemma step_keeps_record:
  assumes "ledger_step ustr l m" and "transfers l k = Some r"
  shows "transfers m k = Some r"
  using assms(1)
proof cases
  case (step_ensure ctx rf c)
  then show ?thesis using assms(2) by (cases rule: ensure_cases [of ustr ctx rf c l]) auto
next
  case (step_post ctx at t)
  then show ?thesis using assms(2) by (cases rule: post_cases [of ctx at t l]) auto
qed

lemma run_keeps_record: "ledger_run ustr l m \<Longrightarrow> transfers l k = Some r \<Longrightarrow> transfers m k = Some r"
  by (induction rule: ledger_run.induct) (auto intro: step_keeps_record)

lemma run_keeps_known: "ledger_run ustr l m \<Longrightarrow> mem_known l k = Some v \<Longrightarrow> mem_known m k = Some v"
  using run_keeps_record by (fastforce simp: mem_known_def)

text \<open>References: the n-th transfer recorded is named for n, so two keys never share one while
  fewer than \<open>2 ^ 64\<close> transfers have been recorded.\<close>

definition refs_numbered :: "mem_ledger \<Rightarrow> bool" where
  "refs_numbered l \<longleftrightarrow> finite (dom (transfers l)) \<and>
     (card (dom (transfers l)) < 2 ^ 64 \<longrightarrow>
        unat (sequence l) = card (dom (transfers l)) \<and>
        (\<forall>k r. transfers l k = Some r \<longrightarrow> (\<exists>n. 0 < n \<and> n \<le> card (dom (transfers l)) \<and>
           r_ref r = ''transfer-'' @ dec_nat n)) \<and>
        (\<forall>j k r s. transfers l j = Some r \<longrightarrow> transfers l k = Some s \<longrightarrow> r_ref r = r_ref s \<longrightarrow> j = k))"

lemma unat_Suc64: "unat (w :: u64) + 1 < 2 ^ 64 \<Longrightarrow> unat (w + 1) = unat w + 1"
  by (simp add: unat_word_ariths unsigned_1)

lemma refs_numbered_post:
  assumes "refs_numbered l"
  shows "refs_numbered (snd (post ctx at t l))"
proof (cases rule: post_cases [of ctx at t l])
  case fresh
  let ?l = "snd (post ctx at t l)" and ?k = "idempotency_key t" and ?n = "card (dom (transfers l))"
  define ref where "ref = mint_ref (sequence l + 1)"
  have tr: "transfers ?l = (transfers l)(?k \<mapsto> \<lparr>r_ref = ref, r_postings = canonical (postings t),
      r_reference = reference t, r_metadata = metadata t\<rparr>)" and sq: "sequence ?l = sequence l + 1"
    by (simp_all add: fresh(6) ref_def)
  have fin: "finite (dom (transfers l))" using assms by (simp add: refs_numbered_def)
  have card: "card (dom (transfers ?l)) = Suc ?n"
    using fresh(1) fin by (simp add: tr domIff)
  have fin': "finite (dom (transfers ?l))" using fin by (simp add: tr)
  have body: "unat (sequence ?l) = Suc ?n \<and>
      (\<forall>k r. transfers ?l k = Some r \<longrightarrow> (\<exists>m. 0 < m \<and> m \<le> Suc ?n \<and> r_ref r = ''transfer-'' @ dec_nat m)) \<and>
      (\<forall>j k r s. transfers ?l j = Some r \<longrightarrow> transfers ?l k = Some s \<longrightarrow> r_ref r = r_ref s \<longrightarrow> j = k)"
    if small: "Suc ?n < 2 ^ 64"
  proof -
    have seq: "unat (sequence l) = ?n"
      and old: "\<And>k r. transfers l k = Some r \<Longrightarrow> \<exists>m. 0 < m \<and> m \<le> ?n \<and> r_ref r = ''transfer-'' @ dec_nat m"
      and inj: "\<And>j k r s. transfers l j = Some r \<Longrightarrow> transfers l k = Some s \<Longrightarrow> r_ref r = r_ref s \<Longrightarrow> j = k"
      using assms small unfolding refs_numbered_def by (auto simp del: One_nat_def)
    have next_seq: "unat (sequence l + 1) = Suc ?n"
      using unat_Suc64 [of "sequence l"] seq small by simp
    then have ref: "ref = ''transfer-'' @ dec_nat (Suc ?n)" by (simp add: ref_def mint_ref_def)
    have other: "r_ref r \<noteq> ref" if "transfers l k = Some r" for k r
      using old [OF that] by (auto simp: ref)
    have num: "\<exists>m. 0 < m \<and> m \<le> Suc ?n \<and> r_ref r = ''transfer-'' @ dec_nat m"
      if "transfers ?l k = Some r" for k r
    proof (cases "k = ?k")
      case True
      then have "r_ref r = ref" using that by (auto simp: tr)
      then show ?thesis unfolding ref by blast
    next
      case False
      then show ?thesis using that old [of k r] le_SucI unfolding tr fun_upd_apply by metis
    qed
    have uniq: "j = k" if "transfers ?l j = Some r" "transfers ?l k = Some s" "r_ref r = r_ref s" for j k r s
      using that other [of j r] other [of k s] inj [of j r k s]
      by (cases "j = ?k"; cases "k = ?k") (auto simp: tr)
    have len: "unat (sequence ?l) = Suc ?n" unfolding sq by (rule next_seq)
    show ?thesis
      by (intro conjI allI impI; (rule len | erule num | erule (2) uniq))
  qed
  show ?thesis
    unfolding refs_numbered_def card by (rule conjI [OF fin' impI [OF body]])
qed (use assms in auto)

lemma run_refs: "ledger_run ustr l m \<Longrightarrow> refs_numbered l \<Longrightarrow> refs_numbered m"
proof (induction rule: ledger_run.induct)
  case (run_step l m n)
  from run_step.hyps(2) have "refs_numbered m \<Longrightarrow> refs_numbered n"
  proof cases
    case (step_ensure ctx rf c)
    then show "refs_numbered m \<Longrightarrow> refs_numbered n"
      by (cases rule: ensure_cases [of ustr ctx rf c m]) (auto simp: refs_numbered_def)
  qed (auto intro: refs_numbered_post)
  with run_step show ?case by blast
qed

lemma refs_new_ledger: "refs_numbered new_ledger"
  by (simp add: refs_numbered_def new_ledger_def)

lemma sort_key_at_stable: "filter (\<lambda>p. p_at p = k) (sort_key p_at ps) = filter (\<lambda>p. p_at p = k) ps"
  by (rule sort_key_stable)

section \<open>Properties\<close>

text \<open>(C4) C-1 at rest: in every ledger the operations can reach, what all the accounts of a currency
  hold together is zero, no member account is below zero, and what any account holds is the sum
  of what the recorded transfers posted to it.\<close>

theorem reachable_ledger_conserves:
  assumes "ledger_run ustr new_ledger l"
  shows "(\<Sum>acct\<in>in_currency l c. held l acct) = 0 \<and>
     (is_member l acct \<longrightarrow> 0 \<le> held l acct) \<and>
     held l acct = (\<Sum>k\<in>dom (transfers l). account_net (r_postings (the (transfers l k))) acct)"
  using run_sound [OF assms sound_new_ledger]
  by (auto simp: sound_ledger_def wf_ledger_def audited_def)

text \<open>(C5) C-2: a transfer is recorded at most once under its key, for good. Whatever happens to the
  ledger after it was accepted, presenting the key again answers the reference of the first
  time and changes nothing when the transfer says the same thing, whatever order its postings
  come in, and is refused without a change when it says anything else.\<close>

theorem posted_exactly_once:
  assumes "ledger_run ustr new_ledger l" and "post ctx at t l = (Inr ref, m)"
    and "ledger_run ustr m n"
    and "idempotency_key t' = idempotency_key t" and "transfer_validate t' = None"
  shows "post False at' t' n =
     (if same_transfer t' t then (Inr ref, n) else (Inl ErrIdempotencyConflict, n))"
proof -
  have m: "ledger_run ustr new_ledger m"
    using run_step [OF assms(1) step_post, of ctx at t] assms(2) by simp
  have "ledger_run ustr new_ledger n"
    using assms(3) m by (induction rule: ledger_run.induct) (auto intro: run_step)
  then have n: "records_ok n" by (blast dest: run_sound [OF _ sound_new_ledger] sound_records)
  have l: "sound_ledger ustr l" using run_sound [OF assms(1) sound_new_ledger] .
  have "\<exists>u. same_transfer t u \<and> mem_known m (idempotency_key t) = Some (u, ref)"
  proof (cases "mem_known l (idempotency_key t)")
    case None
    then show ?thesis using post_remembers [OF assms(2)] by auto
  next
    case (Some p)
    then obtain u r where k: "mem_known l (idempotency_key t) = Some (u, r)" by (cases p) auto
    have "transfer_validate t = None" "\<not> ctx"
      using assms(2) by (cases rule: post_cases [of ctx at t l]; simp)+
    with post_known_cases [OF sound_records [OF l] k] assms(2) k show ?thesis
      by (auto split: if_splits)
  qed
  then obtain u where u: "same_transfer t u" "mem_known n (idempotency_key t') = Some (u, ref)"
    using run_keeps_known [OF assms(3)] assms(4) by auto
  have "same_transfer t' u \<longleftrightarrow> same_transfer t' t"
    using u(1) by (auto simp: same_transfer_def)
  with post_known_cases [OF n u(2) assms(5)] show ?thesis by simp
qed

text \<open>(C15) What \<open>Post\<close> does: a refusal leaves the ledger as it was; a transfer recorded for the first
  time changes every account by exactly the net of its postings, each stamped with the transfer's
  reference and the one instant, and leaves every other account's history untouched.\<close>

theorem post_moves_the_net:
  "case post ctx at t l of
     (Inl e, l') \<Rightarrow> l' = l
   | (Inr ref, l') \<Rightarrow>
       if transfers l (idempotency_key t) \<noteq> None then l' = l
       else ref = mint_ref (sequence l + 1) \<and> sequence l' = sequence l + 1 \<and>
         (\<forall>acct. held l' acct = held l acct + account_net (postings t) acct) \<and>
         (\<forall>acct. accounts l' acct = map_option (\<lambda>a. a\<lparr>a_postings := a_postings a @
            map (stamp ref at) (filter (\<lambda>p. p_account p = acct) (postings t))\<rparr>) (accounts l acct))"
proof (cases rule: post_cases [of ctx at t l])
  case fresh
  then show ?thesis using post_held [OF fresh(6) fresh(1)]
    by (simp add: append_postings_lookup)
qed auto


text \<open>(C26) The account a reference names is its own: two valid references that differ, or one in two
  currencies, never share an account, whatever a house account is called. Account identifiers
  are built from the UUID's text, of which only that it is 36 bytes and tells UUIDs apart is used.\<close>

theorem accounts_never_shared:
  assumes "uuid_text ustr"
    and "ensure_account ustr ctx r c l = (Inr acct, l1)"
    and "ensure_account ustr ctx' r' c' l' = (Inr acct, l2)"
  shows "ref_member r = ref_member r' \<and> ref_house r = ref_house r' \<and> c = c'"
proof -
  have ok: "ref_validate r = None \<and> currency_valid c \<and> acct = account_id ustr r c"
    if "ensure_account ustr ctx r c l = (Inr acct, l1)" for ctx r c l l1
    using that by (cases rule: ensure_cases [of ustr ctx r c l]) auto
  from ok [OF assms(2)] ok [OF assms(3)] uuid_text.account_id_inj [OF assms(1)]
  show ?thesis by blast
qed

section \<open>A ledger at work\<close>

text \<open>One member and one house account with short names, and transfers between them.\<close>

definition short_text :: "uuid \<Rightarrow> string" where
  "short_text u = dec_nat (unat u)"

definition sample_member :: account_ref where
  "sample_member = member_account 1 StagePending"

definition sample_house :: account_ref where
  "sample_house = house_account ''r''"

definition sample_leg :: "account_id \<Rightarrow> i64 \<Rightarrow> posting" where
  "sample_leg acct n = \<lparr>p_account = acct, p_amount = \<lparr>minor = n, currency_of = ''EUR''\<rparr>, p_ref = [], p_at = 0\<rparr>"

definition sample_transfer :: "string \<Rightarrow> posting list \<Rightarrow> transfer" where
  "sample_transfer key ps =
     \<lparr>idempotency_key = key, postings = ps, reference = [], metadata = fmempty\<rparr>"

definition member_name :: account_id where
  "member_name = ''member/1/pending/EUR''"

definition house_name :: account_id where
  "house_name = ''house/'' @ quote ''r'' @ ''/EUR''"

definition sample_opened :: mem_ledger where
  "sample_opened =
     snd (ensure_account short_text False sample_member ''EUR''
       (snd (ensure_account short_text False sample_house ''EUR'' new_ledger)))"

definition sample_credit :: "i64 \<Rightarrow> transfer" where
  "sample_credit n = sample_transfer ''k'' [sample_leg house_name (- n), sample_leg member_name n]"

lemma sample_run: "ledger_run short_text new_ledger sample_opened"
  unfolding sample_opened_def by (intro run_step [OF _ step_ensure] run_here)

lemma sample_valid: "transfer_validate (sample_credit 25) = None"
  by code_simp

lemma sample_posted:
  "post False 7 (sample_credit 25) sample_opened =
     (Inr ''transfer-1'', snd (post False 7 (sample_credit 25) sample_opened))"
proof -
  have "fst (post False 7 (sample_credit 25) sample_opened) = Inr ''transfer-1''"
    by code_simp
  then show ?thesis by (metis prod.collapse)
qed

lemma sample_history: "history False member_name \<lparr>w_from = 0, w_to = 0\<rparr> sample_opened = Inr []"
  by code_simp

theorem reachable_ledger_conserves_witness:
  "(\<Sum>acct\<in>in_currency sample_opened ''EUR''. held sample_opened acct) = 0"
  using reachable_ledger_conserves [OF sample_run] by blast

theorem posted_exactly_once_witness:
  "post False 9 (sample_credit 25) (snd (post False 7 (sample_credit 25) sample_opened)) =
     (Inr ''transfer-1'', snd (post False 7 (sample_credit 25) sample_opened))"
  using posted_exactly_once [OF sample_run sample_posted run_here refl sample_valid]
  by simp


theorem accounts_never_shared_witness:
  "\<exists>acct l1. ensure_account rfc4122 False (member_account 1 StagePending) ''EUR'' new_ledger = (Inr acct, l1) \<and>
     currency_valid ''EUR'' \<and> ref_member (member_account 1 StagePending) = ref_member (member_account 1 StagePending)"
proof -
  have v: "ref_validate (member_account 1 StagePending) = None" by code_simp
  have c: "currency_valid ''EUR''" by code_simp
  obtain acct l1 where e: "ensure_account rfc4122 False (member_account 1 StagePending) ''EUR'' new_ledger = (Inr acct, l1)"
    using v c by (cases rule: ensure_cases [of rfc4122 False "member_account 1 StagePending" "''EUR''" new_ledger])
      (auto simp: ensure_account_def parse_currency_def Let_def)
  from accounts_never_shared [OF rfc.uuid_text_axioms e e] e c show ?thesis by blast
qed

section \<open>A balance the books can no longer read\<close>

text \<open>The funds check nets a transfer before it judges it, while a balance is read by adding the
  history up posting by posting. A transfer whose postings to one account pass beyond the 64 bit
  range on the way to a total inside it is accepted, and the account can then not be read or
  drawn on again.\<close>

definition brink_ledger :: mem_ledger where
  "brink_ledger = snd (post False 7 (sample_credit 9223372036854775807) sample_opened)"

definition brick_transfer :: transfer where
  "brick_transfer = sample_transfer ''x''
     [sample_leg member_name 5, sample_leg house_name (- 5),
      sample_leg member_name (- 6), sample_leg house_name 6]"

definition bricked_ledger :: mem_ledger where
  "bricked_ledger = snd (post False 8 brick_transfer brink_ledger)"

lemma bricked_evaluated:
  "(let (answer, b) = post False 8 brick_transfer brink_ledger
    in answer = Inr ''transfer-2'' \<and> held b member_name = 2 ^ 63 - 2 \<and>
       balance_of False member_name ''EUR'' b = Inl (MoneyFault ErrOverflow))"
  by code_simp


end
