(* ===== verification/EarningsLedger.thy ===== *)
theory EarningsLedger
  imports Reservation MemoryLedger
begin

text \<open>
  The entry machine over the in-process ledger. \<open>earn_run\<close> is every world the operations of
  \<open>internal/cashback/earnings\<close> can lead to from empty books, with any of them cut off at any
  call; its second argument collects the keys of the attempts that failed and have not been
  repeated with success. The theorems are D7, that the wallet and the ledger agree in every such
  world, and what the locale lemmas of \<open>Books\<close> and \<open>Reservation\<close> say of each operation.
\<close>

definition mem_machine :: "(uuid \<Rightarrow> string) \<Rightarrow> (nat \<Rightarrow> uuid) \<Rightarrow> string \<Rightarrow> mem_ledger machine" where
  "mem_machine ustr gen recv =
     \<lparr>ensure_op = ensure_account ustr, post_op = post, uuid_str = ustr, fresh_ids = gen, receivable = recv\<rparr>"

sublocale uuid_text \<subseteq> purse: entry_books "ensure_account ustr" post "account_id ustr" held mem_known "sound_ledger ustr" ustr
  by unfold_locales

lemma mem_machine_serves: "serves (ensure_account ustr) post ustr (mem_machine ustr gen recv)"
  by (simp add: serves_def mem_machine_def)

text \<open>How the transaction an operation ran in came out: kept, with what the operation wrote of entries and
  links, or not, with the entries and links there were. The ledger is not part of it.\<close>

definition ended :: "'l world \<Rightarrow> 'e + 'a \<Rightarrow> 'l world \<Rightarrow> bool \<Rightarrow> 'l world \<Rightarrow> bool" where
  "ended w x u kept v \<longleftrightarrow> ledger v = ledger u \<and>
     (if kept then (\<exists>a. x = Inr a) \<and> entries (db v) = entries (db u) \<and> links (db v) = links (db u)
      else entries (db v) = entries (db w) \<and> links (db v) = links (db w))"

definition tried_after :: "bool \<Rightarrow> string \<Rightarrow> string set \<Rightarrow> string set" where
  "tried_after kept key tried = (if kept then tried - {key} else insert key tried)"

definition still_tried :: "'e + 'a \<Rightarrow> string \<Rightarrow> string set \<Rightarrow> string set" where
  "still_tried x = tried_after (case x of Inl _ \<Rightarrow> False | Inr _ \<Rightarrow> True)"

lemma in_tx_ended:
  assumes "in_tx uncommitted m w = (x, v)"
  obtains y u where "m w = (y, u)" "ended w y u (case x of Inl _ \<Rightarrow> False | Inr _ \<Rightarrow> True) v"
proof -
  obtain y u where m: "m w = (y, u)" by (cases "m w")
  obtain z t where c: "call_db commit_tx u = (z, t)" by (cases "call_db commit_tx u")
  have l: "ledger t = ledger u" using keepsD [OF call_db_same_ledger c] by (simp add: same_ledger_def)
  have "entries (db t) = entries (db u) \<and> links (db t) = links (db u)" if "z = Inr ()"
    using c that by (auto simp: call_db_Inr dest: commit_tx_Inr)
  with assms m c l have "ended w y u (case x of Inl _ \<Rightarrow> False | Inr _ \<Rightarrow> True) v"
    by (cases y; cases z) (auto simp: in_tx_def ended_def)
  with m show thesis by (rule that)
qed

definition matches_row :: "move \<Rightarrow> entry_row \<Rightarrow> bool" where
  "matches_row mo row \<longleftrightarrow> mo_member mo = e_account row \<and>
     mo_amount mo = \<lparr>minor = e_minor row, currency_of = e_currency row\<rparr>"

inductive earn_run ::
  "(uuid \<Rightarrow> string) \<Rightarrow> (nat \<Rightarrow> uuid) \<Rightarrow> string \<Rightarrow> mem_ledger world \<Rightarrow> string set \<Rightarrow> bool"
  for ustr gen recv where
  start: "ledger w = new_ledger \<Longrightarrow> entries (db w) = [] \<Longrightarrow> links (db w) = [] \<Longrightarrow> earn_run ustr gen recv w {}"
| elsewhere: "earn_run ustr gen recv w tried \<Longrightarrow> ledger v = ledger w \<Longrightarrow> entries (db v) = entries (db w) \<Longrightarrow>
    links (db v) = links (db w) \<Longrightarrow> earn_run ustr gen recv v tried"
| opens: "earn_run ustr gen recv w tried \<Longrightarrow>
    open_credit (mem_machine ustr gen recv) c w = (x, u) \<Longrightarrow> ended w x u kept v \<Longrightarrow>
    earn_run ustr gen recv v (tried_after kept (opening_key ustr (cr_report c) (cr_state c)) tried)"
| moves: "earn_run ustr gen recv w tried \<Longrightarrow> find_entry (db w) (mo_entry mo) = Some row \<Longrightarrow> live (db w) row \<Longrightarrow>
    e_account row \<noteq> nil_uuid \<Longrightarrow> matches_row mo row \<Longrightarrow>
    apply_move (mem_machine ustr gen recv) mo w = (y, u) \<Longrightarrow> ended w y u kept v \<Longrightarrow>
    earn_run ustr gen recv v (tried_after kept (idempotency_key_for ustr (mo_entry mo) (mo_cause mo) (mo_to mo)) tried)"
| reverses: "earn_run ustr gen recv w tried \<Longrightarrow> row \<in> set (entries (db w)) \<Longrightarrow> e_reversal_of row = None \<Longrightarrow>
    e_account row \<noteq> nil_uuid \<Longrightarrow> entry_from row = Inr (rv_original rv) \<Longrightarrow>
    reverse_credit (mem_machine ustr gen recv) rv w = (z, u) \<Longrightarrow> ended w z u kept v \<Longrightarrow>
    earn_run ustr gen recv v (tried_after kept (idempotency_key_for ustr (e_id row) (rv_report rv) StReversed) tried)"
| reserves: "earn_run ustr gen recv w tried \<Longrightarrow> \<forall>e\<in>set es. row_of (db w) e \<and> en_member e \<noteq> nil_uuid \<Longrightarrow>
    mem_known (ledger w) (reservation_key ustr cause) = None \<or> reservation_key ustr cause \<in> tried \<Longrightarrow>
    reserve (mem_machine ustr gen recv) es cause w = (s, u) \<Longrightarrow> ended w s u kept v \<Longrightarrow>
    earn_run ustr gen recv v (tried_after kept (reservation_key ustr cause) tried)"
| releases: "earn_run ustr gen recv w tried \<Longrightarrow> \<forall>e\<in>set es. row_of (db w) e \<and> en_member e \<noteq> nil_uuid \<Longrightarrow>
    mem_known (ledger w) (release_key ustr cause) = None \<or> release_key ustr cause \<in> tried \<Longrightarrow>
    release (mem_machine ustr gen recv) es cause w = (s, u) \<Longrightarrow> ended w s u kept v \<Longrightarrow>
    earn_run ustr gen recv v (tried_after kept (release_key ustr cause) tried)"

abbreviation wallet_books :: "(uuid \<Rightarrow> string) \<Rightarrow> string set \<Rightarrow> mem_ledger \<Rightarrow> earn_db \<Rightarrow> bool" where
  "wallet_books ustr \<equiv> books ustr (account_id ustr) held mem_known"

lemma reservation_keys_apart:
  "reservation_key ustr cause \<noteq> idempotency_key_for ustr' i c to"
  "reservation_key ustr cause \<noteq> opening_key ustr' r to"
  "release_key ustr cause \<noteq> idempotency_key_for ustr' i c to"
  "release_key ustr cause \<noteq> opening_key ustr' r to"
  by (simp_all add: reservation_key_def release_key_def idempotency_key_for_def opening_key_def)

section \<open>An operation answers for its own key only\<close>

definition only_key :: "string \<Rightarrow> mem_ledger world \<Rightarrow> mem_ledger world \<Rightarrow> bool" where
  "only_key key w v \<longleftrightarrow> (\<forall>j. j \<noteq> key \<longrightarrow> mem_known (ledger v) j = mem_known (ledger w) j)"

lemma only_key_rel [simp, intro!]: "reflp (only_key key)" "transp (only_key key)"
  by (auto simp: reflp_def transp_def only_key_def)

lemma same_ledger_only_key: "keeps same_ledger m \<Longrightarrow> keeps (only_key key) m"
  by (auto simp: keeps_def same_ledger_def only_key_def)

lemma post_movement_only_key: "keeps (only_key key) (post_movement (mem_machine ustr gen recv) mv amt key)"
proof -
  let ?M = "mem_machine ustr gen recv"
  have "keeps (only_key key) (call_ensure ?M r c)" for r c
  proof (unfold keeps_def, rule allI)
    fix w
    show "only_key key w (snd (call_ensure ?M r c w))"
      using ensure_cases [of ustr "ctx_done w" r c "ledger w"]
      by (cases rule: ensure_cases [of ustr "ctx_done w" r c "ledger w"])
        (auto simp: call_ensure_def mem_machine_def only_key_def mem_known_def)
  qed
  moreover have "keeps (only_key key) (call_post ?M (two_legs key a x b y))" for a x b y
  proof (unfold keeps_def, rule allI)
    fix w
    let ?t = "two_legs key a x b y"
    have k: "idempotency_key ?t = key" by (simp add: two_legs_def)
    show "only_key key w (snd (call_post ?M ?t w))"
      by (cases rule: post_cases [of "ctx_done w" "clock w" ?t "ledger w"])
        (auto simp: call_post_def mem_machine_def only_key_def mem_known_def k)
  qed
  ultimately show ?thesis
    unfolding post_movement_def by (intro keeps_intros) auto
qed

lemmas ledger_free = same_ledger_only_key [OF record_move_same_ledger]
  same_ledger_only_key [OF announcements_same_ledger(1)] same_ledger_only_key [OF announcements_same_ledger(2)]
  same_ledger_only_key [OF call_db_same_ledger] same_ledger_only_key [OF move_one_same_ledger]

lemma operations_only_key:
  fixes ustr :: "uuid \<Rightarrow> string" and gen :: "nat \<Rightarrow> uuid" and recv :: string
  defines "M \<equiv> mem_machine ustr gen recv"
  shows "only_key (idempotency_key_for ustr (mo_entry mo) (mo_cause mo) (mo_to mo)) w (snd (apply_move M mo w))"
    and "only_key (opening_key ustr (cr_report c) (cr_state c)) w (snd (open_credit M c w))"
    and "only_key (idempotency_key_for ustr (en_id (rv_original rv)) (rv_report rv) StReversed) w (snd (reverse_credit M rv w))"
    and "only_key key w (snd (move_together M es from to key cause w))"
proof -
  have str: "uuid_str M = ustr" by (simp add: M_def mem_machine_def)
  note posts = keepsD [OF post_movement_only_key [of _ ustr gen recv, folded M_def]]
  show "only_key (idempotency_key_for ustr (mo_entry mo) (mo_cause mo) (mo_to mo)) w (snd (apply_move M mo w))"
  proof -
    obtain x v where run: "apply_move M mo w = (x, v)" by (cases "apply_move M mo w")
    from run have "only_key (idempotency_key_for ustr (mo_entry mo) (mo_cause mo) (mo_to mo)) w v"
    proof (cases rule: apply_move_cases)
      case (posted mv ref u)
      with posts [OF posted(3) [unfolded str]] show ?thesis by (simp add: only_key_def)
    qed (use posts str in \<open>auto simp: only_key_def\<close>)
    with run show ?thesis by simp
  qed
  show "only_key (opening_key ustr (cr_report c) (cr_state c)) w (snd (open_credit M c w))"
  proof -
    obtain x v where run: "open_credit M c w = (x, v)" by (cases "open_credit M c w")
    from run have "only_key (opening_key ustr (cr_report c) (cr_state c)) w v"
    proof (cases rule: open_credit_cases)
      case (unposted mv row d1 u0 e)
      with posts [OF unposted(6) [unfolded str]] show ?thesis by (simp add: only_key_def)
    next
      case (posted mv row d1 u0 ref u)
      with posts [OF posted(6) [unfolded str]] show ?thesis by (simp add: only_key_def)
    qed (simp add: only_key_def)
    with run show ?thesis by simp
  qed
  show "only_key (idempotency_key_for ustr (en_id (rv_original rv)) (rv_report rv) StReversed) w (snd (reverse_credit M rv w))"
  proof -
    obtain x v where run: "reverse_credit M rv w = (x, v)" by (cases "reverse_credit M rv w")
    from run have "only_key (idempotency_key_for ustr (en_id (rv_original rv)) (rv_report rv) StReversed) w v"
    proof (cases rule: reverse_credit_cases)
      case (posted mv ref u)
      with posts [OF posted(3) [unfolded str]] show ?thesis by (simp add: only_key_def)
    qed (use posts str in \<open>auto simp: only_key_def\<close>)
    with run show ?thesis by simp
  qed
  show "only_key key w (snd (move_together M es from to key cause w))"
  proof -
    obtain x v where run: "move_together M es from to key cause w = (x, v)"
      by (cases "move_together M es from to key cause w")
    from run have "only_key key w v"
    proof (cases rule: move_together_cases)
      case (posted m0 mv sm ref u)
      with posts [OF posted(6)] show ?thesis by (simp add: only_key_def)
    qed (use posts in \<open>auto simp: only_key_def\<close>)
    with run show ?thesis by simp
  qed
qed

section \<open>D7 in every world\<close>

definition agreed :: "(uuid \<Rightarrow> string) \<Rightarrow> string set \<Rightarrow> mem_ledger world \<Rightarrow> bool" where
  "agreed ustr tried w \<longleftrightarrow> sound_ledger ustr (ledger w) \<and>
     (\<exists>P. P \<subseteq> tried \<and> wallet_books ustr P (ledger w) (db w) \<and>
        (\<forall>k cause. k \<in> {reservation_key ustr cause, release_key ustr cause} \<longrightarrow> k \<in> tried \<longrightarrow>
           mem_known (ledger w) k \<noteq> None \<longrightarrow> k \<in> P))"

lemma wallet_books_cong:
  assumes "entries d = entries d'" and "links d = links d'"
  shows "wallet_books ustr P l d = wallet_books ustr P l d'"
  using assms
  by (simp add: books_def books_agree_def keys_claimed_def stage_total_cong [of d d']
      store_ok_cong [of d d'] reversed_in_def credited_def linked_def)

text \<open>One kept or failed operation, from books that agree up to some of the keys tried so far.\<close>

lemma tried_step:
  assumes agr: "agreed ustr tried w"
    and step: "\<And>P. P \<subseteq> tried \<Longrightarrow> wallet_books ustr P (ledger w) (db w) \<Longrightarrow>
        (\<forall>k cause. k \<in> {reservation_key ustr cause, release_key ustr cause} \<longrightarrow> k \<in> tried \<longrightarrow>
           mem_known (ledger w) k \<noteq> None \<longrightarrow> k \<in> P) \<Longrightarrow>
        sound_ledger ustr (ledger u) \<and> books_after (wallet_books ustr) mem_known key P w x u"
    and e: "ended w x u kept v"
    and only: "only_key key w u"
    and mine: "\<And>cause. key \<in> {reservation_key ustr cause, release_key ustr cause} \<Longrightarrow>
        mem_known (ledger w) key = None \<or> key \<in> tried"
  shows "agreed ustr (tried_after kept key tried) v"
proof -
  obtain P where P: "P \<subseteq> tried" "wallet_books ustr P (ledger w) (db w)"
      and R: "\<And>k cause. k \<in> {reservation_key ustr cause, release_key ustr cause} \<Longrightarrow> k \<in> tried \<Longrightarrow>
         mem_known (ledger w) k \<noteq> None \<Longrightarrow> k \<in> P"
    using agr unfolding agreed_def by blast
  have s: "sound_ledger ustr (ledger u)" and a: "books_after (wallet_books ustr) mem_known key P w x u"
    using step P R by blast+
  have l: "ledger v = ledger u" using e by (simp add: ended_def)
  show ?thesis
  proof (cases kept)
    case True
    then obtain y where y: "x = Inr y" "entries (db v) = entries (db u)" "links (db v) = links (db u)"
      using e by (auto simp: ended_def)
    then have "wallet_books ustr (P - {key}) (ledger v) (db v)"
      using a wallet_books_cong [of "db v" "db u"] by (simp add: books_after_def l)
    moreover have "k \<in> P - {key}" if "k \<in> {reservation_key ustr cause, release_key ustr cause}" "k \<in> tried - {key}"
        "mem_known (ledger v) k \<noteq> None" for k cause
      using R [OF that(1)] that(2,3) only by (auto simp: only_key_def l)
    ultimately show ?thesis
      using s P(1) True l unfolding agreed_def tried_after_def by (intro conjI exI [of _ "P - {key}"]) auto
  next
    case False
    then have same: "entries (db v) = entries (db w)" "links (db v) = links (db w)" using e by (auto simp: ended_def)
    obtain Q where Q: "P \<subseteq> Q" "Q \<subseteq> insert key P" "wallet_books ustr Q (ledger u) (db w)"
      "mem_known (ledger w) key = None \<Longrightarrow> mem_known (ledger u) key \<noteq> None \<Longrightarrow> key \<in> Q"
      using a by (auto simp: books_after_def)
    have "k \<in> Q" if k: "k \<in> {reservation_key ustr cause, release_key ustr cause}" "k \<in> insert key tried"
        "mem_known (ledger u) k \<noteq> None" for k cause
    proof (cases "k = key")
      case True
      with k(1) have "key \<in> {reservation_key ustr cause, release_key ustr cause}" by simp
      note known = mine [OF this]
      show ?thesis
      proof (cases "mem_known (ledger w) key = None")
        case fresh: True
        with Q(4) k(3) True show ?thesis by blast
      next
        case False
        with known have "key \<in> tried" by simp
        with R [OF k(1)] True False Q(1) show ?thesis by blast
      qed
    next
      case False
      with k(2,3) only have "k \<in> tried" "mem_known (ledger w) k \<noteq> None" by (auto simp: only_key_def)
      with R [OF k(1)] Q(1) show ?thesis by blast
    qed
    then have R': "\<forall>k cause. k \<in> {reservation_key ustr cause, release_key ustr cause} \<longrightarrow> k \<in> insert key tried \<longrightarrow>
        mem_known (ledger v) k \<noteq> None \<longrightarrow> k \<in> Q" unfolding l by blast
    have "Q \<subseteq> insert key tried" using P(1) Q(2) by blast
    moreover have "wallet_books ustr Q (ledger v) (db v)" using Q(3) wallet_books_cong [OF same] by (simp add: l)
    moreover have "sound_ledger ustr (ledger v)" using s by (simp add: l)
    ultimately have "agreed ustr (insert key tried) v"
      unfolding agreed_def using R' by (intro conjI exI [of _ Q]) assumption+
    then show ?thesis using False by (simp add: tried_after_def)
  qed
qed

lemma agreed_start:
  "ledger w = new_ledger \<Longrightarrow> entries (db w) = [] \<Longrightarrow> links (db w) = [] \<Longrightarrow> agreed ustr {} w"
proof -
  assume w: "ledger w = new_ledger" "entries (db w) = []" "links (db w) = []"
  have "wallet_books ustr {} new_ledger (db w)" using w(2,3)
    by (simp add: books_def books_agree_def keys_claimed_def store_ok_def
        stage_total_def pending_net_def mem_known_def new_ledger_def held_def)
  then show ?thesis using w(1) by (simp add: agreed_def sound_new_ledger)
qed

lemma agreed_elsewhere:
  assumes "agreed ustr tried w" and "ledger v = ledger w" "entries (db v) = entries (db w)" "links (db v) = links (db w)"
  shows "agreed ustr tried v"
  using assms wallet_books_cong [OF assms(3,4)] by (simp add: agreed_def)

context uuid_text
begin

lemma agreed_move:
  assumes agr: "agreed ustr tried w"
    and row: "find_entry (db w) (mo_entry mo) = Some row" "live (db w) row" "e_account row \<noteq> nil_uuid" "matches_row mo row"
    and run: "apply_move (mem_machine ustr gen recv) mo w = (y, u)" and e: "ended w y u kept v"
  shows "agreed ustr (tried_after kept (idempotency_key_for ustr (mo_entry mo) (mo_cause mo) (mo_to mo)) tried) v"
proof (rule tried_step [OF agr _ e])
  show "only_key (idempotency_key_for ustr (mo_entry mo) (mo_cause mo) (mo_to mo)) w u"
    using operations_only_key(1) run by (metis snd_conv)
  show "mem_known (ledger w) (idempotency_key_for ustr (mo_entry mo) (mo_cause mo) (mo_to mo)) = None \<or>
      idempotency_key_for ustr (mo_entry mo) (mo_cause mo) (mo_to mo) \<in> tried"
    if "idempotency_key_for ustr (mo_entry mo) (mo_cause mo) (mo_to mo) \<in> {reservation_key ustr cause, release_key ustr cause}" for cause
    using that reservation_keys_apart by (metis insertE singletonD)
  fix P
  assume P: "wallet_books ustr P (ledger w) (db w)"
  have l: "sound_ledger ustr (ledger w)" using agr by (simp add: agreed_def)
  have mo: "mo_member mo = e_account row" "mo_amount mo = \<lparr>minor = e_minor row, currency_of = e_currency row\<rparr>"
    using row(4) by (auto simp: matches_row_def)
  show "sound_ledger ustr (ledger u) \<and> books_after (wallet_books ustr) mem_known
      (idempotency_key_for ustr (mo_entry mo) (mo_cause mo) (mo_to mo)) P w y u"
    by (rule purse.apply_books [OF mem_machine_serves l P row(1-3) mo run])
qed

lemma agreed_open:
  assumes agr: "agreed ustr tried w" and run: "open_credit (mem_machine ustr gen recv) c w = (x, u)" and e: "ended w x u kept v"
  shows "agreed ustr (tried_after kept (opening_key ustr (cr_report c) (cr_state c)) tried) v"
proof (rule tried_step [OF agr _ e])
  show "only_key (opening_key ustr (cr_report c) (cr_state c)) w u"
    using operations_only_key(2) run by (metis snd_conv)
  show "mem_known (ledger w) (opening_key ustr (cr_report c) (cr_state c)) = None \<or>
      opening_key ustr (cr_report c) (cr_state c) \<in> tried"
    if "opening_key ustr (cr_report c) (cr_state c) \<in> {reservation_key ustr cause, release_key ustr cause}" for cause
    using that reservation_keys_apart by (metis insertE singletonD)
  fix P
  assume P: "wallet_books ustr P (ledger w) (db w)"
  have l: "sound_ledger ustr (ledger w)" using agr by (simp add: agreed_def)
  show "sound_ledger ustr (ledger u) \<and> books_after (wallet_books ustr) mem_known
      (opening_key ustr (cr_report c) (cr_state c)) P w x u"
    by (rule purse.open_books [OF mem_machine_serves l P run])
qed

lemma agreed_reverse:
  assumes agr: "agreed ustr tried w"
    and row: "row \<in> set (entries (db w))" "e_reversal_of row = None" "e_account row \<noteq> nil_uuid" "entry_from row = Inr (rv_original rv)"
    and run: "reverse_credit (mem_machine ustr gen recv) rv w = (x, u)" and e: "ended w x u kept v"
  shows "agreed ustr (tried_after kept (idempotency_key_for ustr (e_id row) (rv_report rv) StReversed) tried) v"
proof (rule tried_step [OF agr _ e])
  have "en_id (rv_original rv) = e_id row" using row(4) by (auto simp: entry_from_Inr)
  then show "only_key (idempotency_key_for ustr (e_id row) (rv_report rv) StReversed) w u"
    using operations_only_key(3) run by (metis snd_conv)
  show "mem_known (ledger w) (idempotency_key_for ustr (e_id row) (rv_report rv) StReversed) = None \<or>
      idempotency_key_for ustr (e_id row) (rv_report rv) StReversed \<in> tried"
    if "idempotency_key_for ustr (e_id row) (rv_report rv) StReversed \<in> {reservation_key ustr cause, release_key ustr cause}" for cause
    using that reservation_keys_apart by (metis insertE singletonD)
  fix P
  assume P: "wallet_books ustr P (ledger w) (db w)"
  have l: "sound_ledger ustr (ledger w)" using agr by (simp add: agreed_def)
  show "sound_ledger ustr (ledger u) \<and> books_after (wallet_books ustr) mem_known
      (idempotency_key_for ustr (e_id row) (rv_report rv) StReversed) P w x u"
    by (rule purse.reverse_books [OF mem_machine_serves l P row run])
qed

lemma agreed_together:
  assumes agr: "agreed ustr tried w"
    and rows: "\<forall>e\<in>set es. row_of (db w) e \<and> en_member e \<noteq> nil_uuid"
    and kind: "key \<in> {reservation_key ustr cause', release_key ustr cause'}" and follow: "can_follow src dst"
    and mine: "mem_known (ledger w) key = None \<or> key \<in> tried"
    and run: "move_together (mem_machine ustr gen recv) es src dst key cause w = (x, u)" and e: "ended w x u kept v"
  shows "agreed ustr (tried_after kept key tried) v"
proof (rule tried_step [OF agr _ e])
  show "only_key key w u"
    using operations_only_key(4) run by (metis snd_conv)
  show "mem_known (ledger w) key = None \<or> key \<in> tried" by (rule mine)
  fix P
  assume P: "wallet_books ustr P (ledger w) (db w)"
    and R: "\<forall>k cause. k \<in> {reservation_key ustr cause, release_key ustr cause} \<longrightarrow> k \<in> tried \<longrightarrow>
           mem_known (ledger w) k \<noteq> None \<longrightarrow> k \<in> P"
  have l: "sound_ledger ustr (ledger w)" using agr by (simp add: agreed_def)
  have m: "mem_known (ledger w) key = None \<or> key \<in> P" using mine R kind by blast
  have apart: "\<And>i c t. key \<noteq> idempotency_key_for ustr i c t" "\<And>r t. key \<noteq> opening_key ustr r t"
    using kind by (auto simp: reservation_keys_apart reservation_keys_apart [THEN not_sym])
  show "sound_ledger ustr (ledger u) \<and> books_after (wallet_books ustr) mem_known key P w x u"
    by (rule purse.move_together_books [OF mem_machine_serves l P rows follow m apart run])
qed

lemma earn_run_agreed: "earn_run ustr gen recv w tried \<Longrightarrow> agreed ustr tried w"
proof (induction rule: earn_run.induct)
  case (start w)
  then show ?case by (rule agreed_start)
next
  case (elsewhere w tried v)
  then show ?case by (blast intro: agreed_elsewhere)
next
  case (opens w tried c x u kept v)
  then show ?case by (blast intro: agreed_open)
next
  case (moves w tried mo row y u kept v)
  then show ?case by (blast intro: agreed_move)
next
  case (reverses w tried row rv z u kept v)
  then show ?case by (blast intro: agreed_reverse)
next
  case (reserves w tried es cause s u kept v)
  have str: "uuid_str (mem_machine ustr gen recv) = ustr" by (simp add: mem_machine_def)
  show ?case
    by (rule agreed_together [OF reserves.IH reserves.hyps(2) _ _ reserves.hyps(3), where cause' = cause and src = StConfirmed and dst = StReserved and cause = cause])
      (use reserves.hyps(4,5) in \<open>auto simp: reserve_def str can_follow_iff\<close>)
next
  case (releases w tried es cause s u kept v)
  have str: "uuid_str (mem_machine ustr gen recv) = ustr" by (simp add: mem_machine_def)
  show ?case
    by (rule agreed_together [OF releases.IH releases.hyps(2) _ _ releases.hyps(3), where cause' = cause and src = StReserved and dst = StConfirmed and cause = cause])
      (use releases.hyps(4,5) in \<open>auto simp: release_def str can_follow_iff\<close>)
qed

end

end
