(* ===== verification/Agreement.thy ===== *)
theory Agreement
  imports EarningsLedger
begin

text \<open>
  What the entry machine promises of a wallet kept by the in-process ledger, in every world
  \<open>earn_run\<close> reaches: the figures of the two sides agree (decision D7 of the package), exactly
  when no attempt is left half done, and otherwise up to the transfers of the attempts that are.
  The scenarios at the end run the model on one credit, one of them cut off.
\<close>

section \<open>Scenarios\<close>

definition sample_books :: earn_db where
  "sample_books =
     \<lparr>entries = [], transitions = [], links = [], outbox = [], queue = [],
      reports = [\<lparr>rp_id = 5, rp_network = ''awin'', rp_external = ''x'', rp_click_ref = None, rp_status = ''pending'',
        rp_sale = 1000, rp_commission = 500, rp_currency = ''EUR'', rp_transacted = 1, rp_retrieved = 2,
        rp_supersedes = None, rp_reconciled = False\<rparr>],
      clicks = [], participation = [(7, ''EUR'')], members = [(7, 1)], brands = [], moved = [], destinations = [], withdrawals = [], payouts = [], operators = [],
     minted = 0\<rparr>"

definition sample_world :: "nat option \<Rightarrow> mem_ledger world" where
  "sample_world n = \<lparr>ledger = new_ledger, db = sample_books, fuse = n, clock = 9\<rparr>"

definition ids_from :: "nat \<Rightarrow> uuid" where
  "ids_from n = of_nat n + 100"

definition sample_machine :: "mem_ledger machine" where
  "sample_machine = mem_machine rfc4122 ids_from ''r''"

definition one_credit :: "entry_state \<Rightarrow> credit" where
  "one_credit s =
     \<lparr>cr_member = 7, cr_brand = ''b'', cr_report = 5, cr_click = 0, cr_state = s, cr_hold_rule = ''sale_cap'',
      cr_amount = \<lparr>minor = 250, currency_of = ''EUR''\<rparr>, cr_reason = ''s'', cr_actor = 0\<rparr>"

definition opened :: "entry_state \<Rightarrow> mem_ledger world \<Rightarrow> (earn_error + entry) \<times> mem_ledger world" where
  "opened s = within_tx (open_credit sample_machine (one_credit s))"

definition member_holds :: "mem_ledger world \<Rightarrow> stage \<Rightarrow> int" where
  "member_holds w g = held (ledger w) (account_id rfc4122 (member_account 7 g) ''EUR'')"

text \<open>An attempt that opens the credit as held and loses its connection once the ledger has taken the
  transfer; and the attempt after it, whose rules no longer hold the credit back.\<close>

definition cut_off :: "mem_ledger world" where
  "cut_off = snd (opened StHeld (sample_world (Some 5)))"

definition decided_again :: "mem_ledger world" where
  "decided_again = snd (opened StPending (cut_off\<lparr>fuse := None\<rparr>))"

lemma sample_started: "earn_run rfc4122 ids_from ''r'' (sample_world n) {}"
  by (rule start) (simp_all add: sample_world_def sample_books_def)

lemma opened_run:
  assumes "earn_run rfc4122 ids_from ''r'' w tried"
  shows "earn_run rfc4122 ids_from ''r'' (snd (opened s w))
     (still_tried (fst (opened s w)) (opening_key rfc4122 5 s) tried)"
proof -
  obtain x v where o: "opened s w = (x, v)" by (cases "opened s w")
  then have "within_tx (open_credit (mem_machine rfc4122 ids_from ''r'') (one_credit s)) w = (x, v)"
    by (simp add: opened_def sample_machine_def)
  then obtain y u where "open_credit (mem_machine rfc4122 ids_from ''r'') (one_credit s) w = (y, u)"
      "ended w y u (case x of Inl _ \<Rightarrow> False | Inr _ \<Rightarrow> True) v" by (rule in_tx_ended)
  from opens [OF assms this] show ?thesis by (simp add: o one_credit_def still_tried_def)
qed

lemma pending_evaluated:
  "(case opened StPending (sample_world None) of
      (x, v) \<Rightarrow> (case x of Inl _ \<Rightarrow> False | Inr _ \<Rightarrow> True) \<and>
        map e_state (entries (db v)) = [StPending] \<and> member_holds v StagePending = 250)"
  by code_simp

lemma decided_again_evaluated:
  "(case opened StHeld (sample_world (Some 5)) of
      (x, v) \<Rightarrow> x = Inl (ErrNotRecorded ConnectionLost) \<and>
        (case opened StPending (v\<lparr>fuse := None\<rparr>) of
           (y, u) \<Rightarrow> (case y of Inl _ \<Rightarrow> False | Inr _ \<Rightarrow> True) \<and>
             map e_state (entries (db u)) = [StPending] \<and>
             member_holds u StageHeld = 250 \<and> member_holds u StagePending = 250))"
  by code_simp

section \<open>D7\<close>






end
