(* ===== verification/HoldRules.thy ===== *)
theory HoldRules
  imports Entries
begin

text \<open>
  \<open>internal/cashback/earnings/holdrules.go\<close> with the three statements of \<open>queries/holdrules.sql\<close>: the
  configured rules, what each asks the database about a candidate, and the verdict. \<open>say\<close> puts a
  verdict into the words an operator reads; it is a parameter, and the verdict does not depend on it.
\<close>

section \<open>The configured set\<close>

abbreviation "RuleSharedContext \<equiv> ''shared-context''"
abbreviation "RuleNewAccount \<equiv> ''new-account''"
abbreviation "RuleSaleCap \<equiv> ''sale-cap''"
abbreviation "RuleMemberVelocity \<equiv> ''member-velocity''"

record hold_rules =
  shared_accounts :: int
  shared_window :: int
  new_account_age :: int
  sale_cap :: amount
  velocity :: int
  velocity_window :: int

definition hold_rules_validate :: "hold_rules \<Rightarrow> earn_error option" where
  "hold_rules_validate r =
     (if shared_accounts r < 0 \<or> velocity r < 0 then Some (ErrBadHoldRules [])
      else if shared_window r < 0 \<or> new_account_age r < 0 \<or> velocity_window r < 0 then Some (ErrBadHoldRules [])
      else if shared_accounts r = 1 then Some (ErrBadHoldRules RuleSharedContext)
      else if (0 < shared_accounts r) \<noteq> (0 < shared_window r) then Some (ErrBadHoldRules RuleSharedContext)
      else if (0 < velocity r) \<noteq> (0 < velocity_window r) then Some (ErrBadHoldRules RuleMemberVelocity)
      else if currency_of (sale_cap r) \<noteq> [] then
        (case validate_amount (sale_cap r) of
           Some _ \<Rightarrow> Some (ErrBadHoldRules RuleSaleCap)
         | None \<Rightarrow> if minor (sale_cap r) \<le>s 0 then Some (ErrBadHoldRules RuleSaleCap) else None)
      else None)"

definition active_rules :: "hold_rules \<Rightarrow> string list" where
  "active_rules r =
     (if 0 < shared_accounts r then [RuleSharedContext] else []) @
     (if 0 < new_account_age r then [RuleNewAccount] else []) @
     (if currency_of (sale_cap r) \<noteq> [] then [RuleSaleCap] else []) @
     (if 0 < velocity r then [RuleMemberVelocity] else [])"

record candidate =
  ca_member :: uuid
  ca_click :: click
  ca_sale :: amount
  ca_at :: instant

datatype hold_words =
    SharedContextWords nat int int | NewAccountWords int int | SaleCapWords amount amount | VelocityWords nat int int

record hold =
  ho_rule :: string
  ho_reason :: string

definition no_hold :: hold where
  "no_hold = \<lparr>ho_rule = [], ho_reason = []\<rparr>"

definition is_held :: "hold \<Rightarrow> bool" where
  "is_held h = (ho_rule h \<noteq> [])"

definition hold_open :: "hold \<Rightarrow> credit \<Rightarrow> credit" where
  "hold_open h c =
     (if \<not> is_held h then c\<lparr>cr_state := StPending, cr_hold_rule := []\<rparr>
      else c\<lparr>cr_state := StHeld, cr_hold_rule := ho_rule h, cr_reason := ho_reason h\<rparr>)"

section \<open>The three reads\<close>

definition accounts_sharing_context :: "string \<Rightarrow> instant \<Rightarrow> earn_db \<Rightarrow> (db_error + nat) \<times> earn_db" where
  "accounts_sharing_context digest since d =
     (Inr (length (remdups (map c_account (filter (\<lambda>c. c_digest c = Some digest \<and> since \<le> c_at c) (clicks d))))), d)"

definition member_credits_since :: "uuid \<Rightarrow> instant \<Rightarrow> earn_db \<Rightarrow> (db_error + nat) \<times> earn_db" where
  "member_credits_since m since d =
     (Inr (length (filter (\<lambda>e. e_account e = m \<and> e_reversal_of e = None \<and> since \<le> e_created e) (entries d))), d)"

definition account_created_at :: "uuid \<Rightarrow> earn_db \<Rightarrow> (db_error + instant) \<times> earn_db" where
  "account_created_at m d =
     (case map_of (members d) m of None \<Rightarrow> (Inl NoRows, d) | Some t \<Rightarrow> (Inr t, d))"

section \<open>The rules\<close>

definition shared_context ::
  "hold_rules \<Rightarrow> (hold_words \<Rightarrow> string) \<Rightarrow> candidate \<Rightarrow> 'l world \<Rightarrow> (earn_error + hold) \<times> 'l world" where
  "shared_context r say c =
     (if shared_accounts r = 0 \<or> cl_digest (ca_click c) = [] then give no_hold
      else
     and_then (wrap_error (ErrHoldUnread RuleSharedContext)
       (call_db (accounts_sharing_context (cl_digest (ca_click c)) (ca_at c - shared_window r)))) (\<lambda>n.
     if int n < shared_accounts r then give no_hold
     else give \<lparr>ho_rule = RuleSharedContext,
       ho_reason = say (SharedContextWords n (shared_window r) (shared_accounts r))\<rparr>))"

definition new_account ::
  "hold_rules \<Rightarrow> (hold_words \<Rightarrow> string) \<Rightarrow> candidate \<Rightarrow> 'l world \<Rightarrow> (earn_error + hold) \<times> 'l world" where
  "new_account r say c =
     (if new_account_age r = 0 then give no_hold
      else
     and_then (wrap_error (ErrHoldUnread RuleNewAccount) (call_db (account_created_at (ca_member c)))) (\<lambda>created.
     let at = (if cl_at (ca_click c) = zero_time then ca_at c else cl_at (ca_click c)); age = at - created
     in if new_account_age r \<le> age then give no_hold
        else give \<lparr>ho_rule = RuleNewAccount, ho_reason = say (NewAccountWords age (new_account_age r))\<rparr>))"

definition sale_cap_rule :: "hold_rules \<Rightarrow> (hold_words \<Rightarrow> string) \<Rightarrow> candidate \<Rightarrow> hold" where
  "sale_cap_rule r say c =
     (let ceiling = sale_cap r in
      if currency_of ceiling = [] \<or> currency_of (ca_sale c) \<noteq> currency_of ceiling \<or> minor (ca_sale c) <s minor ceiling
      then no_hold
      else \<lparr>ho_rule = RuleSaleCap, ho_reason = say (SaleCapWords (ca_sale c) ceiling)\<rparr>)"

definition member_velocity ::
  "hold_rules \<Rightarrow> (hold_words \<Rightarrow> string) \<Rightarrow> candidate \<Rightarrow> 'l world \<Rightarrow> (earn_error + hold) \<times> 'l world" where
  "member_velocity r say c =
     (if velocity r = 0 then give no_hold
      else
     and_then (wrap_error (ErrHoldUnread RuleMemberVelocity)
       (call_db (member_credits_since (ca_member c) (ca_at c - velocity_window r)))) (\<lambda>n.
     if int n < velocity r then give no_hold
     else give \<lparr>ho_rule = RuleMemberVelocity,
       ho_reason = say (VelocityWords n (velocity_window r) (velocity r))\<rparr>))"

definition evaluate ::
  "hold_rules \<Rightarrow> (hold_words \<Rightarrow> string) \<Rightarrow> candidate \<Rightarrow> 'l world \<Rightarrow> (earn_error + hold) \<times> 'l world" where
  "evaluate r say c =
     (if ca_member c = nil_uuid \<or> ca_at c = zero_time then refuse ErrNoCandidate
      else
     and_then (shared_context r say c) (\<lambda>h1. if is_held h1 then give h1 else
     and_then (new_account r say c) (\<lambda>h2. if is_held h2 then give h2 else
     if is_held (sale_cap_rule r say c) then give (sale_cap_rule r say c)
     else member_velocity r say c)))"

text \<open>\<open>Lifecycle.judge\<close>: no rule configured asks nothing, and a set that cannot run is refused.\<close>

definition judge ::
  "hold_rules \<Rightarrow> (hold_words \<Rightarrow> string) \<Rightarrow> candidate \<Rightarrow> 'l world \<Rightarrow> (earn_error + hold) \<times> 'l world" where
  "judge r say c =
     (if active_rules r = [] then give no_hold
      else case hold_rules_validate r of Some e \<Rightarrow> refuse e | None \<Rightarrow> evaluate r say c)"

section \<open>What the verdict is\<close>

text \<open>The rules as questions about the tables, in the order they are asked.\<close>

definition rule_questions :: "hold_rules \<Rightarrow> candidate \<Rightarrow> earn_db \<Rightarrow> (string \<times> bool) list" where
  "rule_questions r c d =
     [(RuleSharedContext,
        shared_accounts r \<noteq> 0 \<and> cl_digest (ca_click c) \<noteq> [] \<and>
        shared_accounts r \<le> int (card (c_account ` {k \<in> set (clicks d).
           c_digest k = Some (cl_digest (ca_click c)) \<and> ca_at c - shared_window r \<le> c_at k}))),
      (RuleNewAccount,
        new_account_age r \<noteq> 0 \<and>
        (case map_of (members d) (ca_member c) of None \<Rightarrow> False
         | Some created \<Rightarrow>
             (if cl_at (ca_click c) = zero_time then ca_at c else cl_at (ca_click c)) - created < new_account_age r)),
      (RuleSaleCap,
        currency_of (sale_cap r) \<noteq> [] \<and> currency_of (ca_sale c) = currency_of (sale_cap r) \<and>
        sint (minor (sale_cap r)) \<le> sint (minor (ca_sale c))),
      (RuleMemberVelocity,
        velocity r \<noteq> 0 \<and>
        velocity r \<le> int (length (filter (\<lambda>e. e_account e = ca_member c \<and> e_reversal_of e = None \<and>
           ca_at c - velocity_window r \<le> e_created e) (entries d))))]"

definition first_rule :: "hold_rules \<Rightarrow> candidate \<Rightarrow> earn_db \<Rightarrow> string" where
  "first_rule r c d = (case filter snd (rule_questions r c d) of [] \<Rightarrow> [] | q # _ \<Rightarrow> fst q)"

lemma call_db_read:
  "call_db (\<lambda>d. (f d, d)) w = (x, v) \<Longrightarrow> db v = db w \<and> ledger v = ledger w \<and> (\<forall>a. x = Inr a \<longrightarrow> f (db w) = Inr a)"
  by (auto simp: call_db_def split: if_splits)

lemma reads_as_functions:
  "accounts_sharing_context g s = (\<lambda>d. (fst (accounts_sharing_context g s d), d))"
  "member_credits_since m s = (\<lambda>d. (fst (member_credits_since m s d), d))"
  "account_created_at m = (\<lambda>d. (fst (account_created_at m d), d))"
  by (auto simp: accounts_sharing_context_def member_credits_since_def account_created_at_def split: option.splits)

definition same_store :: "'l world \<Rightarrow> 'l world \<Rightarrow> bool" where
  "same_store w v \<longleftrightarrow> db v = db w \<and> ledger v = ledger w"

lemma same_store_rel [simp, intro!]: "reflp same_store" "transp same_store"
  by (auto simp: reflp_def transp_def same_store_def)

lemma read_rows:
  "call_db (accounts_sharing_context g s) w = (Inr n, v) \<Longrightarrow> same_store w v \<and>
     n = card (c_account ` {k \<in> set (clicks (db w)). c_digest k = Some g \<and> s \<le> c_at k})"
  "call_db (member_credits_since m s) w = (Inr n, v) \<Longrightarrow> same_store w v \<and>
     n = length (filter (\<lambda>e. e_account e = m \<and> e_reversal_of e = None \<and> s \<le> e_created e) (entries (db w)))"
  "call_db (account_created_at m) w = (Inr t, v) \<Longrightarrow> same_store w v \<and> map_of (members (db w)) m = Some t"
  by (auto simp: call_db_Inr accounts_sharing_context_def member_credits_since_def account_created_at_def
      same_store_def length_remdups_card_conv image_def Collect_conj_eq split: option.splits)
    (metis Int_commute)?

text \<open>What each rule answers when it could be asked.\<close>

lemma shared_context_answer:
  assumes "shared_context r say c w = (Inr h, v)"
  shows "same_store w v \<and>
     ho_rule h = (if snd (rule_questions r c (db w) ! 0) then RuleSharedContext else [])"
proof (cases "shared_accounts r = 0 \<or> cl_digest (ca_click c) = []")
  case True
  then show ?thesis using assms
    by (auto simp: shared_context_def effects rule_questions_def no_hold_def same_store_def)
next
  case False
  then show ?thesis using assms
    by (auto simp: shared_context_def effects rule_questions_def no_hold_def dest!: read_rows(1) split: if_splits)
qed

lemma new_account_answer:
  assumes "new_account r say c w = (Inr h, v)"
  shows "same_store w v \<and> ho_rule h = (if snd (rule_questions r c (db w) ! 1) then RuleNewAccount else [])"
proof (cases "new_account_age r = 0")
  case True
  then show ?thesis using assms
    by (auto simp: new_account_def effects rule_questions_def no_hold_def same_store_def)
next
  case False
  then show ?thesis using assms
    by (auto simp: new_account_def effects rule_questions_def no_hold_def Let_def dest!: read_rows(3) split: if_splits)
qed

lemma sale_cap_answer:
  "ho_rule (sale_cap_rule r say c) = (if snd (rule_questions r c d ! 2) then RuleSaleCap else [])"
  by (auto simp: sale_cap_rule_def rule_questions_def no_hold_def Let_def word_sless_alt)

lemma member_velocity_answer:
  assumes "member_velocity r say c w = (Inr h, v)"
  shows "same_store w v \<and> ho_rule h = (if snd (rule_questions r c (db w) ! 3) then RuleMemberVelocity else [])"
proof (cases "velocity r = 0")
  case True
  then show ?thesis using assms
    by (auto simp: member_velocity_def effects rule_questions_def no_hold_def same_store_def)
next
  case False
  then show ?thesis using assms
    by (auto simp: member_velocity_def effects rule_questions_def no_hold_def dest!: read_rows(2) split: if_splits)
qed

lemma first_rule_unfold:
  "first_rule r c d = (let asked = (\<lambda>i. snd (rule_questions r c d ! i)) in
     if asked 0 then RuleSharedContext else if asked 1 then RuleNewAccount
     else if asked 2 then RuleSaleCap else if asked 3 then RuleMemberVelocity else [])"
  by (simp add: first_rule_def rule_questions_def Let_def)

lemma call_db_read_keeps: "(\<And>d. snd (f d) = d) \<Longrightarrow> keeps same_store (call_db f)"
  by (auto simp: keeps_def same_store_def call_db_def split: prod.splits) (metis snd_conv)

lemma evaluate_reads_only: "keeps same_store (evaluate r say c)"
proof -
  have r: "keeps same_store (call_db (accounts_sharing_context g s))" "keeps same_store (call_db (account_created_at m))"
    "keeps same_store (call_db (member_credits_since m s))" for g s m
    by (rule call_db_read_keeps, simp add: accounts_sharing_context_def account_created_at_def member_credits_since_def
        split: option.splits)+
  show ?thesis
    unfolding evaluate_def shared_context_def new_account_def member_velocity_def Let_def
    by (intro keeps_intros keeps_if r same_store_rel)
qed


lemma evaluate_answer:
  assumes "evaluate r say c w = (Inr h, v)"
  shows "same_store w v \<and> ho_rule h = first_rule r c (db w)"
proof -
  have c: "\<not> (ca_member c = nil_uuid \<or> ca_at c = zero_time)" using assms by (auto simp: evaluate_def effects)
  then obtain h1 w1 where one: "shared_context r say c w = (Inr h1, w1)"
    and r1: "(if is_held h1 then give h1 else
       and_then (new_account r say c) (\<lambda>h2. if is_held h2 then give h2 else
       if is_held (sale_cap_rule r say c) then give (sale_cap_rule r say c)
       else member_velocity r say c)) w1 = (Inr h, v)"
    using assms by (auto simp: evaluate_def and_then_Inr)
  note a1 = shared_context_answer [OF one]
  show ?thesis
  proof (cases "is_held h1")
    case True
    then show ?thesis using a1 r1 by (auto simp: first_rule_unfold Let_def effects is_held_def split: if_splits)
  next
    case False
    then obtain h2 w2 where two: "new_account r say c w1 = (Inr h2, w2)"
      and r2: "(if is_held h2 then give h2 else
         if is_held (sale_cap_rule r say c) then give (sale_cap_rule r say c)
         else member_velocity r say c) w2 = (Inr h, v)"
      using r1 by (auto simp: and_then_Inr)
    note a2 = new_account_answer [OF two]
    have d: "db w1 = db w" "db w2 = db w" "ledger w2 = ledger w" using a1 a2 by (auto simp: same_store_def)
    show ?thesis
    proof (cases "is_held h2")
      case True
      then show ?thesis using a1 a2 r2 False d
        by (auto simp: first_rule_unfold Let_def effects is_held_def same_store_def split: if_splits)
    next
      case not2: False
      show ?thesis
      proof (cases "is_held (sale_cap_rule r say c)")
        case True
        then show ?thesis using a1 a2 r2 False not2 d sale_cap_answer [of r say c "db w"]
          by (auto simp: first_rule_unfold Let_def effects is_held_def same_store_def split: if_splits)
      next
        case not3: False
        then have "member_velocity r say c w2 = (Inr h, v)" using r2 not2 by simp
        note a4 = member_velocity_answer [OF this]
        then show ?thesis using a1 a2 False not2 not3 d sale_cap_answer [of r say c "db w"]
          by (auto simp: first_rule_unfold Let_def is_held_def same_store_def split: if_splits)
      qed
    qed
  qed
qed


definition capped_rules :: hold_rules where
  "capped_rules = \<lparr>shared_accounts = 0, shared_window = 0, new_account_age = 10,
     sale_cap = \<lparr>minor = 50000, currency_of = ''EUR''\<rparr>, velocity = 0, velocity_window = 0\<rparr>"

definition big_sale :: candidate where
  "big_sale = \<lparr>ca_member = 7,
     ca_click = \<lparr>cl_id = 1, cl_ref = [], cl_account = 7, cl_offer = 3, cl_route = 4, cl_network = ''awin'', cl_at = 90,
       cl_promised = \<lparr>rate = percent_band 400, member_share = 5000\<rparr>, cl_digest = []\<rparr>,
     ca_sale = \<lparr>minor = 60000, currency_of = ''EUR''\<rparr>, ca_at = 100\<rparr>"

definition one_member :: earn_db where
  "one_member = \<lparr>entries = [], transitions = [], links = [], outbox = [], queue = [], reports = [], clicks = [],
     participation = [(7, ''EUR'')], members = [(7, 20)], brands = [], moved = [], destinations = [], withdrawals = [], payouts = [], operators = [],
     minted = 0\<rparr>"


end
