(* ===== verification/Matching.thy ===== *)
theory Matching
  imports Entries
begin

text \<open>
  \<open>internal/cashback/earnings/attribution.go\<close> and \<open>unmatched.go\<close> over the statements of
  \<open>queries/attribution.sql\<close>: a reported reference resolved to the click that earned it, or the report
  put in the unattributed queue with the reason the statement that queued it decided. A
  \<open>networks.ClickRef\<close> is a \<open>string option\<close>, \<open>None\<close> where the network reported no reference.
\<close>

section \<open>The four statements that queue\<close>

definition queue_when ::
  "string \<Rightarrow> (earn_db \<Rightarrow> report_row \<Rightarrow> bool) \<Rightarrow> (nat \<Rightarrow> uuid) \<Rightarrow> instant \<Rightarrow> uuid \<Rightarrow> earn_db \<Rightarrow>
   (db_error + queue_row) \<times> earn_db" where
  "queue_when why cond fresh now i d =
     (case find_report d i of
        None \<Rightarrow> (Inl NoRows, d)
      | Some nt \<Rightarrow>
          if \<not> cond d nt then (Inl NoRows, d)
          else if list_ex (\<lambda>q. q_report q = rp_id nt) (queue d) then (Inl NoRows, d)
          else if list_ex (\<lambda>q. q_id q = fresh (minted d)) (queue d)
            then (Inl (UniqueViolation ''unattributed_transaction_pkey''), d)
          else
            (let q = \<lparr>q_id = fresh (minted d), q_report = rp_id nt, q_reason = why, q_detected = now\<rparr>
             in (Inr q, d\<lparr>queue := queue d @ [q], minted := Suc (minted d)\<rparr>)))"

definition names_no_click :: "earn_db \<Rightarrow> report_row \<Rightarrow> bool" where
  "names_no_click d nt =
     (rp_click_ref nt \<noteq> None \<and> \<not> list_ex (\<lambda>c. Some (c_ref c) = rp_click_ref nt) (clicks d))"

definition names_a_credited_click :: "earn_db \<Rightarrow> report_row \<Rightarrow> bool" where
  "names_a_credited_click d nt =
     (rp_click_ref nt \<noteq> None \<and>
      list_ex (\<lambda>c. Some (c_ref c) = rp_click_ref nt \<and>
        list_ex (\<lambda>e. e_click e = Some (c_id c) \<and> e_reversal_of e = None) (entries d)) (clicks d))"

definition currency_is_foreign :: "earn_db \<Rightarrow> report_row \<Rightarrow> bool" where
  "currency_is_foreign d nt =
     list_ex (\<lambda>c. Some (c_ref c) = rp_click_ref nt \<and>
       (case map_of (participation d) (c_account c) of None \<Rightarrow> True | Some cur \<Rightarrow> cur \<noteq> rp_currency nt)) (clicks d)"

definition network_is_foreign :: "earn_db \<Rightarrow> report_row \<Rightarrow> bool" where
  "network_is_foreign d nt =
     list_ex (\<lambda>c. Some (c_ref c) = rp_click_ref nt \<and> c_network c \<noteq> rp_network nt) (clicks d)"

abbreviation "record_unmatched_reference \<equiv> queue_when ''unknown_reference'' names_no_click"
abbreviation "record_credited_click_reference \<equiv> queue_when ''click_already_credited'' names_a_credited_click"
abbreviation "record_foreign_currency_reference \<equiv> queue_when ''foreign_currency'' currency_is_foreign"
abbreviation "record_foreign_network_reference \<equiv> queue_when ''foreign_network'' network_is_foreign"

section \<open>Queueing\<close>

type_synonym queue_statement = "(nat \<Rightarrow> uuid) \<Rightarrow> instant \<Rightarrow> uuid \<Rightarrow> earn_db \<Rightarrow> (db_error + queue_row) \<times> earn_db"

record unmatched =
  um_id :: uuid
  um_report :: uuid
  um_detected :: instant

text \<open>One \<open>queue...\<close> function of \<open>unmatched.go\<close>: no row is a silence, anything else an error.\<close>

definition queue_write ::
  "'l machine \<Rightarrow> queue_statement \<Rightarrow> uuid \<Rightarrow> 'l world \<Rightarrow> (earn_error + unmatched option) \<times> 'l world" where
  "queue_write M st i w =
     (case call_db (st (fresh_ids M) (clock w) i) w of
        (Inl NoRows, v) \<Rightarrow> (Inr None, v)
      | (Inl e, v) \<Rightarrow> (Inl (ErrNotQueued e), v)
      | (Inr q, v) \<Rightarrow> (Inr (Some \<lparr>um_id = q_id q, um_report = q_report q, um_detected = q_detected q\<rparr>), v))"

definition queue_unmatched :: "'l machine \<Rightarrow> uuid \<Rightarrow> 'l world \<Rightarrow> (earn_error + unmatched option) \<times> 'l world" where
  "queue_unmatched M = queue_write M record_unmatched_reference"

definition queue_credited_click :: "'l machine \<Rightarrow> uuid \<Rightarrow> 'l world \<Rightarrow> (earn_error + unmatched option) \<times> 'l world" where
  "queue_credited_click M = queue_write M record_credited_click_reference"

definition queue_foreign_currency :: "'l machine \<Rightarrow> uuid \<Rightarrow> 'l world \<Rightarrow> (earn_error + unmatched option) \<times> 'l world" where
  "queue_foreign_currency M = queue_write M record_foreign_currency_reference"

definition queue_foreign_network :: "'l machine \<Rightarrow> uuid \<Rightarrow> 'l world \<Rightarrow> (earn_error + unmatched option) \<times> 'l world" where
  "queue_foreign_network M = queue_write M record_foreign_network_reference"

definition announce_unattributed :: "'l machine \<Rightarrow> unmatched \<Rightarrow> 'l world \<Rightarrow> (earn_error + unit) \<times> 'l world" where
  "announce_unattributed M q =
     (if um_report q = nil_uuid then refuse ErrNotAnnounced
      else announce M (TransactionUnattributed (um_report q) (um_detected q)))"

section \<open>Matching\<close>

record report =
  rf_id :: uuid
  rf_ref :: "string option"
  rf_network :: string

text \<open>\<open>Attribution.Matched\<close> is whether there is a click.\<close>

record attribution =
  at_report :: uuid
  at_click :: "click option"
  at_queued :: uuid

definition queue_report ::
  "'l machine \<Rightarrow> uuid \<Rightarrow> (uuid \<Rightarrow> 'l world \<Rightarrow> (earn_error + unmatched option) \<times> 'l world) \<Rightarrow>
   'l world \<Rightarrow> (earn_error + attribution) \<times> 'l world" where
  "queue_report M i write =
     and_then (write i) (\<lambda>wrote. case wrote of
        None \<Rightarrow> give \<lparr>at_report = i, at_click = None, at_queued = nil_uuid\<rparr>
      | Some q \<Rightarrow> and_then (announce_unattributed M q) (\<lambda>_.
          give \<lparr>at_report = i, at_click = None, at_queued = um_id q\<rparr>))"

definition clicks_by_ref ::
  "string \<Rightarrow> string option \<Rightarrow> 'l world \<Rightarrow> (click_error + click) \<times> 'l world" where
  "clicks_by_ref network reported w =
     (case reported of
        None \<Rightarrow> (Inl ErrNoSuchClick, w)
      | Some ref \<Rightarrow>
          if \<not> network_id_valid network then (Inl ErrInvalidNetworkID, w)
          else case call_db (\<lambda>d. (get_click_by_ref ref network (clicks d), d)) w of
              (answer, v) \<Rightarrow> (by_ref network reported (\<lambda>_ _. answer), v))"

definition match_report :: "'l machine \<Rightarrow> report \<Rightarrow> 'l world \<Rightarrow> (earn_error + attribution) \<times> 'l world" where
  "match_report M r w =
     (if rf_ref r = None then (Inl ErrNoReference, w)
      else if \<not> network_id_valid (rf_network r) then (Inl ErrNoNetwork, w)
      else case clicks_by_ref (rf_network r) (rf_ref r) w of
          (Inl ErrNoSuchClick, v) \<Rightarrow>
            and_then (queue_report M (rf_id r) (queue_unmatched M)) (\<lambda>queued.
              if at_queued queued \<noteq> nil_uuid then give queued
              else queue_report M (rf_id r) (queue_foreign_network M)) v
        | (Inl e, v) \<Rightarrow> (Inl (ErrResolving e), v)
        | (Inr c, v) \<Rightarrow> (Inr \<lparr>at_report = rf_id r, at_click = Some c, at_queued = nil_uuid\<rparr>, v))"

section \<open>What a queue write does\<close>

text \<open>The queue and the outbox grow; nothing else of the tables and nothing of the ledger moves.\<close>

definition queues_only :: "'l world \<Rightarrow> 'l world \<Rightarrow> bool" where
  "queues_only w v \<longleftrightarrow> ledger v = ledger w \<and> clock v = clock w \<and>
     (\<exists>qs evs n. db v = (db w)\<lparr>queue := queue (db w) @ qs, outbox := outbox (db w) @ evs, minted := n\<rparr>)"

lemma queues_only_refl: "queues_only w w"
  unfolding queues_only_def by (intro conjI exI [of _ "[]"] exI [of _ "minted (db w)"]) simp_all

lemma queues_only_trans: "queues_only u v \<Longrightarrow> queues_only v w \<Longrightarrow> queues_only u w"
proof -
  assume 1: "queues_only u v" and 2: "queues_only v w"
  obtain qs evs n where a: "db v = (db u)\<lparr>queue := queue (db u) @ qs, outbox := outbox (db u) @ evs, minted := n\<rparr>"
    using 1 by (auto simp: queues_only_def)
  obtain qs' evs' n' where b: "db w = (db v)\<lparr>queue := queue (db v) @ qs', outbox := outbox (db v) @ evs', minted := n'\<rparr>"
    using 2 by (auto simp: queues_only_def)
  have "db w = (db u)\<lparr>queue := queue (db u) @ (qs @ qs'), outbox := outbox (db u) @ (evs @ evs'), minted := n'\<rparr>"
    by (simp add: a b)
  then show ?thesis using 1 2 unfolding queues_only_def by metis
qed

lemma queues_only_rel [simp, intro!]: "reflp queues_only" "transp queues_only"
  using queues_only_refl queues_only_trans unfolding reflp_def transp_def by blast+

lemma queues_onlyD:
  assumes "queues_only w v"
  shows "entries (db v) = entries (db w)" "links (db v) = links (db w)" "clicks (db v) = clicks (db w)"
    "reports (db v) = reports (db w)" "participation (db v) = participation (db w)" "ledger v = ledger w"
    "find_report (db v) i = find_report (db w) i" "set (queue (db w)) \<subseteq> set (queue (db v))"
    "moved (db v) = moved (db w)" "transitions (db v) = transitions (db w)" "members (db v) = members (db w)"
    "clock v = clock w"
  using assms by (auto simp: queues_only_def find_report_def)

lemma call_db_queues_only:
  assumes "\<And>d. \<exists>qs evs n. snd (st d) = d\<lparr>queue := queue d @ qs, outbox := outbox d @ evs, minted := n\<rparr>"
  shows "keeps queues_only (call_db st)"
proof (unfold keeps_def, rule allI)
  fix w :: "'l world"
  show "queues_only w (snd (call_db st w))"
  proof (cases "ctx_done w")
    case True
    then show ?thesis by (simp add: call_db_def queues_only_refl)
  next
    case False
    then have "db (snd (call_db st w)) = snd (st (db w))" "ledger (snd (call_db st w)) = ledger w"
      "clock (snd (call_db st w)) = clock w"
      by (auto simp: call_db_def split: prod.splits)
    then show ?thesis using assms [of "db w"] by (simp add: queues_only_def)
  qed
qed

lemma grows_by_nothing: "\<exists>qs evs n. d = d\<lparr>queue := queue d @ qs, outbox := outbox d @ evs, minted := n\<rparr>"
  by (intro exI [of _ "[]"] exI [of _ "minted d"]) simp

lemma queue_when_grows: "\<exists>qs evs n. snd (queue_when why cond fresh now i d) =
    d\<lparr>queue := queue d @ qs, outbox := outbox d @ evs, minted := n\<rparr>"
proof -
  have one: "\<exists>qs evs n. d\<lparr>queue := queue d @ [q], minted := k\<rparr> =
      d\<lparr>queue := queue d @ qs, outbox := outbox d @ evs, minted := n\<rparr>" for q k
    by (intro exI [of _ "[q]"] exI [of _ "[]"] exI [of _ k]) simp
  show ?thesis using grows_by_nothing one by (auto simp: queue_when_def Let_def split: option.split)
qed

lemma append_event_grows: "\<exists>qs evs n. snd (append_event ustr ev d) =
    d\<lparr>queue := queue d @ qs, outbox := outbox d @ evs, minted := n\<rparr>"
proof (cases "list_ex (\<lambda>x. event_key ustr x = event_key ustr ev) (outbox d)")
  case True
  then show ?thesis
    by (intro exI [of _ "[]"] exI [of _ "minted d"]) (simp add: append_event_def)
next
  case False
  then show ?thesis
    by (intro exI [of _ "[]"] exI [of _ "[ev]"] exI [of _ "minted d"]) (simp add: append_event_def)
qed

lemma announce_queues_only: "keeps queues_only (announce M ev)"
  unfolding announce_def by (intro keeps_wrap_error call_db_queues_only append_event_grows)

lemma queue_write_queues_only: "keeps queues_only (queue_write M (queue_when why cond) i)"
proof (unfold keeps_def, rule allI)
  fix w
  have "snd (queue_write M (queue_when why cond) i w) = snd (call_db (queue_when why cond (fresh_ids M) (clock w) i) w)"
  proof (cases "call_db (queue_when why cond (fresh_ids M) (clock w) i) w")
    case (Pair x v)
    show ?thesis
    proof (cases x)
      case (Inl e)
      then show ?thesis using Pair by (cases e) (simp_all add: queue_write_def)
    qed (use Pair in \<open>simp add: queue_write_def\<close>)
  qed
  then show "queues_only w (snd (queue_write M (queue_when why cond) i w))"
    by (simp only:) (rule keeps_snd, rule call_db_queues_only, rule queue_when_grows)
qed

lemmas queue_writes = queue_unmatched_def queue_credited_click_def queue_foreign_currency_def
  queue_foreign_network_def

lemma announce_unattributed_queues_only: "keeps queues_only (announce_unattributed M q)"
  unfolding announce_unattributed_def by (intro keeps_if keeps_refuse announce_queues_only queues_only_rel)

lemma queue_report_queues_only:
  assumes "keeps queues_only (write i)"
  shows "keeps queues_only (queue_report M i write)"
  unfolding queue_report_def
proof (rule keeps_and_then [OF queues_only_rel(2) assms])
  fix wrote
  show "keeps queues_only (case wrote of
        None \<Rightarrow> give \<lparr>at_report = i, at_click = None, at_queued = nil_uuid\<rparr>
      | Some q \<Rightarrow> and_then (announce_unattributed M q) (\<lambda>_.
          give \<lparr>at_report = i, at_click = None, at_queued = um_id q\<rparr>))"
    by (cases wrote) (simp_all add: keeps_give keeps_and_then announce_unattributed_queues_only)
qed

lemma clicks_by_ref_queues_only: "keeps queues_only (clicks_by_ref network reported)"
proof (unfold keeps_def, rule allI)
  fix w :: "'l world"
  have get: "queues_only w (snd (call_db (\<lambda>d. (get_click_by_ref ref network (clicks d), d)) w))" for ref
    by (rule keeps_snd, rule call_db_queues_only) (simp add: grows_by_nothing)
  show "queues_only w (snd (clicks_by_ref network reported w))"
  proof (cases reported)
    case None
    then show ?thesis by (simp add: clicks_by_ref_def queues_only_refl)
  next
    case (Some ref)
    then show ?thesis using get [of ref]
      by (cases "call_db (\<lambda>d. (get_click_by_ref ref network (clicks d), d)) w") (simp add: clicks_by_ref_def queues_only_refl)
  qed
qed

lemma match_report_queues_only:
  fixes M :: "'l machine"
  shows "keeps queues_only (match_report M r)"
proof (unfold keeps_def, rule allI)
  fix w :: "'l world"
  define q :: "'l world \<Rightarrow> (earn_error + attribution) \<times> 'l world" where
    "q = and_then (queue_report M (rf_id r) (queue_unmatched M)) (\<lambda>queued.
              if at_queued queued \<noteq> nil_uuid then give queued
              else queue_report M (rf_id r) (queue_foreign_network M))"
  have q: "keeps queues_only q"
    unfolding q_def by (intro keeps_and_then keeps_if keeps_give queue_report_queues_only queues_only_rel)
      (simp_all add: queue_writes queue_write_queues_only)
  obtain x v where c: "clicks_by_ref (rf_network r) (rf_ref r) w = (x, v)"
    by (cases "clicks_by_ref (rf_network r) (rf_ref r) w")
  have v: "queues_only w v" using keepsD [OF clicks_by_ref_queues_only c] .
  have qv: "queues_only w (snd (q v))" using queues_only_trans [OF v keeps_snd [OF q]] .
  show "queues_only w (snd (match_report M r w))"
  proof (cases "rf_ref r = None \<or> \<not> network_id_valid (rf_network r)")
    case True
    then show ?thesis by (auto simp: match_report_def queues_only_refl)
  next
    case False
    show ?thesis
    proof (cases x)
      case (Inl e)
      then show ?thesis using False c v qv by (cases e) (simp_all add: match_report_def q_def queues_only_refl)
    qed (use False c v in \<open>simp add: match_report_def queues_only_refl\<close>)
  qed
qed

section \<open>A report is matched or queued\<close>

definition in_queue :: "earn_db \<Rightarrow> uuid \<Rightarrow> bool" where
  "in_queue d i = list_ex (\<lambda>q. q_report q = i) (queue d)"

lemma queue_write_cases:
  assumes "queue_write M (queue_when why cond) i w = (Inr wrote, v)"
  obtains (silent) "wrote = None" "queues_only w v" "db v = db w"
      "find_report (db w) i = None \<or> (\<exists>nt. find_report (db w) i = Some nt \<and> (\<not> cond (db w) nt \<or> in_queue (db w) (rp_id nt)))"
  | (written) q nt where "wrote = Some q" "find_report (db w) i = Some nt" "cond (db w) nt" "um_report q = rp_id nt"
      "\<not> in_queue (db w) (rp_id nt)" "outbox (db v) = outbox (db w)"
      "queue (db v) = queue (db w) @ [\<lparr>q_id = um_id q, q_report = rp_id nt, q_reason = why, q_detected = um_detected q\<rparr>]"
proof (cases "call_db (queue_when why cond (fresh_ids M) (clock w) i) w")
  case (Pair x u)
  have o: "queues_only w v" using keepsD [OF queue_write_queues_only assms] .
  show thesis
  proof (cases x)
    case (Inl e)
    with Pair assms have e: "e = NoRows" "wrote = None" "v = u"
      by (cases e; simp add: queue_write_def)+
    then have "\<not> ctx_done w" using Pair Inl by (auto simp: call_db_def)
    then have r: "queue_when why cond (fresh_ids M) (clock w) i (db w) = (Inl NoRows, db u)"
      using Pair Inl e by (auto simp: call_db_def split: prod.splits)
    then have same: "db u = db w"
      by (auto simp: queue_when_def Let_def split: option.splits if_splits)
    from r have "find_report (db w) i = None \<or> (\<exists>nt. find_report (db w) i = Some nt \<and> (\<not> cond (db w) nt \<or> in_queue (db w) (rp_id nt)))"
      by (auto simp: queue_when_def Let_def in_queue_def split: option.splits if_splits)
    with silent o e same show thesis by blast
  next
    case (Inr q)
    with Pair assms have wrote: "wrote = Some \<lparr>um_id = q_id q, um_report = q_report q, um_detected = q_detected q\<rparr>" "v = u"
      by (auto simp: queue_write_def)
    obtain d where d: "queue_when why cond (fresh_ids M) (clock w) i (db w) = (Inr q, d)" "db u = d"
      using Pair Inr by (auto simp: call_db_Inr)
    obtain nt where nt: "find_report (db w) i = Some nt" "cond (db w) nt"
      and q: "q = \<lparr>q_id = fresh_ids M (minted (db w)), q_report = rp_id nt, q_reason = why, q_detected = clock w\<rparr>"
      and d': "queue d = queue (db w) @ [q]" "outbox d = outbox (db w)" "\<not> in_queue (db w) (rp_id nt)"
      using d(1) by (auto simp: queue_when_def Let_def in_queue_def split: option.splits if_splits)
    show thesis by (rule written [OF wrote(1) nt]) (use d' in \<open>simp_all add: q wrote(2) d(2)\<close>)
  qed
qed

text \<open>The report is queued once: it was already, and nothing is written, or one row goes in and one event
  says so.\<close>

definition queued_once :: "string \<Rightarrow> uuid \<Rightarrow> earn_db \<Rightarrow> earn_db \<Rightarrow> bool" where
  "queued_once why i d d' \<longleftrightarrow>
     (if in_queue d i then d' = d
      else \<exists>q. queue d' = queue d @ [q] \<and> q_report q = i \<and> q_reason q = why \<and>
             outbox d' = outbox d @ [TransactionUnattributed i (q_detected q)])"

lemma queued_once_in_queue: "queued_once why i d d' \<Longrightarrow> in_queue d' i"
  by (auto simp: queued_once_def in_queue_def split: if_splits)

lemma queue_report_answer:
  assumes run: "queue_report M i (queue_write M (queue_when why cond)) w = (Inr a, v)"
    and nt: "find_report (db w) i = Some nt"
  shows "at_click a = None \<and> (at_queued a \<noteq> nil_uuid \<longrightarrow> cond (db w) nt) \<and>
     (if cond (db w) nt then queued_once why i (db w) (db v) else db v = db w)"
proof -
  have i: "rp_id nt = i" using nt by (auto simp: find_report_def find_Some_iff)
  obtain wrote u where one: "queue_write M (queue_when why cond) i w = (Inr wrote, u)"
    and rest: "(case wrote of
        None \<Rightarrow> give \<lparr>at_report = i, at_click = None, at_queued = nil_uuid\<rparr>
      | Some q \<Rightarrow> and_then (announce_unattributed M q) (\<lambda>_.
          give \<lparr>at_report = i, at_click = None, at_queued = um_id q\<rparr>)) u = (Inr a, v)"
    using run by (auto simp: queue_report_def and_then_Inr)
  from one show ?thesis
  proof (cases rule: queue_write_cases)
    case silent
    then show ?thesis using rest nt i by (auto simp: effects queued_once_def)
  next
    case (written q nt')
    then have "announce_unattributed M q u = (Inr (), v)" and a: "at_click a = None"
      using rest by (auto simp: effects)
    then have "queue (db v) = queue (db u)" "outbox (db v) = outbox (db u) @ [TransactionUnattributed (um_report q) (um_detected q)]"
      by (auto simp: announce_unattributed_def announce_def effects call_db_Inr dest!: append_event_Inr split: if_splits)
    then show ?thesis using written nt i a by (auto simp: queued_once_def)
  qed
qed

lemma match_report_answer:
  assumes run: "match_report M r w = (Inr a, v)"
    and nt: "find_report (db w) (rf_id r) = Some nt" "rp_click_ref nt = rf_ref r" "rp_network nt = rf_network r"
  shows "case at_click a of
       Some c \<Rightarrow> db v = db w \<and> (\<exists>row\<in>set (clicks (db w)).
         Some (c_ref row) = rf_ref r \<and> c_network row = rf_network r \<and> click_from row = Inr c)
     | None \<Rightarrow> (\<forall>row\<in>set (clicks (db w)). \<not> (Some (c_ref row) = rf_ref r \<and> c_network row = rf_network r)) \<and>
         queued_once (if \<exists>row\<in>set (clicks (db w)). Some (c_ref row) = rf_ref r then ''foreign_network'' else ''unknown_reference'')
           (rf_id r) (db w) (db v)"
proof -
  obtain ref where ref: "rf_ref r = Some ref" and net: "network_id_valid (rf_network r)"
    using run by (auto simp: match_report_def split: if_splits)
  obtain x u where c: "clicks_by_ref (rf_network r) (rf_ref r) w = (x, u)"
    by (cases "clicks_by_ref (rf_network r) (rf_ref r) w")
  obtain y where read: "call_db (\<lambda>d. (get_click_by_ref ref (rf_network r) (clicks d), d)) w = (y, u)"
      and x: "x = by_ref (rf_network r) (rf_ref r) (\<lambda>_ _. y)"
    using c ref net by (auto simp: clicks_by_ref_def split: prod.splits)
  have same: "db u = db w" using read by (auto simp: call_db_def split: if_splits)
  show ?thesis
  proof (cases x)
    case (Inr cl)
    then obtain row where row: "y = Inr row" "click_from row = Inr cl"
      using x ref net by (auto simp: by_ref_def split: sum.splits db_error.splits)
    then have "get_click_by_ref ref (rf_network r) (clicks (db w)) = Inr row"
      using read by (auto simp: call_db_Inr)
    then have "row \<in> set (clicks (db w))" "c_ref row = ref" "c_network row = rf_network r"
      by (auto simp: get_click_by_ref_def find_Some_iff split: option.splits)
    moreover have "a = \<lparr>at_report = rf_id r, at_click = Some cl, at_queued = nil_uuid\<rparr>" "v = u"
      using run c ref net Inr by (auto simp: match_report_def)
    ultimately show ?thesis using same row ref by auto
  next
    case (Inl e)
    have e: "e = ErrNoSuchClick" using run c ref net Inl by (cases e) (simp_all add: match_report_def)
    have "y = Inl NoRows" using x Inl e ref net
      by (auto simp: by_ref_def click_from_def new_issued_ref_def split: sum.splits db_error.splits if_splits)
    then have none: "\<forall>row\<in>set (clicks (db w)). \<not> (c_ref row = ref \<and> c_network row = rf_network r)"
      using read by (auto simp: call_db_def get_click_by_ref_def find_None_iff split: option.splits if_splits)
    have q: "and_then (queue_report M (rf_id r) (queue_unmatched M)) (\<lambda>queued.
              if at_queued queued \<noteq> nil_uuid then give queued
              else queue_report M (rf_id r) (queue_foreign_network M)) u = (Inr a, v)"
      using run c ref net Inl e by (simp add: match_report_def)
    then obtain a1 u1 where first: "queue_report M (rf_id r) (queue_unmatched M) u = (Inr a1, u1)"
      and second: "(if at_queued a1 \<noteq> nil_uuid then give a1 else queue_report M (rf_id r) (queue_foreign_network M)) u1 = (Inr a, v)"
      by (auto simp: and_then_Inr)
    have nt_u: "find_report (db u) (rf_id r) = Some nt" using nt(1) same by simp
    note A = queue_report_answer [OF first [unfolded queue_writes] nt_u]
    have nt_u1: "find_report (db u1) (rf_id r) = Some nt"
      using nt_u keepsD [OF queue_report_queues_only first] by (simp add: queue_writes queue_write_queues_only queues_onlyD)
    have clicks1: "clicks (db u1) = clicks (db w)"
      using same keepsD [OF queue_report_queues_only first] by (simp add: queue_writes queue_write_queues_only queues_onlyD)
    show ?thesis
    proof (cases "names_no_click (db w) nt")
      case True
      then have none_at_all: "\<not> (\<exists>row\<in>set (clicks (db w)). c_ref row = ref)"
        using nt(2) ref by (auto simp: names_no_click_def list_ex_iff)
      then have nf: "\<not> network_is_foreign (db u1) nt"
        using nt(2) ref clicks1 by (auto simp: network_is_foreign_def list_ex_iff)
      have "at_click a = None \<and> db v = db u1"
      proof (cases "at_queued a1 = nil_uuid")
        case False
        then show ?thesis using second A by (simp add: effects)
      next
        case True
        then show ?thesis
          using queue_report_answer [OF second [unfolded queue_writes, simplified True, simplified] nt_u1] nf by simp
      qed
      then show ?thesis using A True same none none_at_all ref by simp
    next
      case False
      then obtain row where row: "row \<in> set (clicks (db w))" "c_ref row = ref"
        using nt(2) ref by (auto simp: names_no_click_def list_ex_iff)
      then have f: "network_is_foreign (db w) nt"
        using none nt(2,3) ref by (auto simp: network_is_foreign_def list_ex_iff)
      have same1: "db u1 = db w" "at_queued a1 = nil_uuid" using A False same by auto
      show ?thesis
        using queue_report_answer [OF second [unfolded queue_writes, simplified same1(2), simplified] nt_u1]
          f same1(1) none row ref by auto
    qed
  qed
qed

text \<open>(C28) No reported purchase falls out of sight: a match that answers at all either names a click the
  reporting network itself issued under that very reference, having written nothing, or there is no
  such click and the report is in the queue, once, with the reason that is true of it and with one
  event for the row, whether this match wrote it or an earlier one did.\<close>

theorem a_report_is_matched_or_queued:
  assumes "match_report M r w = (Inr a, v)"
    and "find_report (db w) (rf_id r) = Some nt" "rp_click_ref nt = rf_ref r" "rp_network nt = rf_network r"
  shows "case at_click a of
       Some c \<Rightarrow> db v = db w \<and> (\<exists>row\<in>set (clicks (db w)).
         Some (c_ref row) = rf_ref r \<and> c_network row = rf_network r \<and> click_from row = Inr c)
     | None \<Rightarrow> (\<forall>row\<in>set (clicks (db w)). \<not> (Some (c_ref row) = rf_ref r \<and> c_network row = rf_network r)) \<and>
         in_queue (db v) (rf_id r) \<and>
         queued_once (if \<exists>row\<in>set (clicks (db w)). Some (c_ref row) = rf_ref r then ''foreign_network'' else ''unknown_reference'')
           (rf_id r) (db w) (db v)"
  using match_report_answer [OF assms] queued_once_in_queue
  by (cases "at_click a") auto

definition stray_report :: report_row where
  "stray_report = \<lparr>rp_id = 7, rp_network = ''awin'', rp_external = ''t1'', rp_click_ref = Some ''somebody-elses'',
     rp_status = ''pending'', rp_sale = 1000, rp_commission = 100, rp_currency = ''EUR'', rp_transacted = 1,
     rp_retrieved = 2, rp_supersedes = None, rp_reconciled = False\<rparr>"

definition stray_db :: earn_db where
  "stray_db = \<lparr>entries = [], transitions = [], links = [], outbox = [], queue = [], reports = [stray_report],
     clicks = [], participation = [], members = [], brands = [], moved = [], destinations = [], withdrawals = [], payouts = [], operators = [],
     minted = 1\<rparr>"

definition idle_machine :: "unit machine" where
  "idle_machine = \<lparr>ensure_op = (\<lambda>_ _ _ l. (Inr [], l)), post_op = (\<lambda>_ _ _ l. (Inr ''t'', l)),
     uuid_str = (\<lambda>_. []), fresh_ids = of_nat, receivable = ''house''\<rparr>"

theorem a_report_is_matched_or_queued_witness:
  "\<exists>a v. match_report idle_machine \<lparr>rf_id = 7, rf_ref = Some ''somebody-elses'', rf_network = ''awin''\<rparr>
       \<lparr>ledger = (), db = stray_db, fuse = None, clock = 5\<rparr> = (Inr a, v) \<and> in_queue (db v) 7"
proof -
  let ?w = "\<lparr>ledger = (), db = stray_db, fuse = None, clock = 5\<rparr>"
  let ?r = "\<lparr>rf_id = 7, rf_ref = Some ''somebody-elses'', rf_network = ''awin''\<rparr>"
  have ok: "network_id_valid ''awin''" by code_simp
  have "\<exists>a v. match_report idle_machine ?r ?w = (Inr a, v) \<and> at_click a = None"
    by (simp add: match_report_def clicks_by_ref_def ok call_db_def ctx_done_def get_click_by_ref_def by_ref_def
        stray_db_def stray_report_def queue_report_def queue_unmatched_def queue_foreign_network_def queue_write_def queue_when_def find_report_def
        names_no_click_def idle_machine_def Let_def and_then_def announce_unattributed_def announce_def wrap_error_def
        append_event_def give_def refuse_def burn_def)
  then obtain a v where run: "match_report idle_machine ?r ?w = (Inr a, v)" and "at_click a = None" by blast
  moreover have "find_report (db ?w) (rf_id ?r) = Some stray_report"
    by (simp add: find_report_def stray_db_def stray_report_def)
  ultimately show ?thesis
    using a_report_is_matched_or_queued [OF run, of stray_report] by (auto simp: stray_report_def)
qed

end
