(* ===== verification/Lifecycle.thy ===== *)
theory Lifecycle
  imports HoldRules Matching EarningsLedger
begin

text \<open>
  The crediting job of \<open>internal/cashback/earnings/lifecycle.go\<close> with the reads of
  \<open>queries/lifecycle.sql\<close>: the credit, confirm and reverse passes, each item in a transaction of its
  own. Begin and savepoint are not counted as calls of their own. One run of the job shares the world's
  clock, which stands for the transaction's \<open>now()\<close> and for \<open>time.Now\<close>.
\<close>

section \<open>The reads\<close>

definition lifecycle_batch :: nat where
  "lifecycle_batch = 500"

definition superseded :: "earn_db \<Rightarrow> uuid \<Rightarrow> bool" where
  "superseded d i = list_ex (\<lambda>s. rp_supersedes s = Some i) (reports d)"

definition same_transaction :: "report_row \<Rightarrow> report_row \<Rightarrow> bool" where
  "same_transaction a b = (rp_network a = rp_network b \<and> rp_external a = rp_external b)"

text \<open>Whether some entry cites some report of the transaction.\<close>

definition has_entry :: "earn_db \<Rightarrow> report_row \<Rightarrow> bool" where
  "has_entry d nt =
     list_ex (\<lambda>e. list_ex (\<lambda>cited. rp_id cited = e_report e \<and> same_transaction cited nt) (reports d)) (entries d)"

definition awaits_credit :: "earn_db \<Rightarrow> report_row \<Rightarrow> bool" where
  "awaits_credit d nt =
     (rp_click_ref nt \<noteq> None \<and> rp_status nt \<in> set [''pending'', ''confirmed''] \<and> 0 <s rp_commission nt \<and>
      \<not> superseded d (rp_id nt) \<and> \<not> has_entry d nt \<and> \<not> in_queue d (rp_id nt))"

definition reports_awaiting_credit :: "earn_db \<Rightarrow> report_row list" where
  "reports_awaiting_credit d =
     take lifecycle_batch (sort_key rp_retrieved (sort_key rp_id (filter (awaits_credit d) (reports d))))"

definition brand_of_offer :: "uuid \<Rightarrow> earn_db \<Rightarrow> (db_error + string) \<times> earn_db" where
  "brand_of_offer o1 d = (case map_of (brands d) o1 of None \<Rightarrow> (Inl NoRows, d) | Some b \<Rightarrow> (Inr b, d))"

text \<open>An entry with the reports that are the tip of its transaction.\<close>

definition with_tips :: "earn_db \<Rightarrow> entry_row \<Rightarrow> (entry_row \<times> report_row) list" where
  "with_tips d e =
     [(e, tip). cited \<leftarrow> reports d, rp_id cited = e_report e,
       tip \<leftarrow> reports d, same_transaction tip cited, \<not> superseded d (rp_id tip)]"

definition awaits_confirmation :: "entry_row \<times> report_row \<Rightarrow> bool" where
  "awaits_confirmation = (\<lambda>(e, tip). e_state e = StPending \<and> e_reversal_of e = None \<and> rp_status tip = ''confirmed'')"

definition awaits_reversal :: "earn_db \<Rightarrow> entry_row \<times> report_row \<Rightarrow> bool" where
  "awaits_reversal d = (\<lambda>(e, tip). e_state e \<in> set [StHeld, StPending, StConfirmed] \<and> e_reversal_of e = None \<and>
     rp_status tip \<in> set [''declined'', ''reversed''] \<and> rp_id tip \<noteq> e_report e \<and> \<not> reversed_in d (e_id e))"

definition oldest_first :: "(entry_row \<times> report_row) list \<Rightarrow> (entry_row \<times> report_row) list" where
  "oldest_first rows = take lifecycle_batch (sort_key (e_created \<circ> fst) (sort_key (e_id \<circ> fst) rows))"

definition entries_awaiting_confirmation :: "earn_db \<Rightarrow> (entry_row \<times> report_row) list" where
  "entries_awaiting_confirmation d =
     oldest_first (filter awaits_confirmation (concat (map (with_tips d) (entries d))))"

definition entries_awaiting_reversal :: "earn_db \<Rightarrow> (entry_row \<times> report_row) list" where
  "entries_awaiting_reversal d =
     oldest_first (filter (awaits_reversal d) (concat (map (with_tips d) (entries d))))"

section \<open>Crediting one report\<close>

datatype crediting = Opened entry | CreditQueued | NothingOwed

definition open_within :: "'l machine \<Rightarrow> credit \<Rightarrow> 'l world \<Rightarrow> (earn_error + entry) \<times> 'l world" where
  "open_within M c w =
     (case open_credit M c w of
        (Inl e, v) \<Rightarrow> (Inl e, v\<lparr>db := db w\<rparr>)
      | (Inr e, v) \<Rightarrow> (Inr e, v))"

definition queue_instead ::
  "'l machine \<Rightarrow> uuid \<Rightarrow> (uuid \<Rightarrow> 'l world \<Rightarrow> (earn_error + unmatched option) \<times> 'l world) \<Rightarrow>
   'l world \<Rightarrow> (earn_error + crediting) \<times> 'l world" where
  "queue_instead M i write = and_then (queue_report M i write) (\<lambda>_. give CreditQueued)"

definition open_or_queue :: "'l machine \<Rightarrow> credit \<Rightarrow> 'l world \<Rightarrow> (earn_error + crediting) \<times> 'l world" where
  "open_or_queue M c w =
     (case open_within M c w of
        (Inl e, v) \<Rightarrow>
          if e = ErrClickAlreadyCredited then queue_instead M (cr_report c) (queue_credited_click M) v
          else if e = ErrCurrencyNotTheMembers then queue_instead M (cr_report c) (queue_foreign_currency M) v
          else (Inl e, v)
      | (Inr e, v) \<Rightarrow> (Inr (Opened e), v))"

definition credit_for :: "report_row \<Rightarrow> click \<Rightarrow> string \<Rightarrow> amount \<Rightarrow> credit" where
  "credit_for r k brand owed =
     \<lparr>cr_member = cl_account k, cr_brand = brand, cr_report = rp_id r, cr_click = cl_id k, cr_state = [],
      cr_hold_rule = [], cr_amount = owed, cr_reason = ''the network reported the purchase'', cr_actor = nil_uuid\<rparr>"

definition credit_click ::
  "'l machine \<Rightarrow> hold_rules \<Rightarrow> (hold_words \<Rightarrow> string) \<Rightarrow> report_row \<Rightarrow> amount \<Rightarrow> amount \<Rightarrow> click \<Rightarrow>
   'l world \<Rightarrow> (earn_error + crediting) \<times> 'l world" where
  "credit_click M rules say r commission sale k w =
     and_then (wrap_error ErrBrandUnread (call_db (brand_of_offer (cl_offer k)))) (\<lambda>brand.
     and_then (from_sum (share_of commission (cl_promised k))) (\<lambda>s.
     if minor (sh_member s) \<le>s 0 then give NothingOwed
     else
     and_then (judge rules say \<lparr>ca_member = cl_account k, ca_click = k, ca_sale = sale, ca_at = clock w\<rparr>) (\<lambda>h.
     open_or_queue M (hold_open h (credit_for r k brand (sh_member s)))))) w"

definition credit_tx ::
  "'l machine \<Rightarrow> hold_rules \<Rightarrow> (hold_words \<Rightarrow> string) \<Rightarrow> report_row \<Rightarrow> amount \<Rightarrow> amount \<Rightarrow>
   'l world \<Rightarrow> (earn_error + crediting) \<times> 'l world" where
  "credit_tx M rules say r commission sale =
     and_then (match_report M \<lparr>rf_id = rp_id r, rf_ref = Some (or_empty (rp_click_ref r)), rf_network = rp_network r\<rparr>)
       (\<lambda>a. case at_click a of
          None \<Rightarrow> give CreditQueued
        | Some k \<Rightarrow> credit_click M rules say r commission sale k)"

text \<open>The deferred rollback undoes whatever was not committed; nothing owed is not committed.\<close>

definition credit_one ::
  "'l machine \<Rightarrow> hold_rules \<Rightarrow> (hold_words \<Rightarrow> string) \<Rightarrow> report_row \<Rightarrow> 'l world \<Rightarrow> (earn_error + crediting) \<times> 'l world" where
  "credit_one M rules say r w =
     (case new_amount (rp_commission r) (rp_currency r) of Inl e \<Rightarrow> (Inl (ErrReportedMoney e), w) | Inr commission \<Rightarrow>
     (case new_amount (rp_sale r) (rp_currency r) of Inl e \<Rightarrow> (Inl (ErrReportedMoney e), w) | Inr sale \<Rightarrow>
     (case credit_tx M rules say r commission sale w of
        (Inl e, v) \<Rightarrow> (Inl e, v\<lparr>db := db w\<rparr>)
      | (Inr NothingOwed, v) \<Rightarrow> (Inr NothingOwed, v\<lparr>db := db w\<rparr>)
      | (Inr res, v) \<Rightarrow>
          (case call_db commit_tx v of
             (Inl e, v') \<Rightarrow> (Inl (ErrNotCommitted e), v'\<lparr>db := db w\<rparr>)
           | (Inr _, v') \<Rightarrow> (Inr res, v')))))"

section \<open>Confirming and reversing one entry\<close>

definition confirm_one ::
  "'l machine \<Rightarrow> entry \<Rightarrow> uuid \<Rightarrow> 'l world \<Rightarrow> (earn_error + entry) \<times> 'l world" where
  "confirm_one M e current = within_tx (confirm_entry M e ''confirmed'' current)"

definition reverse_one ::
  "'l machine \<Rightarrow> entry \<Rightarrow> uuid \<Rightarrow> string \<Rightarrow> 'l world \<Rightarrow> (earn_error + entry \<times> transition) \<times> 'l world" where
  "reverse_one M e current status =
     within_tx (reverse_credit M
       \<lparr>rv_original = e, rv_report = current,
        rv_reason = ''the network '' @ status @ '' the commission'', rv_actor = nil_uuid\<rparr>)"

section \<open>The three passes\<close>

record outcome =
  oc_credited :: nat
  oc_held :: nat
  oc_queued :: nat
  oc_confirmed :: nat
  oc_awaiting :: nat
  oc_reversed :: nat
  oc_failed :: nat

definition no_outcome :: outcome where
  "no_outcome = \<lparr>oc_credited = 0, oc_held = 0, oc_queued = 0, oc_confirmed = 0, oc_awaiting = 0, oc_reversed = 0, oc_failed = 0\<rparr>"

datatype run_error = ErrLifecycleRead db_error | ErrRunCancelled | ErrLifecycleIncomplete nat

definition count_credit :: "(earn_error + crediting) \<Rightarrow> outcome \<Rightarrow> outcome" where
  "count_credit x out =
     (case x of
        Inl _ \<Rightarrow> out\<lparr>oc_failed := oc_failed out + 1\<rparr>
      | Inr CreditQueued \<Rightarrow> out\<lparr>oc_queued := oc_queued out + 1\<rparr>
      | Inr NothingOwed \<Rightarrow> out
      | Inr (Opened e) \<Rightarrow> if en_state e = StHeld then out\<lparr>oc_held := oc_held out + 1\<rparr> else out\<lparr>oc_credited := oc_credited out + 1\<rparr>)"

definition count_confirm :: "(earn_error + entry) \<Rightarrow> outcome \<Rightarrow> outcome" where
  "count_confirm x out =
     (case x of
        Inl e \<Rightarrow> if e = ErrNotReconciled then out\<lparr>oc_awaiting := oc_awaiting out + 1\<rparr>
                 else if e = ErrEntryMoved then out
                 else out\<lparr>oc_failed := oc_failed out + 1\<rparr>
      | Inr _ \<Rightarrow> out\<lparr>oc_confirmed := oc_confirmed out + 1\<rparr>)"

definition count_reverse :: "(earn_error + entry \<times> transition) \<Rightarrow> outcome \<Rightarrow> outcome" where
  "count_reverse x out =
     (case x of
        Inl _ \<Rightarrow> out\<lparr>oc_failed := oc_failed out + 1\<rparr>
      | Inr _ \<Rightarrow> out\<lparr>oc_reversed := oc_reversed out + 1\<rparr>)"

text \<open>The loop of a pass: the context is asked before each item, and an item that fails does not end it.\<close>

fun each_item ::
  "('i \<Rightarrow> 'l world \<Rightarrow> ('e + 'a) \<times> 'l world) \<Rightarrow> ('e + 'a \<Rightarrow> outcome \<Rightarrow> outcome) \<Rightarrow> 'i list \<Rightarrow> outcome \<Rightarrow>
   'l world \<Rightarrow> (run_error option \<times> outcome) \<times> 'l world" where
  "each_item act tally [] out w = ((None, out), w)"
| "each_item act tally (i # others) out w =
     (if ctx_done w then ((Some ErrRunCancelled, out), w)
      else case act i w of (x, v) \<Rightarrow> each_item act tally others (tally x out) v)"

definition run_pass ::
  "(earn_db \<Rightarrow> 'i list) \<Rightarrow> ('i \<Rightarrow> 'l world \<Rightarrow> ('e + 'a) \<times> 'l world) \<Rightarrow> ('e + 'a \<Rightarrow> outcome \<Rightarrow> outcome) \<Rightarrow> outcome \<Rightarrow>
   'l world \<Rightarrow> (run_error option \<times> outcome) \<times> 'l world" where
  "run_pass waiting act tally out w =
     (case call_db (\<lambda>d. (Inr (waiting d), d)) w of
        (Inl e, v) \<Rightarrow> ((Some (ErrLifecycleRead e), out), v)
      | (Inr rows, v) \<Rightarrow> each_item act tally rows out v)"

definition credit_pass ::
  "'l machine \<Rightarrow> hold_rules \<Rightarrow> (hold_words \<Rightarrow> string) \<Rightarrow> outcome \<Rightarrow> 'l world \<Rightarrow> (run_error option \<times> outcome) \<times> 'l world" where
  "credit_pass M rules say = run_pass reports_awaiting_credit (credit_one M rules say) count_credit"

definition confirm_row :: "'l machine \<Rightarrow> entry_row \<times> report_row \<Rightarrow> 'l world \<Rightarrow> (earn_error + entry) \<times> 'l world" where
  "confirm_row M r w =
     (case entry_from (fst r) of Inl e \<Rightarrow> (Inl e, w) | Inr e \<Rightarrow> confirm_one M e (rp_id (snd r)) w)"

definition reverse_row :: "'l machine \<Rightarrow> entry_row \<times> report_row \<Rightarrow> 'l world \<Rightarrow> (earn_error + entry \<times> transition) \<times> 'l world" where
  "reverse_row M r w =
     (case entry_from (fst r) of Inl e \<Rightarrow> (Inl e, w)
      | Inr e \<Rightarrow> reverse_one M e (rp_id (snd r)) (rp_status (snd r)) w)"

definition confirm_pass :: "'l machine \<Rightarrow> outcome \<Rightarrow> 'l world \<Rightarrow> (run_error option \<times> outcome) \<times> 'l world" where
  "confirm_pass M = run_pass entries_awaiting_confirmation (confirm_row M) count_confirm"

definition reverse_pass :: "'l machine \<Rightarrow> outcome \<Rightarrow> 'l world \<Rightarrow> (run_error option \<times> outcome) \<times> 'l world" where
  "reverse_pass M = run_pass entries_awaiting_reversal (reverse_row M) count_reverse"

fun run_passes ::
  "(outcome \<Rightarrow> 'l world \<Rightarrow> (run_error option \<times> outcome) \<times> 'l world) list \<Rightarrow> outcome \<Rightarrow> 'l world \<Rightarrow>
   (run_error option \<times> outcome) \<times> 'l world" where
  "run_passes [] out w = ((if oc_failed out > 0 then Some (ErrLifecycleIncomplete (oc_failed out)) else None, out), w)"
| "run_passes (p # ps) out w =
     (case p out w of
        ((Some e, out'), v) \<Rightarrow> ((Some e, out'), v)
      | ((None, out'), v) \<Rightarrow> run_passes ps out' v)"

definition run_lifecycle ::
  "'l machine \<Rightarrow> hold_rules \<Rightarrow> (hold_words \<Rightarrow> string) \<Rightarrow> 'l world \<Rightarrow> (run_error option \<times> outcome) \<times> 'l world" where
  "run_lifecycle M rules say = run_passes [credit_pass M rules say, confirm_pass M, reverse_pass M] no_outcome"

section \<open>What crediting one report does\<close>

text \<open>Nothing of the wallet or the entries is touched.\<close>

definition quiet :: "'l world \<Rightarrow> 'l world \<Rightarrow> bool" where
  "quiet w v \<longleftrightarrow> ledger v = ledger w \<and> entries (db v) = entries (db w) \<and> links (db v) = links (db w)"

lemma quietI: "queues_only w v \<Longrightarrow> quiet w v" "same_store w v \<Longrightarrow> quiet w v"
  by (simp_all add: quiet_def queues_onlyD same_store_def)

lemma quiet_trans: "quiet u v \<Longrightarrow> quiet v w \<Longrightarrow> quiet u w"
  by (simp add: quiet_def)

lemma queue_instead_queues_only:
  "keeps queues_only (write i) \<Longrightarrow> keeps queues_only (queue_instead M i write)"
  unfolding queue_instead_def by (intro keeps_and_then keeps_give queue_report_queues_only queues_only_rel)

lemma queue_writes_queue_only:
  "keeps queues_only (queue_unmatched M i)" "keeps queues_only (queue_credited_click M i)"
  "keeps queues_only (queue_foreign_currency M i)" "keeps queues_only (queue_foreign_network M i)"
  by (simp_all add: queue_writes queue_write_queues_only)

lemma open_or_queue_cases:
  assumes "open_or_queue M c w = (x, u)"
  obtains (opened) e where "open_credit M c w = (Inr e, u)" "x = Inr (Opened e)"
  | (refused) e u1 where "open_credit M c w = (Inl e, u1)" "queues_only (u1\<lparr>db := db w\<rparr>) u" "\<And>e'. x \<noteq> Inr (Opened e')"
      "x = Inr CreditQueued \<Longrightarrow>
         e = ErrClickAlreadyCredited \<and> queue_instead M (cr_report c) (queue_credited_click M) (u1\<lparr>db := db w\<rparr>) = (x, u) \<or>
         e = ErrCurrencyNotTheMembers \<and> queue_instead M (cr_report c) (queue_foreign_currency M) (u1\<lparr>db := db w\<rparr>) = (x, u)"
      "x \<noteq> Inr NothingOwed"
proof (cases "open_credit M c w")
  case (Pair y u1)
  show thesis
  proof (cases y)
    case (Inr e)
    with Pair assms opened show thesis by (simp add: open_or_queue_def open_within_def)
  next
    case (Inl e)
    let ?v = "u1\<lparr>db := db w\<rparr>"
    have run: "(if e = ErrClickAlreadyCredited then queue_instead M (cr_report c) (queue_credited_click M) ?v
          else if e = ErrCurrencyNotTheMembers then queue_instead M (cr_report c) (queue_foreign_currency M) ?v
          else (Inl e, ?v)) = (x, u)"
      using Pair assms Inl by (simp add: open_or_queue_def open_within_def)
    have q: "queues_only ?v u"
    proof (cases "e = ErrClickAlreadyCredited")
      case True
      with run have "queue_instead M (cr_report c) (queue_credited_click M) ?v = (x, u)" by simp
      then show ?thesis by (rule keepsD [OF queue_instead_queues_only [OF queue_writes_queue_only(2)]])
    next
      case other: False
      show ?thesis
      proof (cases "e = ErrCurrencyNotTheMembers")
        case True
        with run other have "queue_instead M (cr_report c) (queue_foreign_currency M) ?v = (x, u)" by simp
        then show ?thesis by (rule keepsD [OF queue_instead_queues_only [OF queue_writes_queue_only(3)]])
      qed (use run other queues_only_refl in auto)
    qed
    have "x \<noteq> Inr (Opened e')" "x \<noteq> Inr NothingOwed" for e'
      using run by (auto simp: queue_instead_def effects split: if_splits)
    moreover have "x = Inr CreditQueued \<Longrightarrow>
        e = ErrClickAlreadyCredited \<and> queue_instead M (cr_report c) (queue_credited_click M) ?v = (x, u) \<or>
        e = ErrCurrencyNotTheMembers \<and> queue_instead M (cr_report c) (queue_foreign_currency M) ?v = (x, u)"
      using run by (auto split: if_splits)
    ultimately show thesis using refused [OF Pair [unfolded Inl] q] by blast
  qed
qed

lemma judge_same_store: "keeps same_store (judge rules say c)"
proof (cases "active_rules rules = []")
  case True
  then show ?thesis by (auto simp: judge_def intro!: keeps_give)
next
  case False
  then show ?thesis
    by (cases "hold_rules_validate rules") (auto simp: judge_def intro!: keeps_refuse evaluate_reads_only)
qed

lemma credit_click_cases:
  assumes "credit_click M rules say r commission sale k w = (x, u)"
  obtains (early) "same_store w u" "\<And>e. x \<noteq> Inr (Opened e)" "x \<noteq> Inr CreditQueued"
  | (tries) brand s h w1 where "same_store w w1" "share_of commission (cl_promised k) = Inr s"
      "open_or_queue M (hold_open h (credit_for r k brand (sh_member s))) w1 = (x, u)"
proof -
  let ?brand = "wrap_error ErrBrandUnread (call_db (brand_of_offer (cl_offer k)))"
  have kb: "keeps same_store (?brand :: 'a world \<Rightarrow> _)"
    by (intro keeps_wrap_error call_db_read_keeps) (simp add: brand_of_offer_def split: option.split)
  obtain b u1 where b: "?brand w = (b, u1)" by (cases "?brand w")
  have s1: "same_store w u1" using keepsD [OF kb b] .
  show thesis
  proof (cases "(\<exists>e. b = Inl e) \<or> (\<exists>e. share_of commission (cl_promised k) = Inl e)")
    case True
    then have "u = u1" "\<exists>e. x = Inl e"
      using assms b by (auto simp: credit_click_def and_then_def from_sum_def split: sum.splits)
    then show thesis using early s1 by auto
  next
    case False
    then obtain brand s where brand: "b = Inr brand" and s: "share_of commission (cl_promised k) = Inr s"
      by (cases b; cases "share_of commission (cl_promised k)") auto
    show thesis
    proof (cases "minor (sh_member s) \<le>s 0")
      case True
      then have "x = Inr NothingOwed" "u = u1"
        using assms b brand s by (auto simp: credit_click_def and_then_def from_sum_def give_def)
      then show thesis using early s1 by auto
    next
      case False
      let ?c = "\<lparr>ca_member = cl_account k, ca_click = k, ca_sale = sale, ca_at = clock w\<rparr>"
      obtain j u2 where j: "judge rules say ?c u1 = (j, u2)" by (cases "judge rules say ?c u1")
      have s2: "same_store w u2" using keepsD [OF judge_same_store j] s1 by (simp add: same_store_def)
      show thesis
      proof (cases j)
        case (Inl e)
        then have "x = Inl e" "u = u2"
          using assms b brand s False j by (auto simp: credit_click_def and_then_def from_sum_def)
        then show thesis using early s2 by auto
      next
        case (Inr h)
        then have "open_or_queue M (hold_open h (credit_for r k brand (sh_member s))) u2 = (x, u)"
          using assms b brand s False j by (simp add: credit_click_def and_then_def from_sum_def)
        then show thesis using tries s2 s by blast
      qed
    qed
  qed
qed

section \<open>Why an opening is queued instead\<close>

lemma refusal_kinds:
  "evidence_guard d r = Some e \<Longrightarrow> e = TriggerRefused ''entry_evidence_guard''"
  "entry_checks r = Some e \<Longrightarrow> \<exists>k. e = CheckViolation k"
  "entry_unique d r = Some e \<Longrightarrow> \<exists>k. e = UniqueViolation k"
  "entry_foreign d r = Some e \<Longrightarrow> \<exists>k. e = ForeignKeyViolation k"
  by (auto simp: evidence_guard_def entry_checks_def entry_unique_def entry_foreign_def split: option.splits if_splits)

lemma create_entry_refused:
  assumes "create_entry fresh now arg d = (Inl e, d')"
  obtains (trigger) "e = TriggerRefused ''entry_evidence_guard''" | (check) k where "e = CheckViolation k"
  | (unique) "entry_unique d (arg\<lparr>e_id := fresh (minted d), e_created := now\<rparr>) = Some e"
  | (foreign) "entry_foreign d (arg\<lparr>e_id := fresh (minted d), e_created := now\<rparr>) = Some e"
proof -
  let ?r = "arg\<lparr>e_id := fresh (minted d), e_created := now\<rparr>"
  have "\<exists>es. List.map_filter id [evidence_guard d ?r, entry_checks ?r, entry_unique d ?r, entry_foreign d ?r] = e # es"
    using assms by (auto simp: create_entry_def Let_def split: list.splits)
  then have "Some e \<in> {evidence_guard d ?r, entry_checks ?r, entry_unique d ?r, entry_foreign d ?r}"
    by (auto simp: List.map_filter_def split: if_splits)
  then show thesis using refusal_kinds(1) [of d ?r e] refusal_kinds(2) [of ?r e] trigger check unique foreign
    by (elim insertE emptyE) (metis)+
qed

lemma click_taken:
  assumes "create_entry fresh now arg d = (Inl (UniqueViolation ''entry_click_id_idx''), d')"
  shows "\<exists>x\<in>set (entries d). e_reversal_of x = None \<and> e_click x = e_click arg \<and> e_click arg \<noteq> None"
  using assms
proof (cases rule: create_entry_refused)
  case unique
  then show ?thesis by (auto simp: entry_unique_def list_ex_iff split: if_splits)
qed (use refusal_kinds(4) in blast)+

lemma currency_refused:
  assumes "create_entry fresh now arg d = (Inl (ForeignKeyViolation ''entry_currency_is_the_members''), d')"
  shows "(e_account arg, e_currency arg) \<notin> set (participation d)"
  using assms
proof (cases rule: create_entry_refused)
  case foreign
  then show ?thesis by (auto simp: entry_foreign_def split: if_splits)
qed (use refusal_kinds(3) in blast)+

lemma later_refusals:
  "post_movement M mv amt key w = (Inl e, v) \<Longrightarrow> \<exists>d. e = ErrNotPosted d"
  "record_move M en from to ref reason actor w = (Inl e, v) \<Longrightarrow> \<exists>d. e = ErrNotRecorded d"
  "announce_created M x w = (Inl e, v) \<Longrightarrow> e = ErrNotAnnounced"
  "announce_state_changed M t w = (Inl e, v) \<Longrightarrow> e = ErrNotAnnounced"
  "entry_from row = Inl e \<Longrightarrow> \<exists>d. e = ErrMalformedRow d"
  "postings_for m [] to rec = Inl e \<Longrightarrow> e = ErrCannotOpenAs to"
  by (auto simp: post_movement_def record_move_def announce_created_def announce_state_changed_def announce_def
      entry_from_def postings_for_def effects split: if_splits sum.splits option.splits)

lemma open_credit_refused:
  assumes "open_credit M c w = (Inl e, v)" and "e = ErrClickAlreadyCredited \<or> e = ErrCurrencyNotTheMembers"
  obtains d where
    "create_entry (fresh_ids M) (clock w) (credit_row c) (db w) =
       (Inl (if e = ErrClickAlreadyCredited then UniqueViolation ''entry_click_id_idx''
             else ForeignKeyViolation ''entry_currency_is_the_members''), d)"
proof (cases "credit_validate c")
  case (Some f)
  then show thesis using assms by (auto simp: open_credit_def effects credit_validate_def split: if_splits)
next
  case None
  have "\<exists>v' f. call_db (create_entry (fresh_ids M) (clock w) (credit_row c)) w = (Inl f, v') \<and> e = opened_error f"
    using assms None
    by (auto simp: open_credit_def effects dest!: later_refusals)
  then obtain v' f where c: "call_db (create_entry (fresh_ids M) (clock w) (credit_row c)) w = (Inl f, v')" "e = opened_error f"
    by blast
  then have f: "f = (if e = ErrClickAlreadyCredited then UniqueViolation ''entry_click_id_idx''
             else ForeignKeyViolation ''entry_currency_is_the_members'')"
    using assms(2) by (auto simp: opened_error_def split: if_splits)
  then have "\<not> ctx_done w" using c(1) by (auto simp: call_db_def split: if_splits)
  then show thesis using that c(1) f by (auto simp: call_db_def split: prod.splits)
qed

text \<open>Opening an entry leaves the evidence alone.\<close>

definition same_evidence :: "'l world \<Rightarrow> 'l world \<Rightarrow> bool" where
  "same_evidence w v \<longleftrightarrow> reports (db v) = reports (db w) \<and> clicks (db v) = clicks (db w) \<and> queue (db v) = queue (db w)"

lemma same_evidence_rel [simp, intro!]: "reflp same_evidence" "transp same_evidence"
  by (auto simp: reflp_def transp_def same_evidence_def)

lemma call_db_same_evidence:
  "(\<And>d. reports (snd (st d)) = reports d \<and> clicks (snd (st d)) = clicks d \<and> queue (snd (st d)) = queue d) \<Longrightarrow>
   keeps same_evidence (call_db st)"
  by (auto simp: keeps_def same_evidence_def call_db_def split: prod.split) (metis snd_conv)+

lemma statements_same_evidence:
  "keeps same_evidence (call_db (create_entry fresh now arg))"
  "keeps same_evidence (call_db (record_transition fresh now t))"
  "keeps same_evidence (call_db (link_transfer k))"
  "keeps same_evidence (call_db (append_event ustr ev))"
  by (rule call_db_same_evidence, simp add: create_entry_def record_transition_def link_transfer_def append_event_def
      Let_def split: list.split option.split)+

lemma steps_same_evidence:
  "keeps same_evidence (post_movement M mv amt key)"
  "keeps same_evidence (record_move M en from to ref reason actor)"
  "keeps same_evidence (announce_created M x)" "keeps same_evidence (announce_state_changed M t)"
proof -
  show "keeps same_evidence (post_movement M mv amt key)"
    using post_movement_same_db [of M mv amt key] by (auto simp: keeps_def same_db_def same_evidence_def)
  show "keeps same_evidence (record_move M en from to ref reason actor)"
  proof (unfold keeps_def, rule allI)
    fix w
    show "same_evidence w (snd (record_move M en from to ref reason actor w))"
      unfolding record_move_def
      by (rule keeps_snd) (intro keeps_intros statements_same_evidence same_evidence_rel)
  qed
  show "keeps same_evidence (announce_created M x)" "keeps same_evidence (announce_state_changed M t)"
    unfolding announce_created_def announce_state_changed_def announce_def
    by (intro keeps_intros keeps_if statements_same_evidence same_evidence_rel)+
qed

lemma open_credit_same_evidence: "keeps same_evidence (open_credit M c)"
proof (unfold keeps_def, rule allI)
  fix w
  show "same_evidence w (snd (open_credit M c w))"
  proof (cases "credit_validate c")
    case None
    then show ?thesis
      unfolding open_credit_def option.case
      by (simp only: option.case)
        (rule keeps_snd, intro keeps_intros statements_same_evidence steps_same_evidence same_evidence_rel)
  qed (simp add: open_credit_def refuse_def same_evidence_def)
qed

lemma open_credit_Inr:
  assumes "open_credit M c w = (Inr e, v)"
  obtains row where "row \<in> set (entries (db v))" "entry_from row = Inr e" "e_report row = cr_report c"
    "e_account row = cr_member c" "e_state row = cr_state c" "e_reversal_of row = None"
    "e_minor row = minor (cr_amount c)" "e_currency row = currency_of (cr_amount c)" "e_click row = uuid_or_null (cr_click c)"
    "can_open (cr_state c)"
  using assms
proof (cases rule: open_credit_cases)
  case (posted mv row d1 u0 ref u)
  note row = create_entry_Inr [OF posted(3)]
  have "db u = db u0" using keepsD [OF post_movement_same_db posted(6)] by (simp add: same_db_def)
  then have "row \<in> set (entries (db v))" using posted(8) row(2) posted(4) by simp
  moreover have "can_open (cr_state c)" using posted(1) by (auto simp: credit_validate_def split: if_splits)
  ultimately show thesis using that [of row] posted(8) row(1) by (simp add: credit_row_def)
qed auto

section \<open>A reported purchase ends as a credit or in the queue\<close>

lemma credit_one_cases:
  assumes "credit_one M rules say r w = (Inr res, v)"
  obtains sale u where
    "credit_tx M rules say r \<lparr>minor = rp_commission r, currency_of = rp_currency r\<rparr> sale w = (Inr res, u)"
    "ledger v = ledger u"
    "if res = NothingOwed then db v = db w else db v = (db u)\<lparr>moved := []\<rparr>"
proof -
  obtain sale where m: "new_amount (rp_commission r) (rp_currency r) = Inr \<lparr>minor = rp_commission r, currency_of = rp_currency r\<rparr>"
      "new_amount (rp_sale r) (rp_currency r) = Inr sale"
    using assms by (auto simp: credit_one_def new_amount_def split: if_splits)
  obtain x u where t: "credit_tx M rules say r \<lparr>minor = rp_commission r, currency_of = rp_currency r\<rparr> sale w = (x, u)"
    by fastforce
  note run = assms [unfolded credit_one_def m sum.case t prod.case]
  obtain y where y: "x = Inr y" using run by (cases x) auto
  obtain z t' where c: "call_db commit_tx u = (z, t')" by fastforce
  have l: "ledger t' = ledger u" using keepsD [OF call_db_same_ledger c] by (simp add: same_ledger_def)
  have d: "db t' = (db u)\<lparr>moved := []\<rparr>" if "z = Inr a" for a
    using c that by (auto simp: call_db_Inr dest!: commit_tx_Inr)
  have "res = y \<and> ledger v = ledger u \<and> (if res = NothingOwed then db v = db w else db v = (db u)\<lparr>moved := []\<rparr>)"
    using run c l d by (cases y; cases z) (auto simp: y)
  then show thesis using that t y by simp
qed

lemma queue_instead_answer:
  assumes "queue_instead M i (queue_write M (queue_when why cond)) w = (Inr x, v)" and "find_report (db w) i = Some nt"
    and "cond (db w) nt"
  shows "in_queue (db v) i \<and> entries (db v) = entries (db w)"
proof -
  obtain a where a: "queue_report M i (queue_write M (queue_when why cond)) w = (Inr a, v)"
    using assms(1) by (auto simp: queue_instead_def effects)
  then have "queues_only w v" by (rule keepsD [OF queue_report_queues_only [OF queue_write_queues_only]])
  then show ?thesis
    using queue_report_answer [OF a assms(2)] assms(3) queued_once_in_queue [of why i "db w" "db v"] by (simp add: queues_onlyD)
qed

lemma same_store_find: "same_store w v \<Longrightarrow> find_report (db v) i = find_report (db w) i"
  by (simp add: same_store_def)

lemma hold_open_credit:
  "cr_report (hold_open h c) = cr_report c" "cr_click (hold_open h c) = cr_click c"
  "cr_member (hold_open h c) = cr_member c" "cr_amount (hold_open h c) = cr_amount c"
  "cr_brand (hold_open h c) = cr_brand c" "cr_state (hold_open h c) \<in> {StHeld, StPending}"
  by (auto simp: hold_open_def)

lemma credit_row_fields:
  "e_click (credit_row c) = uuid_or_null (cr_click c)" "e_account (credit_row c) = cr_member c"
  "e_currency (credit_row c) = currency_of (cr_amount c)"
  by (simp_all add: credit_row_def)

definition credit_of :: "report_row \<Rightarrow> click_row \<Rightarrow> entry \<Rightarrow> bool" where
  "credit_of r row e \<longleftrightarrow> Some (c_ref row) = rp_click_ref r \<and> c_network row = rp_network r \<and>
     (\<exists>k s. click_from row = Inr k \<and>
        share_of \<lparr>minor = rp_commission r, currency_of = rp_currency r\<rparr> (cl_promised k) = Inr s \<and>
        en_report e = rp_id r \<and> en_member e = c_account row \<and> en_click e = c_id row \<and>
        en_amount e = sh_member s \<and> en_state e \<in> {StHeld, StPending})"

lemma click_from_Inr:
  "click_from row = Inr k \<Longrightarrow> cl_id k = c_id row \<and> cl_account k = c_account row"
  by (auto simp: click_from_def split: sum.splits if_splits)

lemma open_or_queue_answer:
  assumes run: "open_or_queue M (hold_open h (credit_for r k brand owed)) w = (Inr res, v)"
    and nt: "find_report (db w) (rp_id r) = Some r"
    and row: "row \<in> set (clicks (db w))" "Some (c_ref row) = rp_click_ref r" "click_from row = Inr k"
    and cur: "currency_of owed = rp_currency r"
  shows "case res of
       NothingOwed \<Rightarrow> False
     | CreditQueued \<Rightarrow> in_queue (db v) (rp_id r) \<and> entries (db v) = entries (db w)
     | Opened e \<Rightarrow> en_report e = rp_id r \<and> en_member e = c_account row \<and> en_click e = c_id row \<and> en_amount e = owed \<and>
         en_state e \<in> {StHeld, StPending} \<and>
         (\<exists>x\<in>set (entries (db v)). entry_from x = Inr e \<and> e_reversal_of x = None \<and> e_report x = rp_id r) \<and> reports (db v) = reports (db w)"
  using run
proof (cases rule: open_or_queue_cases)
  case (opened e)
  note f = hold_open_credit [of h "credit_for r k brand owed"] click_from_Inr [OF row(3)]
  obtain x where x: "x \<in> set (entries (db v))" "entry_from x = Inr e" "e_report x = rp_id r"
    "e_account x = c_account row" "e_state x \<in> {StHeld, StPending}" "e_reversal_of x = None"
    "e_minor x = minor owed" "e_currency x = currency_of owed" "e_click x = uuid_or_null (c_id row)"
    using opened(1) f by (elim open_credit_Inr) (simp add: credit_for_def)
  have "e = \<lparr>en_id = e_id x, en_member = e_account x, en_brand = e_brand x, en_report = e_report x,
       en_click = or_nil (e_click x), en_state = e_state x, en_hold_rule = or_empty (e_hold_rule x),
       en_amount = \<lparr>minor = e_minor x, currency_of = e_currency x\<rparr>,
       en_reversal_of = or_nil (e_reversal_of x), en_created = e_created x\<rparr>"
    using x(2) by (simp add: entry_from_Inr)
  moreover have "or_nil (uuid_or_null (c_id row)) = c_id row" by (simp add: or_nil_def uuid_or_null_def)
  moreover have "reports (db v) = reports (db w)"
    using keepsD [OF open_credit_same_evidence opened(1)] by (simp add: same_evidence_def)
  ultimately show ?thesis using x opened(2) by auto
next
  case (refused e u1)
  let ?c = "hold_open h (credit_for r k brand owed)" and ?v = "u1\<lparr>db := db w\<rparr>"
  have q: "res = CreditQueued" using refused(3,5) by (cases res) auto
  have id: "cr_report ?c = rp_id r" by (simp add: hold_open_credit credit_for_def)
  have nt': "find_report (db ?v) (rp_id r) = Some r" using nt by simp
  have cl: "cl_id k = c_id row" "cl_account k = c_account row" using click_from_Inr [OF row(3)] by simp_all
  consider (click) "e = ErrClickAlreadyCredited" "queue_instead M (rp_id r) (queue_credited_click M) ?v = (Inr CreditQueued, v)"
    | (money) "e = ErrCurrencyNotTheMembers" "queue_instead M (rp_id r) (queue_foreign_currency M) ?v = (Inr CreditQueued, v)"
    using refused(4) q id by auto
  then have "in_queue (db v) (rp_id r) \<and> entries (db v) = entries (db w)"
  proof cases
    case click
    obtain d where "create_entry (fresh_ids M) (clock w) (credit_row ?c) (db w) = (Inl (UniqueViolation ''entry_click_id_idx''), d)"
      using open_credit_refused [OF refused(1)] click(1) by auto
    from click_taken [OF this] obtain x where "x \<in> set (entries (db w))" "e_reversal_of x = None" "e_click x = Some (c_id row)"
      by (auto simp: credit_row_fields hold_open_credit credit_for_def cl uuid_or_null_def split: if_splits)
    then have "names_a_credited_click (db ?v) r"
      using row(1,2) by (auto simp: names_a_credited_click_def list_ex_iff) (metis option.distinct(1))?
    then show ?thesis using queue_instead_answer [OF click(2) [unfolded queue_writes] nt'] by simp
  next
    case money
    obtain d where "create_entry (fresh_ids M) (clock w) (credit_row ?c) (db w) =
        (Inl (ForeignKeyViolation ''entry_currency_is_the_members''), d)"
      using open_credit_refused [OF refused(1)] money(1) by auto
    then have "(c_account row, rp_currency r) \<notin> set (participation (db w))"
      using currency_refused by (fastforce simp: credit_row_fields hold_open_credit credit_for_def cl cur)
    then have "currency_is_foreign (db ?v) r"
      using row(1,2) by (auto simp: currency_is_foreign_def list_ex_iff dest: map_of_SomeD split: option.split)
    then show ?thesis using queue_instead_answer [OF money(2) [unfolded queue_writes] nt'] by simp
  qed
  then show ?thesis using q by simp
qed

lemma split_amount_currency: "split_amount a r m = Inr (x, y) \<Longrightarrow> currency_of x = currency_of a"
  by (auto simp: split_amount_def Let_def split: option.splits sum.splits if_splits)

lemma share_of_currency: "share_of commission p = Inr s \<Longrightarrow> currency_of (sh_member s) = currency_of commission"
  by (auto simp: share_of_def split: sum.splits if_splits prod.splits dest: split_amount_currency)

lemma credit_one_answer:
  assumes run: "credit_one M rules say r w = (Inr res, v)"
    and stored: "find_report (db w) (rp_id r) = Some r" "rp_click_ref r \<noteq> None"
  shows "case res of
       NothingOwed \<Rightarrow> db v = db w
     | CreditQueued \<Rightarrow> in_queue (db v) (rp_id r) \<and> entries (db v) = entries (db w)
     | Opened e \<Rightarrow> (\<exists>row\<in>set (clicks (db w)). credit_of r row e) \<and>
         (\<exists>x\<in>set (entries (db v)). entry_from x = Inr e \<and> e_reversal_of x = None \<and> e_report x = rp_id r) \<and> reports (db v) = reports (db w)"
proof -
  let ?commission = "\<lparr>minor = rp_commission r, currency_of = rp_currency r\<rparr>"
  let ?report = "\<lparr>rf_id = rp_id r, rf_ref = Some (or_empty (rp_click_ref r)), rf_network = rp_network r\<rparr>"
  have ref: "rp_click_ref r = Some (or_empty (rp_click_ref r))" using stored(2) by (auto simp: or_empty_def)
  obtain sale u where tx: "credit_tx M rules say r ?commission sale w = (Inr res, u)"
    and v: "if res = NothingOwed then db v = db w else db v = (db u)\<lparr>moved := []\<rparr>"
    using credit_one_cases [OF run] by metis
  obtain a u1 where m: "match_report M ?report w = (Inr a, u1)"
    and rest: "(case at_click a of None \<Rightarrow> give CreditQueued | Some k \<Rightarrow> credit_click M rules say r ?commission sale k) u1 = (Inr res, u)"
    using tx by (auto simp: credit_tx_def and_then_Inr)
  note A = match_report_answer [OF m, of r]
  have q1: "queues_only w u1" by (rule keepsD [OF match_report_queues_only m])
  show ?thesis
  proof (cases "at_click a")
    case None
    then have "res = CreditQueued" "u = u1" using rest by (auto simp: effects)
    moreover have "in_queue (db u1) (rp_id r)" using A None stored(1) ref queued_once_in_queue by auto
    ultimately show ?thesis using v queues_onlyD(1) [OF q1] by (simp add: in_queue_def)
  next
    case (Some k)
    then have same: "db u1 = db w" and "\<exists>row\<in>set (clicks (db w)). Some (c_ref row) = rp_click_ref r \<and>
        c_network row = rp_network r \<and> click_from row = Inr k"
      using A stored(1) ref by auto
    then obtain row where row: "row \<in> set (clicks (db w))" "Some (c_ref row) = rp_click_ref r"
        "c_network row = rp_network r" "click_from row = Inr k" by blast
    have "credit_click M rules say r ?commission sale k u1 = (Inr res, u)" using rest Some by simp
    then show ?thesis
    proof (cases rule: credit_click_cases)
      case early
      then have "res = NothingOwed" by (cases res) auto
      then show ?thesis using v by simp
    next
      case (tries brand s h w1)
      have w1: "db w1 = db w" using tries(1) same by (simp add: same_store_def)
      have "currency_of (sh_member s) = rp_currency r" using share_of_currency [OF tries(2)] by simp
      note B = open_or_queue_answer [OF tries(3), unfolded w1, OF stored(1) row(1,2,4) this]
      show ?thesis
        using B v row tries(2) by (cases res) (auto simp: in_queue_def credit_of_def)
    qed
  qed
qed



end
