(* ===== verification/PayoutRail.thy ===== *)
theory PayoutRail
  imports Money GoText
begin

text \<open>
  \<open>internal/cashback/payout/rail.go\<close>, the port every way of moving money out of the business is
  behind, with the two rails of the repository: \<open>manual/manual.go\<close>, which a person carries, and
  \<open>stub/stub.go\<close>, which moves no money. A rail is two functions over a state of its own; the
  \<open>bool\<close> they take first says whether the context was already done. \<open>payout_rail\<close> is contract rule 1: one
  reference for one idempotency key.
\<close>

section \<open>Kinds, references, classified failures\<close>

type_synonym kind = string

abbreviation "KindSEPA \<equiv> ''sepa''"
abbreviation "KindManual \<equiv> ''manual''"
abbreviation "KindStub \<equiv> ''stub''"

definition kinds :: "kind list" where
  "kinds = [KindSEPA, KindManual, KindStub]"

definition kind_valid :: "kind \<Rightarrow> bool" where
  "kind_valid k = (k = KindSEPA \<or> k = KindManual \<or> k = KindStub)"

type_synonym rail_status = string

abbreviation "StatusSubmitted \<equiv> ''submitted''"
abbreviation "StatusSettled \<equiv> ''settled''"
abbreviation "StatusFailed \<equiv> ''failed''"

definition rail_status_valid :: "rail_status \<Rightarrow> bool" where
  "rail_status_valid s = (s = StatusSubmitted \<or> s = StatusSettled \<or> s = StatusFailed)"

text \<open>The two sentinels classify whatever they wrap; an instruction or a reference that is not one is
  refused before the rail is asked and carries no classification, nor does a rail that gives none.\<close>

datatype rail_cause =
    ContextDone | WrongKind kind | TimedOut | Refused | NothingSubmitted | DidNotComplete | OtherCause string

datatype rail_error =
    Retryable rail_cause | Terminal rail_cause
  | ErrInvalidInstruction | ErrInvalidRailReference | Unclassified string

definition is_terminal :: "rail_error \<Rightarrow> bool" where
  "is_terminal e = (case e of Terminal _ \<Rightarrow> True | _ \<Rightarrow> False)"

definition is_retryable :: "rail_error \<Rightarrow> bool" where
  "is_retryable e = (case e of Retryable _ \<Rightarrow> True | _ \<Rightarrow> False)"

definition new_rail_reference :: "string \<Rightarrow> rail_error + string" where
  "new_rail_reference ref = (if trim_space ref = [] then Inl ErrInvalidRailReference else Inr ref)"

definition reference_validate :: "string \<Rightarrow> rail_error option" where
  "reference_validate ref = (if ref = [] then Some ErrInvalidRailReference else None)"

section \<open>Instructions\<close>

record destination_ref =
  dr_kind :: kind
  dr_details :: string

definition destination_ref_validate :: "destination_ref \<Rightarrow> rail_error option" where
  "destination_ref_validate d =
     (if \<not> kind_valid (dr_kind d) then Some ErrInvalidInstruction
      else if trim_space (dr_details d) = [] then Some ErrInvalidInstruction
      else None)"

record instruction =
  in_key :: string
  in_amount :: amount
  in_destination :: destination_ref
  in_descriptor :: string

definition instruction_validate :: "instruction \<Rightarrow> rail_error option" where
  "instruction_validate p =
     (if trim_space (in_key p) = [] then Some ErrInvalidInstruction
      else if validate_amount (in_amount p) \<noteq> None then Some ErrInvalidInstruction
      else if \<not> is_positive (in_amount p) then Some ErrInvalidInstruction
      else case destination_ref_validate (in_destination p) of
          Some e \<Rightarrow> Some e
        | None \<Rightarrow>
            if trim_space (in_descriptor p) = [] then Some ErrInvalidInstruction else None)"

section \<open>The port\<close>

record 'r rail =
  rail_kind :: kind
  rail_submit :: "bool \<Rightarrow> instruction \<Rightarrow> 'r \<Rightarrow> (rail_error + string) \<times> 'r"
  rail_query :: "bool \<Rightarrow> string \<Rightarrow> 'r \<Rightarrow> rail_error + rail_status"

text \<open>What a rail answered a sequence of submissions with, oldest first.\<close>

fun submissions ::
  "(bool \<Rightarrow> instruction \<Rightarrow> 'r \<Rightarrow> (rail_error + string) \<times> 'r) \<Rightarrow> (bool \<times> instruction) list \<Rightarrow> 'r \<Rightarrow>
   (instruction \<times> (rail_error + string)) list" where
  "submissions submit [] s = []"
| "submissions submit ((don, i) # rest) s =
     (i, fst (submit don i s)) # submissions submit rest (snd (submit don i s))"

locale payout_rail =
  fixes submit :: "bool \<Rightarrow> instruction \<Rightarrow> 'r \<Rightarrow> (rail_error + string) \<times> 'r"
    and fine :: "'r \<Rightarrow> bool"
    and named :: "string \<Rightarrow> string"
  assumes keeps_fine: "fine s \<Longrightarrow> fine (snd (submit don i s))"
    and answers_by_key: "fine s \<Longrightarrow> fst (submit don i s) = Inr ref \<Longrightarrow> ref = named (in_key i)"
    and named_apart: "named k = named k' \<Longrightarrow> k = k'"
    and checks_first: "instruction_validate i \<noteq> None \<Longrightarrow> submit don i s = (Inl ErrInvalidInstruction, s)"
begin

lemma submissions_named:
  "fine s \<Longrightarrow> (i, Inr ref) \<in> set (submissions submit js s) \<Longrightarrow> ref = named (in_key i)"
proof (induction js arbitrary: s)
  case (Cons p rest)
  obtain don j where p: "p = (don, j)" by (cases p)
  have "i = j \<and> fst (submit don j s) = Inr ref \<or> (i, Inr ref) \<in> set (submissions submit rest (snd (submit don j s)))"
    using Cons.prems(2) p by auto
  with Cons.IH [OF keeps_fine [OF Cons.prems(1), of don j]] answers_by_key [OF Cons.prems(1), of don j ref]
  show ?case by auto
qed simp

lemma one_reference_per_key:
  assumes "fine s" and "(i, Inr r) \<in> set (submissions submit js s)" and "(i', Inr r') \<in> set (submissions submit js s)"
  shows "r = r' \<longleftrightarrow> in_key i = in_key i'"
  using submissions_named [OF assms(1,2)] submissions_named [OF assms(1,3)] named_apart by auto

end

section \<open>The rail a person carries\<close>

definition manual_prefix :: string where
  "manual_prefix = ''manual:''"

definition manual_submit :: "bool \<Rightarrow> instruction \<Rightarrow> unit \<Rightarrow> (rail_error + string) \<times> unit" where
  "manual_submit don i s =
     (case instruction_validate i of
        Some e \<Rightarrow> (Inl e, s)
      | None \<Rightarrow>
          if don then (Inl (Retryable ContextDone), s)
          else if dr_kind (in_destination i) \<noteq> KindManual
            then (Inl (Terminal (WrongKind (dr_kind (in_destination i)))), s)
          else (new_rail_reference (manual_prefix @ in_key i), s))"

definition manual_status :: "bool \<Rightarrow> string \<Rightarrow> unit \<Rightarrow> rail_error + rail_status" where
  "manual_status don ref s =
     (case reference_validate ref of
        Some e \<Rightarrow> Inl e
      | None \<Rightarrow> if don then Inl (Retryable ContextDone) else Inr StatusSubmitted)"

definition manual_rail :: "unit rail" where
  "manual_rail = \<lparr>rail_kind = KindManual, rail_submit = manual_submit, rail_query = manual_status\<rparr>"

section \<open>The rail that moves no money\<close>

record stub_state =
  stub_submitted :: "(string \<times> string) list"
  stub_settled :: "string list"
  stub_broke :: "string list"
  stub_fail_next :: "rail_error option"

definition new_stub :: stub_state where
  "new_stub = \<lparr>stub_submitted = [], stub_settled = [], stub_broke = [], stub_fail_next = None\<rparr>"

definition stub_prefix :: string where
  "stub_prefix = ''stub:''"

definition stub_fail :: "rail_error option \<Rightarrow> stub_state \<Rightarrow> stub_state" where
  "stub_fail e s = s\<lparr>stub_fail_next := e\<rparr>"

definition stub_submit :: "bool \<Rightarrow> instruction \<Rightarrow> stub_state \<Rightarrow> (rail_error + string) \<times> stub_state" where
  "stub_submit don i s =
     (case instruction_validate i of
        Some e \<Rightarrow> (Inl e, s)
      | None \<Rightarrow>
          if don then (Inl (Retryable ContextDone), s)
          else if dr_kind (in_destination i) \<noteq> KindStub
            then (Inl (Terminal (WrongKind (dr_kind (in_destination i)))), s)
          else
            (case map_of (stub_submitted s) (in_key i) of
               Some ref \<Rightarrow> (new_rail_reference ref, s)
             | None \<Rightarrow>
                 (case stub_fail_next s of
                    Some failure \<Rightarrow> (Inl failure, s\<lparr>stub_fail_next := None\<rparr>)
                  | None \<Rightarrow>
                      let ref = stub_prefix @ in_key i
                      in (new_rail_reference ref, s\<lparr>stub_submitted := (in_key i, ref) # stub_submitted s\<rparr>))))"

definition stub_knows :: "stub_state \<Rightarrow> string \<Rightarrow> bool" where
  "stub_knows s ref = list_ex (\<lambda>(_, issued). issued = ref) (stub_submitted s)"

definition stub_status :: "bool \<Rightarrow> string \<Rightarrow> stub_state \<Rightarrow> rail_error + rail_status" where
  "stub_status don ref s =
     (case reference_validate ref of
        Some e \<Rightarrow> Inl e
      | None \<Rightarrow>
          if don then Inl (Retryable ContextDone)
          else if \<not> stub_knows s ref then Inl (Terminal NothingSubmitted)
          else if ref \<in> set (stub_settled s) then Inr StatusSettled
          else if ref \<in> set (stub_broke s) then Inr StatusFailed
          else Inr StatusSubmitted)"

definition stub_settle :: "string \<Rightarrow> stub_state \<Rightarrow> stub_state option" where
  "stub_settle ref s = (if \<not> stub_knows s ref then None else Some (s\<lparr>stub_settled := ref # stub_settled s\<rparr>))"

definition stub_break :: "string \<Rightarrow> stub_state \<Rightarrow> stub_state option" where
  "stub_break ref s = (if \<not> stub_knows s ref then None else Some (s\<lparr>stub_broke := ref # stub_broke s\<rparr>))"

definition stub_rail :: "stub_state rail" where
  "stub_rail = \<lparr>rail_kind = KindStub, rail_submit = stub_submit, rail_query = stub_status\<rparr>"

section \<open>Both keep the contract\<close>

lemma validate_invalid: "instruction_validate i = Some e \<Longrightarrow> e = ErrInvalidInstruction"
  by (auto simp: instruction_validate_def destination_ref_validate_def split: if_splits option.splits)

interpretation carried: payout_rail manual_submit "\<lambda>_. True" "\<lambda>k. manual_prefix @ k"
  by unfold_locales
    (auto simp: manual_submit_def new_rail_reference_def split: option.splits if_splits dest: validate_invalid)

definition stub_fine :: "stub_state \<Rightarrow> bool" where
  "stub_fine s = list_all (\<lambda>(k, ref). ref = stub_prefix @ k) (stub_submitted s)"

interpretation stubbed: payout_rail stub_submit stub_fine "\<lambda>k. stub_prefix @ k"
proof
  show "stub_fine s \<Longrightarrow> stub_fine (snd (stub_submit don i s))" for don i s
    by (auto simp: stub_submit_def stub_fine_def Let_def split: option.splits)
  show "ref = stub_prefix @ in_key i" if "stub_fine s" "fst (stub_submit don i s) = Inr ref" for s don i ref
    using that by (auto simp: stub_submit_def stub_fine_def new_rail_reference_def Let_def list_all_iff
        split: option.splits if_splits dest!: map_of_SomeD)
qed (auto simp: stub_submit_def split: option.splits dest: validate_invalid)

lemma new_stub_fine: "stub_fine new_stub"
  by (simp add: stub_fine_def new_stub_def)

text \<open>What can happen to the stub between two submissions: it is told to fail, to settle a payment or to
  break one.\<close>

datatype stub_op = Submit bool instruction | FailNext "rail_error option" | Settle string | Fail string

definition or_same :: "'s option \<Rightarrow> 's \<Rightarrow> 's" where
  "or_same x s = (case x of None \<Rightarrow> s | Some t \<Rightarrow> t)"

fun stub_run :: "stub_op list \<Rightarrow> stub_state \<Rightarrow> (bool \<times> instruction \<times> (rail_error + string)) list" where
  "stub_run [] s = []"
| "stub_run (Submit don i # ops) s = (don, i, fst (stub_submit don i s)) # stub_run ops (snd (stub_submit don i s))"
| "stub_run (FailNext e # ops) s = stub_run ops (stub_fail e s)"
| "stub_run (Settle ref # ops) s = stub_run ops (or_same (stub_settle ref s) s)"
| "stub_run (Fail ref # ops) s = stub_run ops (or_same (stub_break ref s) s)"

lemma stub_fine_others:
  "stub_submitted (stub_fail e s) = stub_submitted s"
  "stub_submitted (or_same (stub_settle ref s) s) = stub_submitted s"
  "stub_submitted (or_same (stub_break ref s) s) = stub_submitted s"
  "stub_fine (stub_fail e s) = stub_fine s" "stub_fine (or_same (stub_settle ref s) s) = stub_fine s"
  "stub_fine (or_same (stub_break ref s) s) = stub_fine s"
  by (simp_all add: stub_fine_def stub_fail_def stub_settle_def stub_break_def or_same_def)

lemma stub_remembers:
  "map_of (stub_submitted s) k = Some ref \<Longrightarrow> map_of (stub_submitted (snd (stub_submit don i s))) k = Some ref"
  by (auto simp: stub_submit_def Let_def split: option.splits)

lemma stub_prefix_used: "trim_space (stub_prefix @ k) \<noteq> []"
proof (rule trim_space_nonblank)
  show "CHR ''s'' \<in> set (stub_prefix @ k)" by (simp add: stub_prefix_def)
  show "\<not> space_byte (of_char (CHR ''s''))" by code_simp
qed

lemma stub_taken:
  assumes "fst (stub_submit don i s) = Inr ref"
  shows "\<exists>ref. map_of (stub_submitted (snd (stub_submit don i s))) (in_key i) = Some ref"
  using assms by (auto simp: stub_submit_def Let_def split: option.splits if_splits)

definition carriable :: "bool \<Rightarrow> instruction \<Rightarrow> bool" where
  "carriable don i = (\<not> don \<and> instruction_validate i = None \<and> dr_kind (in_destination i) = KindStub)"

lemma stub_answers_taken:
  assumes "stub_fine s" and "map_of (stub_submitted s) (in_key i) = Some ref" and "carriable don i"
  shows "fst (stub_submit don i s) = Inr (stub_prefix @ in_key i)"
proof -
  have "ref = stub_prefix @ in_key i" using assms(1) map_of_SomeD [OF assms(2)] by (auto simp: stub_fine_def list_all_iff)
  with assms stub_prefix_used show ?thesis by (simp add: stub_submit_def new_rail_reference_def carriable_def)
qed

lemma stub_run_remembered:
  assumes "stub_fine s" and "map_of (stub_submitted s) (in_key j) = Some ref"
    and "(don, i, x) \<in> set (stub_run ops s)" and "in_key i = in_key j" and "carriable don i"
  shows "x = Inr (stub_prefix @ in_key i)"
  using assms
proof (induction ops s arbitrary: ref rule: stub_run.induct)
  case (2 don' i' ops s)
  show ?case
  proof (cases "(don, i, x) \<in> set (stub_run ops (snd (stub_submit don' i' s)))")
    case True
    with 2 stub_remembers [OF 2(3)] stubbed.keeps_fine [OF 2(2)] show ?thesis by blast
  next
    case False
    with 2(4) have "don = don'" "i = i'" "x = fst (stub_submit don' i' s)" by auto
    with stub_answers_taken [OF 2(2) _ 2(6)] 2(3,5) show ?thesis by simp
  qed
qed (simp_all add: stub_fine_others)

lemma stub_run_named:
  "stub_fine s \<Longrightarrow> (don, i, Inr ref) \<in> set (stub_run ops s) \<Longrightarrow> ref = stub_prefix @ in_key i"
proof (induction ops s rule: stub_run.induct)
  case (2 d j ops s)
  have "i = j \<and> fst (stub_submit d j s) = Inr ref \<or> (don, i, Inr ref) \<in> set (stub_run ops (snd (stub_submit d j s)))"
    using 2(3) by auto
  with 2(1) [OF stubbed.keeps_fine [OF 2(2), of d j]] stubbed.answers_by_key [OF 2(2), of d j ref]
  show ?case by auto
qed (simp_all add: stub_fine_others)

lemma stub_run_taken:
  assumes "stub_fine s" and "stub_run ops s ! m = (don, i, Inr ref)" and "m < n" and "n < length (stub_run ops s)"
    and "stub_run ops s ! n = (don', i', x)" and "in_key i' = in_key i" and "carriable don' i'"
  shows "x = Inr (stub_prefix @ in_key i')"
  using assms
proof (induction ops s arbitrary: m n rule: stub_run.induct)
  case (2 d j ops s)
  note f = stubbed.keeps_fine [OF 2(2), of d j]
  obtain n' where n: "n = Suc n'" using 2(4) by (cases n) auto
  have at: "stub_run ops (snd (stub_submit d j s)) ! n' = (don', i', x)" using 2(6) n by simp
  show ?case
  proof (cases m)
    case 0
    then have "fst (stub_submit d j s) = Inr ref" "j = i" using 2(3) by auto
    then obtain r where "map_of (stub_submitted (snd (stub_submit d j s))) (in_key i) = Some r" using stub_taken by metis
    moreover have "(don', i', x) \<in> set (stub_run ops (snd (stub_submit d j s)))"
      using at 2(5) n by (metis Suc_less_SucD length_Cons nth_mem stub_run.simps(2))
    ultimately show ?thesis using stub_run_remembered [OF f] 2(7,8) by blast
  next
    case (Suc m')
    with 2 n at f show ?thesis by auto
  qed
qed (simp_all add: stub_fine_others)

text \<open>(C8) A payment is made once under one key, whatever happens around it (C-5, contract rule 1). Over every
  sequence of submissions, injected failures, settlements and breakages of the stub rail, two accepted
  submissions are answered with one reference exactly when they carry one key; and once a key has been
  accepted, no later submission of it that the rail can read is refused. The manual rail, which
  remembers nothing, answers one key with one reference too.\<close>

theorem rails_pay_once_per_key:
  fixes ops :: "stub_op list" and js :: "(bool \<times> instruction) list"
  defines "answers \<equiv> stub_run ops new_stub" and "typed \<equiv> submissions manual_submit js ()"
  shows "(\<forall>don i r don' i' r'. (don, i, Inr r) \<in> set answers \<and> (don', i', Inr r') \<in> set answers \<longrightarrow>
            (r = r' \<longleftrightarrow> in_key i = in_key i')) \<and>
    (\<forall>m n don i r don' i' x. answers ! m = (don, i, Inr r) \<and> m < n \<and> n < length answers \<and>
            answers ! n = (don', i', x) \<and> in_key i' = in_key i \<and> carriable don' i' \<longrightarrow> x = Inr (stub_prefix @ in_key i)) \<and>
    (\<forall>i r i' r'. (i, Inr r) \<in> set typed \<and> (i', Inr r') \<in> set typed \<longrightarrow> (r = r' \<longleftrightarrow> in_key i = in_key i'))"
proof (intro conjI allI impI)
  fix don i r don' i' r'
  assume a: "(don, i, Inr r) \<in> set answers \<and> (don', i', Inr r') \<in> set answers"
  then have "r = stub_prefix @ in_key i" "r' = stub_prefix @ in_key i'"
    using stub_run_named [OF new_stub_fine] unfolding answers_def by blast+
  then show "r = r' \<longleftrightarrow> in_key i = in_key i'" by simp
next
  fix m n don i r don' i' x
  assume a: "answers ! m = (don, i, Inr r) \<and> m < n \<and> n < length answers \<and> answers ! n = (don', i', x) \<and>
      in_key i' = in_key i \<and> carriable don' i'"
  then show "x = Inr (stub_prefix @ in_key i)"
    using stub_run_taken [OF new_stub_fine, of ops m don i r n don' i' x] unfolding answers_def by simp
next
  fix i r i' r'
  assume "(i, Inr r) \<in> set typed \<and> (i', Inr r') \<in> set typed"
  then show "r = r' \<longleftrightarrow> in_key i = in_key i'"
    using carried.one_reference_per_key unfolding typed_def by blast
qed

definition sample_instruction :: "kind \<Rightarrow> instruction" where
  "sample_instruction k =
     \<lparr>in_key = ''payout:1'', in_amount = \<lparr>minor = 500, currency_of = ''EUR''\<rparr>,
      in_destination = \<lparr>dr_kind = k, dr_details = ''vault/1''\<rparr>, in_descriptor = ''Apivo''\<rparr>"

lemma stub_sample:
  "stub_run [FailNext (Some (Retryable TimedOut)), Submit False (sample_instruction KindStub),
      Submit False (sample_instruction KindStub), FailNext (Some (Terminal Refused)),
      Submit False (sample_instruction KindStub)] new_stub =
    [(False, sample_instruction KindStub, Inl (Retryable TimedOut)),
     (False, sample_instruction KindStub, Inr ''stub:payout:1''),
     (False, sample_instruction KindStub, Inr ''stub:payout:1'')]"
  by code_simp

theorem rails_pay_once_per_key_witness:
  "fst (stub_submit False (sample_instruction KindStub) new_stub) = Inr ''stub:payout:1'' \<and>
   (let answers = stub_run [FailNext (Some (Retryable TimedOut)), Submit False (sample_instruction KindStub),
      Submit False (sample_instruction KindStub), FailNext (Some (Terminal Refused)),
      Submit False (sample_instruction KindStub)] new_stub
    in snd (snd (answers ! 2)) = Inr (stub_prefix @ in_key (sample_instruction KindStub)))"
proof -
  have c: "carriable False (sample_instruction KindStub)" by code_simp
  have "fst (stub_submit False (sample_instruction KindStub) new_stub) = Inr ''stub:payout:1''" by code_simp
  moreover have "snd (snd ([(False, sample_instruction KindStub, Inl (Retryable TimedOut)),
      (False, sample_instruction KindStub, Inr ''stub:payout:1''),
      (False, sample_instruction KindStub, Inr ''stub:payout:1'')] ! 2)) =
      Inr (stub_prefix @ in_key (sample_instruction KindStub))"
    using conjunct1 [OF conjunct2 [OF rails_pay_once_per_key [of "[FailNext (Some (Retryable TimedOut)),
      Submit False (sample_instruction KindStub), Submit False (sample_instruction KindStub),
      FailNext (Some (Terminal Refused)), Submit False (sample_instruction KindStub)]", unfolded stub_sample]],
      rule_format, of 1 False "sample_instruction KindStub" "''stub:payout:1''" 2 False "sample_instruction KindStub"
        "Inr ''stub:payout:1''"] c by simp
  ultimately show ?thesis unfolding stub_sample Let_def by simp
qed

end
