(* ===== verification/PayoutStore.thy ===== *)
theory PayoutStore
  imports Reservation PayoutRail
begin

text \<open>
  The statements of \<open>internal/cashback/payout/queries/*.sql\<close> over \<open>payout_destination\<close>,
  \<open>withdrawal_request\<close> and \<open>payout\<close>, with what migrations 0014, 0019 and 0039 make the database
  refuse. A state is the schema's word. The payout's key is a generated column, so it is a function of
  the row and no statement takes it.
\<close>

section \<open>Words the schema knows\<close>

abbreviation "StateAwaitingApproval \<equiv> ''awaiting_approval''"
abbreviation "StateApproved \<equiv> ''approved''"
abbreviation "StateRejected \<equiv> ''rejected''"
abbreviation "StatePaid \<equiv> ''paid''"
abbreviation "StateFailed \<equiv> ''failed''"

definition request_states :: "string list" where
  "request_states = [StateAwaitingApproval, StateApproved, StateRejected, StatePaid, StateFailed]"

definition payout_key :: "(uuid \<Rightarrow> string) \<Rightarrow> uuid \<Rightarrow> string" where
  "payout_key ustr request = ''payout:'' @ ustr request"

section \<open>Destinations\<close>

definition find_destination :: "earn_db \<Rightarrow> uuid \<Rightarrow> uuid \<Rightarrow> destination_row option" where
  "find_destination d account i = find (\<lambda>r. ds_id r = i \<and> ds_account r = account) (destinations d)"

definition create_destination ::
  "(nat \<Rightarrow> uuid) \<Rightarrow> instant \<Rightarrow> uuid \<Rightarrow> string \<Rightarrow> string \<Rightarrow> earn_db \<Rightarrow> (db_error + destination_row) \<times> earn_db" where
  "create_destination fresh now account knd ref d =
     (let r = \<lparr>ds_id = fresh (minted d), ds_account = account, ds_kind = knd, ds_ref = ref, ds_verified = None,
               ds_method = None, ds_created = now\<rparr>
      in if \<not> kind_valid knd then (Inl (CheckViolation ''payout_destination_kind_known''), d)
         else if sql_blank ref then (Inl (CheckViolation ''payout_destination_details_ref_not_blank''), d)
         else if list_ex (\<lambda>x. ds_id x = ds_id r) (destinations d)
           then (Inl (UniqueViolation ''payout_destination_pkey''), d)
         else if account \<notin> fst ` set (members d)
           then (Inl (ForeignKeyViolation ''payout_destination_account_id_fkey''), d)
         else (Inr r, d\<lparr>destinations := destinations d @ [r], minted := Suc (minted d)\<rparr>))"

definition list_destinations :: "uuid \<Rightarrow> earn_db \<Rightarrow> (db_error + destination_row list) \<times> earn_db" where
  "list_destinations account d =
     (Inr (sort_key (\<lambda>r. (ds_created r, ds_id r)) (filter (\<lambda>r. ds_account r = account) (destinations d))), d)"

definition get_destination :: "uuid \<Rightarrow> uuid \<Rightarrow> earn_db \<Rightarrow> (db_error + destination_row) \<times> earn_db" where
  "get_destination account i d =
     (case find_destination d account i of None \<Rightarrow> (Inl NoRows, d) | Some r \<Rightarrow> (Inr r, d))"

definition verify_destination ::
  "instant \<Rightarrow> uuid \<Rightarrow> uuid \<Rightarrow> string \<Rightarrow> earn_db \<Rightarrow> (db_error + destination_row) \<times> earn_db" where
  "verify_destination now account i how d =
     (case find_destination d account i of
        None \<Rightarrow> (Inl NoRows, d)
      | Some r \<Rightarrow>
          if ds_verified r \<noteq> None then (Inl NoRows, d)
          else if sql_blank how then (Inl (CheckViolation ''payout_destination_verified_method_not_blank''), d)
          else
            (let r' = r\<lparr>ds_verified := Some now, ds_method := Some how\<rparr>
             in (Inr r', d\<lparr>destinations := map (\<lambda>x. if ds_id x = i \<and> ds_account x = account then r' else x)
                   (destinations d)\<rparr>)))"

section \<open>Requests\<close>

definition find_withdrawal :: "earn_db \<Rightarrow> uuid \<Rightarrow> withdrawal_row option" where
  "find_withdrawal d i = find (\<lambda>r. wr_id r = i) (withdrawals d)"

definition set_withdrawal :: "withdrawal_row \<Rightarrow> earn_db \<Rightarrow> earn_db" where
  "set_withdrawal r d = d\<lparr>withdrawals := map (\<lambda>x. if wr_id x = wr_id r then r else x) (withdrawals d)\<rparr>"

definition withdrawal_checks :: "withdrawal_row \<Rightarrow> db_error option" where
  "withdrawal_checks r =
     (if \<not> 0 <s wr_minor r then Some (CheckViolation ''withdrawal_request_amount_positive'')
      else if \<not> currency_valid (wr_currency r) then Some (CheckViolation ''withdrawal_request_currency_iso4217_format'')
      else if wr_state r = StateRejected \<and> (case wr_reason r of None \<Rightarrow> True | Some s \<Rightarrow> sql_blank s)
        then Some (CheckViolation ''withdrawal_request_rejection_has_reason'')
      else if wr_state r \<noteq> StateAwaitingApproval \<and> wr_decided_at r = None
        then Some (CheckViolation ''withdrawal_request_decided_before_leaving_the_queue'')
      else if (case wr_decided_at r of None \<Rightarrow> False | Some t \<Rightarrow> t < wr_requested r)
        then Some (CheckViolation ''withdrawal_request_decided_after_request'')
      else if (wr_decided_by r = None) \<noteq> (wr_decided_at r = None)
        then Some (CheckViolation ''withdrawal_request_decision_all_or_none'')
      else if (case wr_reason r of None \<Rightarrow> False | Some s \<Rightarrow> sql_blank s)
        then Some (CheckViolation ''withdrawal_request_decision_reason_not_blank'')
      else if sql_blank (wr_ref r) then Some (CheckViolation ''withdrawal_request_reserved_transfer_ref_not_blank'')
      else if wr_state r \<notin> set request_states then Some (CheckViolation ''withdrawal_request_state_known'')
      else None)"

definition create_withdrawal ::
  "instant \<Rightarrow> withdrawal_row \<Rightarrow> earn_db \<Rightarrow> (db_error + withdrawal_row) \<times> earn_db" where
  "create_withdrawal now arg d =
     (let r = arg\<lparr>wr_state := StateAwaitingApproval, wr_requested := now, wr_decided_by := None,
                  wr_decided_at := None, wr_reason := None\<rparr>
      in if list_ex (\<lambda>x. ds_id x = wr_destination r \<and> ds_verified x = None) (destinations d)
           then (Inl (TriggerRefused ''withdrawal_request_guard''), d)
         else case withdrawal_checks r of
             Some e \<Rightarrow> (Inl e, d)
           | None \<Rightarrow>
               if list_ex (\<lambda>x. wr_id x = wr_id r) (withdrawals d)
                 then (Inl (UniqueViolation ''withdrawal_request_pkey''), d)
               else if list_ex (\<lambda>x. wr_ref x = wr_ref r) (withdrawals d)
                 then (Inl (UniqueViolation ''withdrawal_request_reserved_transfer_ref_unique''), d)
               else if wr_account r \<notin> fst ` set (members d)
                 then (Inl (ForeignKeyViolation ''withdrawal_request_account_id_fkey''), d)
               else if find_destination d (wr_account r) (wr_destination r) = None
                 then (Inl (ForeignKeyViolation ''withdrawal_request_destination_is_the_members''), d)
               else (Inr r, d\<lparr>withdrawals := withdrawals d @ [r]\<rparr>))"

definition get_withdrawal :: "uuid \<Rightarrow> uuid \<Rightarrow> earn_db \<Rightarrow> (db_error + withdrawal_row) \<times> earn_db" where
  "get_withdrawal account i d =
     (case find (\<lambda>r. wr_id r = i \<and> wr_account r = account) (withdrawals d) of
        None \<Rightarrow> (Inl NoRows, d) | Some r \<Rightarrow> (Inr r, d))"

definition list_withdrawals :: "uuid \<Rightarrow> earn_db \<Rightarrow> (db_error + withdrawal_row list) \<times> earn_db" where
  "list_withdrawals account d =
     (Inr (rev (sort_key (\<lambda>r. (wr_requested r, wr_id r)) (filter (\<lambda>r. wr_account r = account) (withdrawals d)))), d)"

definition lock_withdrawal :: "uuid \<Rightarrow> earn_db \<Rightarrow> (db_error + withdrawal_row) \<times> earn_db" where
  "lock_withdrawal i d = (case find_withdrawal d i of None \<Rightarrow> (Inl NoRows, d) | Some r \<Rightarrow> (Inr r, d))"

definition record_decision ::
  "instant \<Rightarrow> uuid \<Rightarrow> string \<Rightarrow> string \<Rightarrow> uuid \<Rightarrow> string option \<Rightarrow> earn_db \<Rightarrow> (db_error + withdrawal_row) \<times> earn_db" where
  "record_decision now i from to by_whom reason d =
     (case find_withdrawal d i of
        None \<Rightarrow> (Inl NoRows, d)
      | Some r \<Rightarrow>
          if wr_state r \<noteq> from then (Inl NoRows, d)
          else
            (let r' = r\<lparr>wr_state := to, wr_decided_by := Some by_whom, wr_decided_at := Some now, wr_reason := reason\<rparr>
             in case withdrawal_checks r' of
                  Some e \<Rightarrow> (Inl e, d)
                | None \<Rightarrow>
                    if by_whom \<notin> fst ` set (members d)
                      then (Inl (ForeignKeyViolation ''withdrawal_request_decided_by_fkey''), d)
                    else (Inr r', set_withdrawal r' d)))"

definition mark_withdrawal_paid :: "uuid \<Rightarrow> earn_db \<Rightarrow> (db_error + withdrawal_row) \<times> earn_db" where
  "mark_withdrawal_paid i d =
     (case find_withdrawal d i of
        None \<Rightarrow> (Inl NoRows, d)
      | Some r \<Rightarrow>
          if wr_state r \<noteq> StateApproved then (Inl NoRows, d)
          else case withdrawal_checks (r\<lparr>wr_state := StatePaid\<rparr>) of
              Some e \<Rightarrow> (Inl e, d)
            | None \<Rightarrow> (Inr (r\<lparr>wr_state := StatePaid\<rparr>), set_withdrawal (r\<lparr>wr_state := StatePaid\<rparr>) d))"

section \<open>Payouts\<close>

text \<open>The brands of the entries a transfer reserved, each once. The statement orders them; the code reads
  how many there are and, when there is one, which.\<close>

definition brands_of_reserved :: "transfer_ref \<Rightarrow> earn_db \<Rightarrow> (db_error + string list) \<times> earn_db" where
  "brands_of_reserved ref d =
     (Inr (remdups (concat (map (\<lambda>t. map e_brand (filter (\<lambda>e. e_id e = t_entry t) (entries d)))
        (filter (\<lambda>t. t_ref t = ref \<and> t_to t = StReserved) (transitions d))))), d)"

definition find_payout :: "earn_db \<Rightarrow> uuid \<Rightarrow> payout_row option" where
  "find_payout d request = find (\<lambda>p. po_request p = request) (payouts d)"

definition set_payout :: "payout_row \<Rightarrow> earn_db \<Rightarrow> earn_db" where
  "set_payout p d = d\<lparr>payouts := map (\<lambda>x. if po_id x = po_id p then p else x) (payouts d)\<rparr>"

definition payout_checks :: "payout_row \<Rightarrow> db_error option" where
  "payout_checks p =
     (if \<not> 0 <s po_minor p then Some (CheckViolation ''payout_amount_positive'')
      else if sql_blank (po_brand p) then Some (CheckViolation ''payout_brand_id_not_blank'')
      else if \<not> currency_valid (po_currency p) then Some (CheckViolation ''payout_currency_iso4217_format'')
      else if sql_blank (po_rail p) then Some (CheckViolation ''payout_rail_not_blank'')
      else if (case po_rail_ref p of None \<Rightarrow> False | Some s \<Rightarrow> sql_blank s)
        then Some (CheckViolation ''payout_rail_reference_not_blank'')
      else if (case po_settled p of None \<Rightarrow> False | Some t \<Rightarrow> t < po_submitted p)
        then Some (CheckViolation ''payout_settled_after_submission'')
      else if (po_state p = StatusSettled) \<noteq> (po_settled p \<noteq> None)
        then Some (CheckViolation ''payout_settled_iff_settlement_time'')
      else if \<not> rail_status_valid (po_state p) then Some (CheckViolation ''payout_state_known'')
      else None)"

definition create_payout ::
  "(nat \<Rightarrow> uuid) \<Rightarrow> instant \<Rightarrow> uuid \<Rightarrow> string \<Rightarrow> uuid \<Rightarrow> amount \<Rightarrow> string \<Rightarrow> earn_db \<Rightarrow> (db_error + payout_row) \<times> earn_db" where
  "create_payout fresh now request brand approver amt knd d =
     (let p = \<lparr>po_id = fresh (minted d), po_brand = brand, po_request = request, po_approver = approver,
               po_minor = minor amt, po_currency = currency_of amt, po_rail = knd, po_rail_ref = None,
               po_state = StatusSubmitted, po_submitted = now, po_settled = None\<rparr>
      in if approver \<in> fst ` set (members d) \<and> approver \<notin> set (operators d)
           then (Inl (TriggerRefused ''payout_insert_guard''), d)
         else case payout_checks p of
             Some e \<Rightarrow> (Inl e, d)
           | None \<Rightarrow>
               if list_ex (\<lambda>x. po_id x = po_id p) (payouts d) then (Inl (UniqueViolation ''payout_pkey''), d)
               else if list_ex (\<lambda>x. po_request x = request) (payouts d)
                 then (Inl (UniqueViolation ''payout_one_per_request''), d)
               else if approver \<notin> fst ` set (members d)
                 then (Inl (ForeignKeyViolation ''payout_approved_by_fkey''), d)
               else if \<not> list_ex (\<lambda>r. wr_id r = request \<and> wr_minor r = minor amt \<and> wr_currency r = currency_of amt)
                     (withdrawals d)
                 then (Inl (ForeignKeyViolation ''payout_pays_the_requested_amount''), d)
               else (Inr p, d\<lparr>payouts := payouts d @ [p], minted := Suc (minted d)\<rparr>))"

definition get_payout :: "uuid \<Rightarrow> earn_db \<Rightarrow> (db_error + payout_row) \<times> earn_db" where
  "get_payout request d = (case find_payout d request of None \<Rightarrow> (Inl NoRows, d) | Some p \<Rightarrow> (Inr p, d))"

definition record_submission :: "uuid \<Rightarrow> string \<Rightarrow> earn_db \<Rightarrow> (db_error + payout_row) \<times> earn_db" where
  "record_submission i ref d =
     (case find (\<lambda>p. po_id p = i) (payouts d) of
        None \<Rightarrow> (Inl NoRows, d)
      | Some p \<Rightarrow>
          if po_rail_ref p \<noteq> None then (Inl NoRows, d)
          else case payout_checks (p\<lparr>po_rail_ref := Some ref\<rparr>) of
              Some e \<Rightarrow> (Inl e, d)
            | None \<Rightarrow> (Inr (p\<lparr>po_rail_ref := Some ref\<rparr>), set_payout (p\<lparr>po_rail_ref := Some ref\<rparr>) d))"

definition record_outcome ::
  "instant \<Rightarrow> uuid \<Rightarrow> string \<Rightarrow> string \<Rightarrow> string option \<Rightarrow> earn_db \<Rightarrow> (db_error + payout_row) \<times> earn_db" where
  "record_outcome now i from to ref d =
     (case find (\<lambda>p. po_id p = i) (payouts d) of
        None \<Rightarrow> (Inl NoRows, d)
      | Some p \<Rightarrow>
          if po_state p \<noteq> from then (Inl NoRows, d)
          else
            (let p' = p\<lparr>po_state := to, po_settled := (if to = StatusSettled then Some now else None),
                        po_rail_ref := (case ref of None \<Rightarrow> po_rail_ref p | Some s \<Rightarrow> Some s)\<rparr>
             in if po_state p = StatusSettled \<and> to \<noteq> StatusSettled then (Inl (TriggerRefused ''payout_guard''), d)
                else case payout_checks p' of
                    Some e \<Rightarrow> (Inl e, d)
                  | None \<Rightarrow> (Inr p', set_payout p' d)))"

definition submitted_payouts :: "earn_db \<Rightarrow> (db_error + uuid list) \<times> earn_db" where
  "submitted_payouts d =
     (Inr (map po_request (sort_key po_submitted (filter (\<lambda>p. po_state p = StatusSubmitted) (payouts d)))), d)"

section \<open>What a statement that goes through has done\<close>

lemma find_withdrawal_Some: "find_withdrawal d i = Some r \<Longrightarrow> r \<in> set (withdrawals d) \<and> wr_id r = i"
  by (auto simp: find_withdrawal_def find_Some_iff)

lemma find_payout_Some: "find_payout d i = Some p \<Longrightarrow> p \<in> set (payouts d) \<and> po_request p = i"
  by (auto simp: find_payout_def find_Some_iff)

lemma create_withdrawal_Inr:
  assumes "create_withdrawal now arg d = (Inr r, d')"
  shows "r = arg\<lparr>wr_state := StateAwaitingApproval, wr_requested := now, wr_decided_by := None,
                  wr_decided_at := None, wr_reason := None\<rparr>"
    and "d' = d\<lparr>withdrawals := withdrawals d @ [r]\<rparr>" and "withdrawal_checks r = None"
    and "\<forall>x\<in>set (withdrawals d). wr_id x \<noteq> wr_id r \<and> wr_ref x \<noteq> wr_ref r"
    and "find_destination d (wr_account r) (wr_destination r) \<noteq> None"
    and "\<forall>x\<in>set (destinations d). ds_id x = wr_destination r \<longrightarrow> ds_verified x \<noteq> None"
  using assms by (auto simp: create_withdrawal_def Let_def list_ex_iff split: if_splits option.splits)

lemma record_decision_Inr:
  assumes "record_decision now i from to by_whom reason d = (Inr r', d')"
  obtains r where "find_withdrawal d i = Some r" "wr_state r = from"
    "r' = r\<lparr>wr_state := to, wr_decided_by := Some by_whom, wr_decided_at := Some now, wr_reason := reason\<rparr>"
    "withdrawal_checks r' = None" "d' = set_withdrawal r' d"
  using assms by (auto simp: record_decision_def Let_def split: if_splits option.splits)

lemma mark_withdrawal_paid_Inr:
  assumes "mark_withdrawal_paid i d = (Inr r', d')"
  obtains r where "find_withdrawal d i = Some r" "wr_state r = StateApproved" "r' = r\<lparr>wr_state := StatePaid\<rparr>"
    "withdrawal_checks r' = None" "d' = set_withdrawal r' d"
  using assms by (auto simp: mark_withdrawal_paid_def split: if_splits option.splits)

lemma create_payout_Inr:
  assumes "create_payout fresh now request brand approver amt knd d = (Inr p, d')"
  shows "p = \<lparr>po_id = fresh (minted d), po_brand = brand, po_request = request, po_approver = approver,
               po_minor = minor amt, po_currency = currency_of amt, po_rail = knd, po_rail_ref = None,
               po_state = StatusSubmitted, po_submitted = now, po_settled = None\<rparr>"
    and "d' = d\<lparr>payouts := payouts d @ [p], minted := Suc (minted d)\<rparr>" and "payout_checks p = None"
    and "approver \<in> set (operators d)" and "approver \<in> fst ` set (members d)"
    and "\<forall>x\<in>set (payouts d). po_id x \<noteq> po_id p \<and> po_request x \<noteq> request"
    and "\<exists>r\<in>set (withdrawals d). wr_id r = request \<and> wr_minor r = minor amt \<and> wr_currency r = currency_of amt"
  using assms by (auto simp: create_payout_def Let_def list_ex_iff split: if_splits option.splits)

lemma record_submission_Inr:
  assumes "record_submission i ref d = (Inr p', d')"
  obtains p where "find (\<lambda>p. po_id p = i) (payouts d) = Some p" "po_rail_ref p = None" "p' = p\<lparr>po_rail_ref := Some ref\<rparr>"
    "payout_checks p' = None" "d' = set_payout p' d"
  using assms by (auto simp: record_submission_def split: if_splits option.splits)

lemma record_outcome_Inr:
  assumes "record_outcome now i from to ref d = (Inr p', d')"
  obtains p where "find (\<lambda>p. po_id p = i) (payouts d) = Some p" "po_state p = from"
    "p' = p\<lparr>po_state := to, po_settled := (if to = StatusSettled then Some now else None),
            po_rail_ref := (case ref of None \<Rightarrow> po_rail_ref p | Some s \<Rightarrow> Some s)\<rparr>"
    "payout_checks p' = None" "d' = set_payout p' d"
  using assms by (auto simp: record_outcome_def Let_def split: if_splits option.splits)

lemma payout_statements_refused:
  "create_withdrawal now arg d = (Inl e, d') \<Longrightarrow> d' = d"
  "record_decision now i from to by_whom reason d = (Inl e, d') \<Longrightarrow> d' = d"
  "mark_withdrawal_paid i d = (Inl e, d') \<Longrightarrow> d' = d"
  "create_payout fresh now request brand approver amt knd d = (Inl e, d') \<Longrightarrow> d' = d"
  "record_submission i ref d = (Inl e, d') \<Longrightarrow> d' = d"
  "record_outcome now i from to nref d = (Inl e, d') \<Longrightarrow> d' = d"
  by (auto simp: create_withdrawal_def record_decision_def mark_withdrawal_paid_def create_payout_def
      record_submission_def record_outcome_def Let_def split: if_splits option.splits)

text \<open>What these statements leave alone: the entries, their history and the ledger links.\<close>

definition same_entries :: "earn_db \<Rightarrow> earn_db \<Rightarrow> bool" where
  "same_entries d d' \<longleftrightarrow> entries d' = entries d \<and> transitions d' = transitions d \<and> links d' = links d"

lemma payout_statements_entries:
  "same_entries d (snd (create_withdrawal now arg d))" "same_entries d (snd (record_decision now i from to by_whom reason d))"
  "same_entries d (snd (mark_withdrawal_paid i d))" "same_entries d (snd (create_payout fresh now q brand a amt knd d))"
  "same_entries d (snd (record_submission i ref d))" "same_entries d (snd (record_outcome now i from to nref d))"
  "same_entries d (snd (append_event ustr ev d))" "same_entries d (snd (lock_withdrawal i d))"
  "same_entries d (snd (get_payout i d))" "same_entries d (snd (get_destination a i d))"
  "same_entries d (snd (brands_of_reserved tref d))" "same_entries d (snd (commit_tx d))"
  "same_entries d (snd (submitted_payouts d))"
  by (auto simp: same_entries_def create_withdrawal_def record_decision_def mark_withdrawal_paid_def create_payout_def
      record_submission_def record_outcome_def append_event_def lock_withdrawal_def get_payout_def get_destination_def
      brands_of_reserved_def commit_tx_def submitted_payouts_def set_withdrawal_def set_payout_def Let_def
      split: if_splits option.splits)

end
