(* ===== verification/Review.thy ===== *)
theory Review
  imports Matching EarningsLedger JsonText
begin

text \<open>
  \<open>internal/cashback/earnings/review.go\<close> with \<open>queries/review.sql\<close> and the two announcements of
  \<open>events.go\<close> it makes: the queue of held credits, and the two decisions an operator takes on one.
  \<open>ErrNotReviewed e\<close>, \<open>ErrNoHeldTransition\<close>, \<open>ErrReviewPage\<close> and \<open>ErrReviewRow\<close> are the sentinel \<open>ErrNotReviewed\<close>
  with what it wraps.
\<close>

section \<open>A review\<close>

record review =
  rw_entry :: uuid
  rw_operator :: uuid
  rw_reason :: string

definition max_review_reason_runes :: nat where
  "max_review_reason_runes = 2000"

text \<open>\<open>len([]rune(s))\<close>: a byte that begins no encoding counts as one rune.\<close>

function rune_count :: "string \<Rightarrow> nat" where
  "rune_count s = (if s = [] then 0 else Suc (rune_count (drop (max 1 (rune_size (map of_char s))) s)))"
  by pat_completeness auto
termination
  by (relation "measure length") auto

declare rune_count.simps [simp del]

definition review_validate :: "review \<Rightarrow> earn_error option" where
  "review_validate r =
     (let reason = trim_space (rw_reason r) in
      if rw_entry r = nil_uuid then Some ErrInvalidReview
      else if rw_operator r = nil_uuid then Some ErrInvalidReview
      else if reason = [] then Some ErrInvalidReview
      else if rune_count reason > max_review_reason_runes then Some ErrInvalidReview
      else None)"

section \<open>The reads\<close>

definition lock_entry :: "uuid \<Rightarrow> earn_db \<Rightarrow> (db_error + entry_row) \<times> earn_db" where
  "lock_entry i d = (case find_entry d i of None \<Rightarrow> (Inl NoRows, d) | Some r \<Rightarrow> (Inr r, d))"

definition reversal_of :: "uuid \<Rightarrow> earn_db \<Rightarrow> (db_error + uuid) \<times> earn_db" where
  "reversal_of i d =
     (case find (\<lambda>r. e_reversal_of r = Some i) (entries d) of None \<Rightarrow> (Inl NoRows, d) | Some r \<Rightarrow> (Inr (e_id r), d))"

definition into_held :: "earn_db \<Rightarrow> uuid \<Rightarrow> transition_row list" where
  "into_held d i =
     rev (sort_key t_at (sort_key t_id (filter (\<lambda>t. t_entry t = i \<and> t_to t = StHeld) (transitions d))))"

definition held_transition :: "uuid \<Rightarrow> earn_db \<Rightarrow> (db_error + uuid) \<times> earn_db" where
  "held_transition i d = (case into_held d i of [] \<Rightarrow> (Inl NoRows, d) | t # _ \<Rightarrow> (Inr (t_id t), d))"

section \<open>The queue\<close>

record held_after =
  ha_since :: instant
  ha_id :: uuid

record held_credit =
  hc_id :: uuid
  hc_member :: uuid
  hc_brand :: string
  hc_report :: uuid
  hc_click :: uuid
  hc_rule :: string
  hc_reason :: string
  hc_amount :: amount
  hc_since :: instant
  hc_network :: string
  hc_external :: string
  hc_status :: string
  hc_sale :: amount
  hc_commission :: amount
  hc_transacted :: instant

definition after_of :: "held_credit \<Rightarrow> held_after" where
  "after_of h = \<lparr>ha_since = hc_since h, ha_id = hc_id h\<rparr>"

definition undecided :: "earn_db \<Rightarrow> entry_row \<Rightarrow> bool" where
  "undecided d e = (e_state e = StHeld \<and> e_reversal_of e = None \<and> \<not> reversed_in d (e_id e))"

definition past :: "held_after \<Rightarrow> entry_row \<Rightarrow> bool" where
  "past a e = (ha_since a < e_created e \<or> ha_since a = e_created e \<and> ha_id a < e_id e)"

definition with_report :: "earn_db \<Rightarrow> entry_row \<Rightarrow> (entry_row \<times> report_row) list" where
  "with_report d e = [(e, nt). nt \<leftarrow> reports d, rp_id nt = e_report e]"

definition by_hold_age :: "(entry_row \<times> report_row) list \<Rightarrow> (entry_row \<times> report_row) list" where
  "by_hold_age rows = sort_key (e_created \<circ> fst) (sort_key (e_id \<circ> fst) rows)"

definition list_held_entries :: "held_after \<Rightarrow> nat \<Rightarrow> earn_db \<Rightarrow> (entry_row \<times> report_row \<times> string) list" where
  "list_held_entries a n d =
     map (\<lambda>(e, nt). (e, nt, case into_held d (e_id e) of [] \<Rightarrow> [] | t # _ \<Rightarrow> or_empty (t_reason t)))
       (take n (by_hold_age (filter (past a \<circ> fst)
          (concat (map (with_report d) (filter (undecided d) (entries d)))))))"

definition held_credit_from :: "entry_row \<times> report_row \<times> string \<Rightarrow> earn_error + held_credit" where
  "held_credit_from = (\<lambda>(e, nt, why).
     case new_amount (e_minor e) (e_currency e) of Inl x \<Rightarrow> Inl (ErrReviewRow x) | Inr amt \<Rightarrow>
     (case new_amount (rp_sale nt) (e_currency e) of Inl x \<Rightarrow> Inl (ErrReviewRow x) | Inr sale \<Rightarrow>
     (case new_amount (rp_commission nt) (e_currency e) of Inl x \<Rightarrow> Inl (ErrReviewRow x) | Inr commission \<Rightarrow>
       Inr \<lparr>hc_id = e_id e, hc_member = e_account e, hc_brand = e_brand e, hc_report = e_report e,
         hc_click = or_nil (e_click e), hc_rule = or_empty (e_hold_rule e), hc_reason = why, hc_amount = amt,
         hc_since = e_created e, hc_network = rp_network nt, hc_external = rp_external nt, hc_status = rp_status nt,
         hc_sale = sale, hc_commission = commission, hc_transacted = rp_transacted nt\<rparr>)))"

fun all_held :: "(entry_row \<times> report_row \<times> string) list \<Rightarrow> earn_error + held_credit list" where
  "all_held [] = Inr []"
| "all_held (r # rs) =
     (case held_credit_from r of Inl e \<Rightarrow> Inl e | Inr h \<Rightarrow>
       (case all_held rs of Inl e \<Rightarrow> Inl e | Inr hs \<Rightarrow> Inr (h # hs)))"

definition held_page :: "held_after \<Rightarrow> int \<Rightarrow> 'l world \<Rightarrow> (earn_error + held_credit list) \<times> 'l world" where
  "held_page a limit w =
     (if limit \<le> 0 then (Inl ErrReviewPage, w)
      else
     and_then (wrap_error ErrNotReviewed
       (call_db (\<lambda>d. (Inr (list_held_entries a (nat (min limit 1000)) d), d)))) (\<lambda>rows. from_sum (all_held rows)) w)"

section \<open>The decisions\<close>

record released =
  rl_entry :: entry
  rl_rule :: string
  rl_by :: uuid
  rl_reason :: string
  rl_transfer :: transfer_ref
  rl_at :: instant

record rejected =
  rj_credit :: entry
  rj_reversal :: entry
  rj_rule :: string
  rj_by :: uuid
  rj_reason :: string
  rj_at :: instant

definition announce_released :: "'l machine \<Rightarrow> released \<Rightarrow> 'l world \<Rightarrow> (earn_error + unit) \<times> 'l world" where
  "announce_released M r =
     (if en_id (rl_entry r) = nil_uuid then refuse ErrNotAnnounced
      else if rl_by r = nil_uuid then refuse ErrNotAnnounced
      else if rl_transfer r = [] then refuse ErrNotAnnounced
      else announce M (HoldReleased (en_id (rl_entry r)) (en_member (rl_entry r)) (rl_rule r) (rl_by r) (rl_reason r)
             (rl_transfer r) (rl_at r)))"

definition announce_rejected :: "'l machine \<Rightarrow> rejected \<Rightarrow> 'l world \<Rightarrow> (earn_error + unit) \<times> 'l world" where
  "announce_rejected M r =
     (if en_id (rj_credit r) = nil_uuid \<or> en_id (rj_reversal r) = nil_uuid then refuse ErrNotAnnounced
      else if rj_by r = nil_uuid then refuse ErrNotAnnounced
      else announce M (HoldRejected (en_id (rj_credit r)) (en_id (rj_reversal r)) (en_member (rj_credit r)) (rj_rule r)
             (en_amount (rj_credit r)) (rj_by r) (rj_reason r) (rj_at r)))"

definition lock_error :: "db_error \<Rightarrow> earn_error" where
  "lock_error e = (case e of NoRows \<Rightarrow> ErrNoSuchEntry | _ \<Rightarrow> ErrNotReviewed e)"

definition ask_reversal :: "entry \<Rightarrow> 'l world \<Rightarrow> (earn_error + entry) \<times> 'l world" where
  "ask_reversal credit w =
     (case call_db (reversal_of (en_id credit)) w of
        (Inl NoRows, v) \<Rightarrow> (Inr credit, v)
      | (Inl e, v) \<Rightarrow> (Inl (ErrNotReviewed e), v)
      | (Inr _, v) \<Rightarrow> (Inl ErrAlreadyRejected, v))"

definition held_for_decision :: "uuid \<Rightarrow> 'l world \<Rightarrow> (earn_error + entry) \<times> 'l world" where
  "held_for_decision i =
     and_then (wrap_error lock_error (call_db (lock_entry i))) (\<lambda>row.
     and_then (from_sum (entry_from row)) (\<lambda>credit.
     if en_state credit \<noteq> StHeld then refuse (ErrNotHeld (en_state credit))
     else ask_reversal credit))"

abbreviation "review_tx \<equiv> in_tx ErrNotReviewed"

definition cause_error :: "db_error \<Rightarrow> earn_error" where
  "cause_error e = (case e of NoRows \<Rightarrow> ErrNoHeldTransition | _ \<Rightarrow> ErrNotReviewed e)"

definition release_move :: "review \<Rightarrow> entry \<Rightarrow> uuid \<Rightarrow> move" where
  "release_move r credit cause =
     \<lparr>mo_entry = en_id credit, mo_from = StHeld, mo_to = StPending, mo_member = en_member credit,
      mo_amount = en_amount credit, mo_cause = cause, mo_reason = trim_space (rw_reason r),
      mo_actor = rw_operator r, mo_hold_rule = []\<rparr>"

definition release_credit :: "'l machine \<Rightarrow> review \<Rightarrow> entry \<Rightarrow> uuid \<Rightarrow> 'l world \<Rightarrow> (earn_error + released) \<times> 'l world" where
  "release_credit M r credit cause =
     (if receivable M = [] then refuse ErrNoReceivable
      else
     and_then (apply_move M (release_move r credit cause)) (\<lambda>(moved, t).
     let fin = \<lparr>rl_entry = moved, rl_rule = en_hold_rule credit, rl_by = tr_actor t, rl_reason = tr_reason t,
                rl_transfer = tr_transfer t, rl_at = tr_at t\<rparr>
     in and_then (announce_released M fin) (\<lambda>_. give fin)))"

definition release_hold :: "'l machine \<Rightarrow> review \<Rightarrow> 'l world \<Rightarrow> (earn_error + released) \<times> 'l world" where
  "release_hold M r =
     (case review_validate r of
        Some e \<Rightarrow> refuse e
      | None \<Rightarrow> review_tx
          (and_then (held_for_decision (rw_entry r)) (\<lambda>credit.
           and_then (wrap_error cause_error (call_db (held_transition (en_id credit)))) (\<lambda>cause.
           release_credit M r credit cause))))"

definition reject_reversal :: "review \<Rightarrow> entry \<Rightarrow> reversal" where
  "reject_reversal r credit =
     \<lparr>rv_original = credit, rv_report = en_report credit, rv_reason = trim_space (rw_reason r), rv_actor = rw_operator r\<rparr>"

definition reject_credit :: "'l machine \<Rightarrow> review \<Rightarrow> entry \<Rightarrow> 'l world \<Rightarrow> (earn_error + rejected) \<times> 'l world" where
  "reject_credit M r credit =
     (if receivable M = [] then refuse ErrNoReceivable
      else
     and_then (reverse_credit M (reject_reversal r credit)) (\<lambda>(reversing, t).
     let fin = \<lparr>rj_credit = credit, rj_reversal = reversing, rj_rule = en_hold_rule credit, rj_by = tr_actor t,
                rj_reason = tr_reason t, rj_at = tr_at t\<rparr>
     in and_then (announce_rejected M fin) (\<lambda>_. give fin)))"

definition reject_hold :: "'l machine \<Rightarrow> review \<Rightarrow> 'l world \<Rightarrow> (earn_error + rejected) \<times> 'l world" where
  "reject_hold M r =
     (case review_validate r of
        Some e \<Rightarrow> refuse e
      | None \<Rightarrow> review_tx (and_then (held_for_decision (rw_entry r)) (reject_credit M r)))"

section \<open>What a decision finds and leaves\<close>

lemma read_db:
  "call_db (lock_entry i) w = (x, v) \<Longrightarrow> db v = db w \<and> ledger v = ledger w \<and> clock v = clock w"
  "call_db (reversal_of i) w = (y, v) \<Longrightarrow> db v = db w \<and> ledger v = ledger w \<and> clock v = clock w"
  "call_db (held_transition i) w = (y, v) \<Longrightarrow> db v = db w \<and> ledger v = ledger w \<and> clock v = clock w"
  by (auto simp: call_db_def lock_entry_def reversal_of_def held_transition_def split: option.splits list.splits if_splits)

lemma held_for_decision_Inr:
  assumes "held_for_decision i w = (Inr c, u)"
  obtains row where "find_entry (db w) i = Some row" "entry_from row = Inr c" "en_id c = i" "e_state row = StHeld"
    "\<not> reversed_in (db w) i" "db u = db w" "ledger u = ledger w" "clock u = clock w"
proof -
  obtain row u1 where l: "call_db (lock_entry i) w = (Inr row, u1)" and e: "entry_from row = Inr c"
    and held: "en_state c = StHeld" and a: "ask_reversal c u1 = (Inr c, u)"
    using assms by (auto simp: held_for_decision_def effects ask_reversal_def split: if_splits prod.splits sum.splits db_error.splits)
  have row: "find_entry (db w) i = Some row" using l by (auto simp: call_db_Inr lock_entry_def split: option.splits)
  then have id: "e_id row = i" using find_entry_Some by blast
  have c: "en_id c = i" "e_state row = StHeld" using e held id by (auto simp: entry_from_Inr)
  obtain y where y: "call_db (reversal_of i) u1 = (y, u)" using a c(1)
    by (cases "call_db (reversal_of i) u1") (auto simp: ask_reversal_def split: sum.splits db_error.splits)
  then have "y = Inl NoRows" using a c(1) by (auto simp: ask_reversal_def split: sum.splits db_error.splits)
  then have "\<not> reversed_in (db u1) i" using y
    by (auto simp: call_db_def reversal_of_def find_None_iff reversed_in_def list_ex_iff split: if_splits option.splits)
  then show thesis using that [OF row e c(1,2)] read_db(1) [OF l] read_db(2) [OF y] by simp
qed

lemma held_for_decision_rejected:
  assumes "find_entry (db w) i = Some row" "e_state row = StHeld" "entry_checks row = None" "reversed_in (db w) i" "fuse w = None"
  shows "fst (held_for_decision i w) = Inl ErrAlreadyRejected"
proof -
  obtain c where c: "entry_from row = Inr c" using assms(3) by (auto simp: entry_from_Inr entry_checks_None)
  have "en_id c = i" "en_state c = StHeld" using c assms(1,2) find_entry_Some by (auto simp: entry_from_Inr)
  moreover obtain r where "find (\<lambda>r. e_reversal_of r = Some i) (entries (db w)) = Some r"
    using assms(4) by (cases "find (\<lambda>r. e_reversal_of r = Some i) (entries (db w))")
      (auto simp: reversed_in_def list_ex_iff find_None_iff)
  ultimately show ?thesis using assms(1,5) c
    by (simp add: held_for_decision_def and_then_def wrap_error_def call_db_def ctx_done_def lock_entry_def from_sum_def
        ask_reversal_def reversal_of_def burn_def)
qed

lemma held_for_decision_not_held:
  assumes "find_entry (db w) i = Some row" "e_state row \<noteq> StHeld" "entry_checks row = None" "fuse w = None"
  shows "fst (held_for_decision i w) = Inl (ErrNotHeld (e_state row))"
proof -
  obtain c where c: "entry_from row = Inr c" using assms(3) by (auto simp: entry_from_Inr entry_checks_None)
  then have "en_state c = e_state row" by (auto simp: entry_from_Inr)
  then show ?thesis using assms(1,2,4) c
    by (simp add: held_for_decision_def and_then_def wrap_error_def call_db_def ctx_done_def lock_entry_def from_sum_def
        refuse_def burn_def)
qed

lemma find_in_prefix: "find P xs = Some x \<Longrightarrow> find P (xs @ ys) = Some x"
  by (induction xs) (auto split: if_splits)

lemma in_tx_Inl: "fst (m w) = Inl e \<Longrightarrow> fst (in_tx f m w) = Inl e"
  by (cases "m w") (auto simp: in_tx_def)

lemma and_then_fst_Inl: "fst (m w) = Inl e \<Longrightarrow> fst (and_then m f w) = Inl e"
  by (cases "m w") (auto simp: and_then_def)

lemma decisions_refused:
  assumes "fst (held_for_decision (rw_entry r) w) = Inl e" and "review_validate r = None"
  shows "fst (release_hold M r w) = Inl e \<and> fst (reject_hold M r w) = Inl e"
  using assms by (simp add: release_hold_def reject_hold_def in_tx_Inl and_then_fst_Inl)

lemma reject_hold_Inr:
  assumes "reject_hold M r w = (Inr d, v)"
  obtains row c rev where "find_entry (db w) (rw_entry r) = Some row" "entry_from row = Inr c" "e_state row = StHeld"
    "\<not> reversed_in (db w) (rw_entry r)" "entries (db v) = entries (db w) @ [rev]"
    "e_reversal_of rev = Some (rw_entry r)" "e_minor rev = e_minor row" "e_currency rev = e_currency row"
    "e_account rev = e_account row" "e_report rev = e_report row" "e_state rev = StReversed" "review_validate r = None"
proof -
  have ok: "review_validate r = None" using assms by (auto simp: reject_hold_def effects split: option.splits)
  obtain u where body: "and_then (held_for_decision (rw_entry r)) (reject_credit M r) w = (Inr d, u)"
    and v: "db v = (db u)\<lparr>moved := []\<rparr>"
    using assms ok by (auto simp: reject_hold_def elim: in_tx_Inr)
  obtain c u1 where h: "held_for_decision (rw_entry r) w = (Inr c, u1)" and rj: "reject_credit M r c u1 = (Inr d, u)"
    using body by (auto simp: and_then_Inr)
  obtain row where row: "find_entry (db w) (rw_entry r) = Some row" "entry_from row = Inr c" "en_id c = rw_entry r"
    "e_state row = StHeld" "\<not> reversed_in (db w) (rw_entry r)" "db u1 = db w"
    using held_for_decision_Inr [OF h] by metis
  have "receivable M \<noteq> []" using rj by (auto simp: reject_credit_def effects)
  then obtain e t u2 where rv: "reverse_credit M (reject_reversal r c) u1 = (Inr (e, t), u2)"
    and an: "announce_rejected M \<lparr>rj_credit = c, rj_reversal = e, rj_rule = en_hold_rule c, rj_by = tr_actor t,
                rj_reason = tr_reason t, rj_at = tr_at t\<rparr> u2 = (Inr (), u)"
    using rj by (fastforce simp: reject_credit_def and_then_Inr Let_def give_eq)
  have ent: "entries (db u) = entries (db u2)"
    using an by (auto simp: announce_rejected_def announce_def effects call_db_Inr dest!: append_event_Inr split: if_splits)
  from rv obtain rev d1 where c: "create_entry (fresh_ids M) (clock u2) (reversal_row (reject_reversal r c)) (db u1) = (Inr rev, d1) \<or>
      (\<exists>k. create_entry (fresh_ids M) k (reversal_row (reject_reversal r c)) (db u1) = (Inr rev, d1))" "entries (db u2) = entries d1"
  proof (cases rule: reverse_credit_cases)
    case (posted mv ref w1)
    have "db w1 = db u1" using keepsD [OF post_movement_same_db posted(3)] by (simp add: same_db_def)
    with posted(5) [OF refl] show ?thesis using that by auto
  qed auto
  then obtain k where "create_entry (fresh_ids M) k (reversal_row (reject_reversal r c)) (db u1) = (Inr rev, d1)" by blast
  note cr = create_entry_Inr [OF this]
  have "entries (db v) = entries (db w) @ [rev]" using v ent c(2) cr(2) row(6) by simp
  moreover have "e_reversal_of rev = Some (rw_entry r)" "e_minor rev = e_minor row" "e_currency rev = e_currency row"
    "e_account rev = e_account row" "e_report rev = e_report row" "e_state rev = StReversed"
    using cr(1) row(2,3) by (auto simp: reversal_row_def reject_reversal_def Let_def entry_from_Inr)
  ultimately show thesis using that [OF row(1,2,4,5)] ok by blast
qed

lemma release_hold_Inr:
  assumes "release_hold M r w = (Inr d, v)"
  obtains row c where "find_entry (db w) (rw_entry r) = Some row" "entry_from row = Inr c" "e_state row = StHeld"
    "\<not> reversed_in (db w) (rw_entry r)" "find_entry (db v) (rw_entry r) = Some (row\<lparr>e_state := StPending, e_hold_rule := None\<rparr>)"
    "entry_checks (row\<lparr>e_state := StPending, e_hold_rule := None\<rparr>) = None"
    "\<And>i. i \<noteq> rw_entry r \<Longrightarrow> find_entry (db v) i = find_entry (db w) i" "review_validate r = None"
proof -
  have ok: "review_validate r = None" using assms by (auto simp: release_hold_def effects split: option.splits)
  obtain u where body: "and_then (held_for_decision (rw_entry r)) (\<lambda>credit.
           and_then (wrap_error cause_error (call_db (held_transition (en_id credit)))) (\<lambda>cause.
           release_credit M r credit cause)) w = (Inr d, u)"
    and v: "db v = (db u)\<lparr>moved := []\<rparr>"
    using assms ok by (auto simp: release_hold_def elim: in_tx_Inr)
  obtain c u1 cause u2 where h: "held_for_decision (rw_entry r) w = (Inr c, u1)"
    and t: "call_db (held_transition (en_id c)) u1 = (Inr cause, u2)" and rl: "release_credit M r c cause u2 = (Inr d, u)"
    using body by (auto simp: and_then_Inr wrap_error_Inr)
  obtain row where row: "find_entry (db w) (rw_entry r) = Some row" "entry_from row = Inr c" "en_id c = rw_entry r"
    "e_state row = StHeld" "\<not> reversed_in (db w) (rw_entry r)" "db u1 = db w"
    using held_for_decision_Inr [OF h] by metis
  have u2: "db u2 = db w" using read_db(3) [OF t] row(6) by simp
  have "receivable M \<noteq> []" using rl by (auto simp: release_credit_def effects)
  then obtain e tr u3 where mv: "apply_move M (release_move r c cause) u2 = (Inr (e, tr), u3)"
    and an: "announce_released M \<lparr>rl_entry = e, rl_rule = en_hold_rule c, rl_by = tr_actor tr, rl_reason = tr_reason tr,
                rl_transfer = tr_transfer tr, rl_at = tr_at tr\<rparr> u3 = (Inr (), u)"
    using rl by (fastforce simp: release_credit_def and_then_Inr Let_def give_eq)
  have ent: "entries (db u) = entries (db u3)"
    using an by (auto simp: announce_released_def announce_def effects call_db_Inr dest!: append_event_Inr split: if_splits)
  obtain row' d1 where m: "move_entry (rw_entry r) StHeld StPending None (db w) = (Inr row', d1)" "entries (db u3) = entries d1"
    using mv
  proof (cases rule: apply_move_cases)
    case (posted mv ref w1)
    have "db w1 = db u2" using keepsD [OF post_movement_same_db posted(3)] by (simp add: same_db_def)
    with posted(5) [OF refl] show ?thesis using that u2 row(3)
      by (auto simp: release_move_def hold_rule_for_def text_or_null_def)
  qed auto
  have r': "row' = row\<lparr>e_state := StPending, e_hold_rule := None\<rparr>" "entry_checks row' = None"
    using move_entry_Inr [OF m(1)] row(1) by (metis option.inject)+
  have f: "find_entry (db v) j = (if j = rw_entry r then Some row' else find_entry (db w) j)" for j
    using move_entry_find [OF m(1) row(1), of j] v ent m(2) by (simp add: find_entry_def)
  show thesis by (rule that [OF row(1,2,4,5)]) (use f r' ok in auto)
qed

text \<open>(C29) A rejection is final and edits nothing: the credit's own row is as it was, one reversing entry of the
  same money stands beside it, and no operator can decide the credit again, neither to release it nor to
  reject it a second time.\<close>

theorem rejected_hold_is_decided:
  assumes "reject_hold M r w = (Inr d, v)" and "store_ok (db w)"
    and "rw_entry later = rw_entry r" "review_validate later = None"
  shows "find_entry (db v) (rw_entry r) = find_entry (db w) (rw_entry r) \<and>
     (\<exists>row rev. find_entry (db w) (rw_entry r) = Some row \<and> e_state row = StHeld \<and>
        entries (db v) = entries (db w) @ [rev] \<and> e_reversal_of rev = Some (rw_entry r) \<and>
        e_minor rev = e_minor row \<and> e_currency rev = e_currency row \<and> e_account rev = e_account row \<and> e_state rev = StReversed) \<and>
     fst (release_hold M later (v\<lparr>fuse := None\<rparr>)) = Inl ErrAlreadyRejected \<and>
     fst (reject_hold M later (v\<lparr>fuse := None\<rparr>)) = Inl ErrAlreadyRejected"
proof -
  obtain row c rev where row: "find_entry (db w) (rw_entry r) = Some row" "e_state row = StHeld"
    and rev: "entries (db v) = entries (db w) @ [rev]" "e_reversal_of rev = Some (rw_entry r)" "e_minor rev = e_minor row"
      "e_currency rev = e_currency row" "e_account rev = e_account row" "e_state rev = StReversed"
    using reject_hold_Inr [OF assms(1)] by metis
  have f: "find_entry (db v) (rw_entry r) = Some row" using row(1) by (simp add: find_entry_def rev(1) find_in_prefix)
  have "entry_checks row = None" using assms(2) find_entry_Some [OF row(1)] by (auto simp: store_ok_def)
  moreover have "reversed_in (db v) (rw_entry r)" by (simp add: reversed_in_def rev(1,2))
  ultimately have "fst (held_for_decision (rw_entry later) (v\<lparr>fuse := None\<rparr>)) = Inl ErrAlreadyRejected"
    using f row(2) by (intro held_for_decision_rejected) (simp_all add: assms(3))
  from decisions_refused [OF this assms(4)] show ?thesis using row rev f by auto
qed

definition held_row :: entry_row where
  "held_row = \<lparr>e_id = 50, e_account = 7, e_brand = ''b'', e_report = 5, e_click = None, e_state = StHeld, e_minor = 250,
     e_currency = ''EUR'', e_hold_rule = Some ''sale-cap'', e_reversal_of = None, e_created = 3\<rparr>"

definition held_books :: earn_db where
  "held_books = \<lparr>entries = [held_row],
     transitions = [\<lparr>t_id = 60, t_entry = 50, t_from = None, t_to = StHeld, t_ref = ''t0'', t_reason = Some ''big'',
       t_actor = None, t_at = 3\<rparr>],
     links = [\<lparr>l_transition = 60, l_entry = 50, l_ref = ''t0''\<rparr>], outbox = [], queue = [],
     reports = [\<lparr>rp_id = 5, rp_network = ''awin'', rp_external = ''x'', rp_click_ref = None, rp_status = ''pending'',
        rp_sale = 1000, rp_commission = 500, rp_currency = ''EUR'', rp_transacted = 1, rp_retrieved = 2,
        rp_supersedes = None, rp_reconciled = False\<rparr>],
     clicks = [], participation = [(7, ''EUR'')], members = [(7, 1), (9, 1)], brands = [], moved = [],
     destinations = [], withdrawals = [], payouts = [], operators = [9], minted = 1\<rparr>"

definition ordinary :: review where
  "ordinary = \<lparr>rw_entry = 50, rw_operator = 9, rw_reason = ''seen the receipt''\<rparr>"

abbreviation "review_world \<equiv> \<lparr>ledger = (), db = held_books, fuse = None, clock = 8\<rparr>"

lemma sample_reviews:
  "case reject_hold idle_machine ordinary review_world of (Inr _, _) \<Rightarrow> True | _ \<Rightarrow> False"
  "case release_hold idle_machine ordinary review_world of (Inr _, _) \<Rightarrow> True | _ \<Rightarrow> False"
  "review_validate ordinary = None"
  by code_simp+

lemma held_books_ok: "store_ok held_books"
  by (simp add: store_ok_def held_books_def held_row_def entry_checks_None sql_blank_def currency_valid_def upper_letter_def
      state_valid_iff word_sless_iff64)

theorem rejected_hold_is_decided_witness:
  "\<exists>d v. reject_hold idle_machine ordinary review_world = (Inr d, v) \<and>
     fst (reject_hold idle_machine ordinary (v\<lparr>fuse := None\<rparr>)) = Inl ErrAlreadyRejected"
proof -
  obtain d v where r: "reject_hold idle_machine ordinary review_world = (Inr d, v)"
    using sample_reviews(1) by (auto split: prod.splits sum.splits)
  from rejected_hold_is_decided [OF r _ refl sample_reviews(3)] r held_books_ok show ?thesis by auto
qed



section \<open>Walking the queue\<close>

lemma sort_key_lex:
  "sorted_wrt (\<lambda>a b. f a < f b \<or> f a = f b \<and> g a \<le> g b) (sort_key f (sort_key g xs))"
proof -
  let ?ys = "sort_key f (sort_key g xs)"
  have same: "g (?ys ! i) \<le> g (?ys ! j)" if ij: "i < j" "j < length ?ys" "f (?ys ! i) = f (?ys ! j)" for i j
  proof -
    let ?x = "?ys ! i" and ?y = "?ys ! j"
    have a: "?ys = take j ?ys @ ?y # drop (Suc j) ?ys" using ij(2) by (rule id_take_nth_drop)
    have b: "take j ?ys = take i ?ys @ ?x # drop (Suc i) (take j ?ys)"
      using id_take_nth_drop [of i "take j ?ys"] ij(1,2) by simp
    have "filter (\<lambda>z. f z = f ?y) ?ys = filter (\<lambda>z. f z = f ?y) (sort_key g xs)" by (rule sort_key_stable)
    then have "sorted (map g (filter (\<lambda>z. f z = f ?y) ?ys))" by (simp add: sorted_filter)
    moreover have "filter (\<lambda>z. f z = f ?y) ?ys =
        filter (\<lambda>z. f z = f ?y) (take i ?ys) @ ?x # filter (\<lambda>z. f z = f ?y) (drop (Suc i) (take j ?ys)) @
        ?y # filter (\<lambda>z. f z = f ?y) (drop (Suc j) ?ys)"
      using ij(3) by (subst a, subst b) simp
    ultimately show ?thesis by (simp add: sorted_append)
  qed
  have "f (?ys ! i) \<le> f (?ys ! j)" if "i < j" "j < length ?ys" for i j
    using sorted_nth_mono [OF sorted_sort_key [of f "sort_key g xs"], of i j] that by simp
  then show ?thesis
    using same by (fastforce simp: sorted_wrt_iff_nth_less le_less)
qed

lemma filter_after:
  assumes "sorted_wrt S q" and "k < length q" and asym: "\<And>x y. S x y \<Longrightarrow> \<not> S y x"
  shows "filter (S (q ! k)) q = drop (Suc k) q"
proof -
  have q: "q = take k q @ q ! k # drop (Suc k) q" using assms(2) by (rule id_take_nth_drop)
  have s: "\<forall>x\<in>set (take k q). S x (q ! k)" "\<forall>x\<in>set (drop (Suc k) q). S (q ! k) x"
    using assms(1) by (subst (asm) q, simp add: sorted_wrt_append)+
  have "filter (S (q ! k)) (take k q) = []" "\<not> S (q ! k) (q ! k)" using s(1) asym by (auto simp: filter_empty_conv)
  moreover have "filter (S (q ! k)) (drop (Suc k) q) = drop (Suc k) q" using s(2) by simp
  ultimately show ?thesis by (subst q, simp del: append_take_drop_id)
qed

definition held_queue :: "earn_db \<Rightarrow> (entry_row \<times> report_row) list" where
  "held_queue d = by_hold_age (concat (map (with_report d) (filter (undecided d) (entries d))))"

definition queue_row_of :: "earn_db \<Rightarrow> entry_row \<times> report_row \<Rightarrow> entry_row \<times> report_row \<times> string" where
  "queue_row_of d = (\<lambda>(e, nt). (e, nt, case into_held d (e_id e) of [] \<Rightarrow> [] | t # _ \<Rightarrow> or_empty (t_reason t)))"

lemma list_held_entries_queue:
  "list_held_entries a n d = map (queue_row_of d) (take n (filter (past a \<circ> fst) (held_queue d)))"
  by (simp add: list_held_entries_def held_queue_def by_hold_age_def filter_sort queue_row_of_def)

lemma with_report_one:
  assumes "distinct (map rp_id (reports d))"
  shows "with_report d e = [] \<or> (\<exists>nt. with_report d e = [(e, nt)])"
proof -
  have "length (filter (\<lambda>nt. rp_id nt = i) rs) \<le> 1" if "distinct (map rp_id rs)" for rs i
    using that by (induction rs) (auto simp: filter_empty_conv image_iff)
  then have "length (filter (\<lambda>nt. rp_id nt = e_report e) (reports d)) \<le> 1" using assms by blast
  moreover have "concat (map (\<lambda>nt. if rp_id nt = e_report e then [(e, nt)] else []) rs) =
      map (Pair e) (filter (\<lambda>nt. rp_id nt = e_report e) rs)" for rs
    by (induction rs) auto
  then have "with_report d e = map (Pair e) (filter (\<lambda>nt. rp_id nt = e_report e) (reports d))"
    by (simp add: with_report_def)
  ultimately show ?thesis
    by (cases "filter (\<lambda>nt. rp_id nt = e_report e) (reports d)") auto
qed

lemma held_queue_distinct:
  assumes "distinct (map e_id (entries d))" and "distinct (map rp_id (reports d))"
  shows "distinct (map (e_id \<circ> fst) (held_queue d))"
proof -
  have "distinct (map e_id es) \<Longrightarrow> distinct (map (e_id \<circ> fst) (concat (map (with_report d) es))) \<and>
      (e_id \<circ> fst) ` set (concat (map (with_report d) es)) \<subseteq> e_id ` set es" for es
  proof (induction es)
    case (Cons e es)
    have own: "x \<in> set (with_report d y) \<Longrightarrow> fst x = y" for x y by (auto simp: with_report_def split: if_splits)
    from Cons show ?case using with_report_one [OF assms(2), of e] by (auto simp: image_subset_iff dest!: own)
  qed simp
  moreover have "distinct (map e_id (filter (undecided d) (entries d)))"
    using assms(1) by (simp add: distinct_map_filter)
  ultimately have dist: "distinct (map (e_id \<circ> fst) (concat (map (with_report d) (filter (undecided d) (entries d)))))" by blast
  have "mset (map (e_id \<circ> fst) (held_queue d)) =
      mset (map (e_id \<circ> fst) (concat (map (with_report d) (filter (undecided d) (entries d)))))"
    unfolding held_queue_def by_hold_age_def mset_map by simp
  then show ?thesis using dist mset_eq_imp_distinct_iff by blast
qed

text \<open>(C31) The queue an operator works is paged without a gap or a repeat: whatever row of it a page ended on,
  the page asked for after that row is the next stretch of the queue, oldest first.\<close>

theorem next_page_continues_the_queue:
  assumes "distinct (map e_id (entries d))" and "distinct (map rp_id (reports d))"
    and "k < length (held_queue d)" and "(e, nt) = held_queue d ! k"
  shows "list_held_entries \<lparr>ha_since = e_created e, ha_id = e_id e\<rparr> n d =
     map (queue_row_of d) (take n (drop (Suc k) (held_queue d)))"
proof -
  let ?S = "\<lambda>a b :: entry_row \<times> report_row. past \<lparr>ha_since = e_created (fst a), ha_id = e_id (fst a)\<rparr> (fst b)"
  have lex: "sorted_wrt (\<lambda>a b. (e_created \<circ> fst) a < (e_created \<circ> fst) b \<or>
      (e_created \<circ> fst) a = (e_created \<circ> fst) b \<and> (e_id \<circ> fst) a \<le> (e_id \<circ> fst) b) (held_queue d)"
    unfolding held_queue_def by_hold_age_def by (rule sort_key_lex)
  have "sorted_wrt ?S (held_queue d)"
    unfolding sorted_wrt_iff_nth_less
  proof (intro allI impI)
    fix i j
    assume ij: "i < j" "j < length (held_queue d)"
    have "e_id (fst (held_queue d ! i)) \<noteq> e_id (fst (held_queue d ! j))"
      using held_queue_distinct [OF assms(1,2)] ij by (auto simp: distinct_conv_nth)
    then show "?S (held_queue d ! i) (held_queue d ! j)"
      using lex ij order.not_eq_order_implies_strict
      by (auto simp: sorted_wrt_iff_nth_less past_def comp_def less_le)
  qed
  moreover have "\<not> ?S y x" if "?S x y" for x y using that by (auto simp: past_def)
  ultimately have "filter (?S (held_queue d ! k)) (held_queue d) = drop (Suc k) (held_queue d)"
    using filter_after [OF _ assms(3), of ?S] by blast
  then have "filter (past \<lparr>ha_since = e_created e, ha_id = e_id e\<rparr> \<circ> fst) (held_queue d) = drop (Suc k) (held_queue d)"
    using assms(4) by (simp add: comp_def) (metis fst_conv)
  then show ?thesis by (simp add: list_held_entries_queue)
qed

definition two_held :: earn_db where
  "two_held = held_books\<lparr>entries := [held_row, held_row\<lparr>e_id := 40\<rparr>]\<rparr>"

lemma two_held_queue: "map (\<lambda>(e, nt). (e_id e, e_created e)) (held_queue two_held) = [(40, 3), (50, 3)]"
  by code_simp

theorem next_page_continues_the_queue_witness:
  "map (e_id \<circ> fst) (list_held_entries \<lparr>ha_since = 3, ha_id = 40\<rparr> 10 two_held) = [50]"
proof -
  obtain a b where q: "held_queue two_held = [a, b]" "(e_id (fst a), e_created (fst a)) = (40, 3)" "e_id (fst b) = 50"
    using two_held_queue by (auto simp: map_eq_Cons_conv)
  have "distinct (map e_id (entries two_held))" "distinct (map rp_id (reports two_held))"
    by (simp_all add: two_held_def held_books_def held_row_def)
  from next_page_continues_the_queue [OF this, of 0 "fst a" "snd a" 10] q
  show ?thesis by (cases b) (simp add: queue_row_of_def)
qed

end
