(* ===== verification/Withdrawal.thy ===== *)
theory Withdrawal
  imports PayoutStore Review
begin

text \<open>
  Asking to be paid: \<open>internal/cashback/payout/destination.go\<close>, \<open>verification.go\<close> and \<open>withdrawal.go\<close>,
  with the announcer of \<open>events.go\<close>. A sentinel that wraps what refused it is one constructor with the
  refusal. The identifier \<open>uuid.New()\<close> draws for a request is an argument of \<open>request_withdrawal\<close>.
\<close>

section \<open>Errors\<close>

datatype pay_error =
    FromEarnings earn_error
  | ErrInvalidDestination | ErrDestinationNotFound | ErrDestinationUnread db_error | ErrDestinationRefused db_error
  | ErrDestinationNotVerified | ErrNoVerificationMethod
  | ErrNotRequested | ErrRequestRefused db_error | ErrPayReceivable | ErrNoThreshold | ErrCurrencyNotPaid
  | ErrPayMoney money_error | BelowThreshold amount amount amount
  | ErrWithdrawalNotFound | ErrWithdrawalUnread db_error | ErrRowMoney money_error | ErrRowKind
  | ErrPayNotAnnounced
  | ErrNotApprovedBy pay_error | ErrApprovalInvalid | ErrApprovalRefused db_error | ErrApprovalKind kind kind
  | ErrNoSuchWithdrawal | ErrNotAwaitingApproval | ErrAlreadyApproved "uuid option" | ErrBrandUnresolved nat
  | ErrFromRail rail_error | ErrReferenceUnrecorded db_error | ErrPayoutUnread db_error
  | ErrRejectionInvalid | ErrRejectionRefused db_error | ErrNoDecisionReason | ErrNothingReserved
  | ErrNoPayout | ErrNothingToRetry rail_status | ErrRetryInvalid | ErrRetryRefused db_error | ErrNotRetriedBy pay_error
  | ErrSettlementInvalid | ErrNoBankReference | ErrSettlementRefused db_error | ErrNotSubmitted rail_status
  | ErrNotAcknowledged | ErrUnusableReference rail_error | ErrNotSettledBy pay_error | ErrRequestNotApproved
  | ErrSweepCut | ErrUnresolved nat nat

section \<open>Destinations\<close>

record destination =
  dn_id :: uuid
  dn_account :: uuid
  dn_kind :: kind
  dn_details :: string
  dn_verified_at :: instant
  dn_method :: string
  dn_created :: instant

definition or_zero :: "instant option \<Rightarrow> instant" where
  "or_zero x = (case x of None \<Rightarrow> zero_time | Some t \<Rightarrow> t)"

definition destination_from :: "destination_row \<Rightarrow> destination" where
  "destination_from r =
     \<lparr>dn_id = ds_id r, dn_account = ds_account r, dn_kind = ds_kind r, dn_details = ds_ref r,
      dn_verified_at = or_zero (ds_verified r), dn_method = or_empty (ds_method r), dn_created = ds_created r\<rparr>"

definition verified :: "destination \<Rightarrow> bool" where
  "verified d = (dn_verified_at d \<noteq> zero_time)"

definition require_verified :: "destination \<Rightarrow> pay_error option" where
  "require_verified d = (if \<not> verified d then Some ErrDestinationNotVerified else None)"

definition to_ref :: "destination \<Rightarrow> destination_ref" where
  "to_ref d = \<lparr>dr_kind = dn_kind d, dr_details = dn_details d\<rparr>"

definition parse_kind :: "string \<Rightarrow> pay_error + kind" where
  "parse_kind s = (if \<not> kind_valid s then Inl ErrInvalidDestination else Inr s)"

record new_destination =
  nd_account :: uuid
  nd_kind :: kind
  nd_details :: string

definition new_destination_validate :: "new_destination \<Rightarrow> pay_error option" where
  "new_destination_validate n =
     (if nd_account n = nil_uuid then Some ErrInvalidDestination
      else if \<not> kind_valid (nd_kind n) then Some ErrInvalidDestination
      else if trim_space (nd_details n) = [] then Some ErrInvalidDestination
      else None)"

definition record_destination ::
  "'l machine \<Rightarrow> new_destination \<Rightarrow> 'l world \<Rightarrow> (pay_error + destination) \<times> 'l world" where
  "record_destination M n w =
     (case new_destination_validate n of
        Some e \<Rightarrow> refuse e w
      | None \<Rightarrow>
     and_then (wrap_error ErrDestinationRefused
       (call_db (create_destination (fresh_ids M) (clock w) (nd_account n) (nd_kind n) (nd_details n)))) (\<lambda>row.
     give (destination_from row)) w)"

definition destinations_of :: "uuid \<Rightarrow> 'l world \<Rightarrow> (pay_error + destination list) \<times> 'l world" where
  "destinations_of account =
     (if account = nil_uuid then refuse ErrInvalidDestination
      else
     and_then (wrap_error ErrDestinationUnread (call_db (list_destinations account))) (\<lambda>rows.
     give (map destination_from rows)))"

definition destination_error :: "db_error \<Rightarrow> pay_error" where
  "destination_error e = (case e of NoRows \<Rightarrow> ErrDestinationNotFound | _ \<Rightarrow> ErrDestinationUnread e)"

definition destination_of :: "uuid \<Rightarrow> uuid \<Rightarrow> 'l world \<Rightarrow> (pay_error + destination) \<times> 'l world" where
  "destination_of account i =
     (if account = nil_uuid \<or> i = nil_uuid then refuse ErrInvalidDestination
      else
     and_then (wrap_error destination_error (call_db (get_destination account i))) (\<lambda>row.
     give (destination_from row)))"

definition verify :: "uuid \<Rightarrow> uuid \<Rightarrow> string \<Rightarrow> 'l world \<Rightarrow> (pay_error + destination) \<times> 'l world" where
  "verify account i how =
     (if trim_space how = [] then refuse ErrNoVerificationMethod
      else
     and_then (destination_of account i) (\<lambda>existing.
     if verified existing then give existing
     else (\<lambda>w.
       case call_db (verify_destination (clock w) (dn_id existing) (dn_account existing) how) w of
         (Inl NoRows, v) \<Rightarrow> destination_of account i v
       | (Inl e, v) \<Rightarrow> (Inl (ErrDestinationRefused e), v)
       | (Inr row, v) \<Rightarrow> (Inr (destination_from row), v))))"

section \<open>Withdrawals\<close>

record ask =
  ask_member :: uuid
  ask_destination :: uuid
  ask_amount :: amount

record withdrawal =
  wd_id :: uuid
  wd_member :: uuid
  wd_destination :: uuid
  wd_amount :: amount
  wd_state :: string
  wd_requested :: instant
  wd_ref :: transfer_ref
  wd_by :: uuid
  wd_at :: instant
  wd_reason :: string

definition withdrawal_from :: "withdrawal_row \<Rightarrow> pay_error + withdrawal" where
  "withdrawal_from r =
     (case new_amount (wr_minor r) (wr_currency r) of
        Inl e \<Rightarrow> Inl (ErrRowMoney e)
      | Inr a \<Rightarrow>
          Inr \<lparr>wd_id = wr_id r, wd_member = wr_account r, wd_destination = wr_destination r, wd_amount = a,
            wd_state = wr_state r, wd_requested = wr_requested r, wd_ref = wr_ref r, wd_by = or_nil (wr_decided_by r),
            wd_at = or_zero (wr_decided_at r), wd_reason = or_empty (wr_reason r)\<rparr>)"

definition acceptable :: "string \<Rightarrow> amount \<Rightarrow> ask \<Rightarrow> pay_error option" where
  "acceptable recv threshold q =
     (if ask_member q = nil_uuid then Some ErrNotRequested
      else if ask_destination q = nil_uuid then Some ErrNotRequested
      else if recv = [] then Some ErrPayReceivable
      else if \<not> currency_valid (currency_of threshold) then Some ErrNoThreshold
      else if validate_amount (ask_amount q) \<noteq> None then Some (FromEarnings ErrNothingToReserve)
      else if \<not> is_positive (ask_amount q) then Some (FromEarnings ErrNothingToReserve)
      else if currency_of (ask_amount q) \<noteq> currency_of threshold then Some ErrCurrencyNotPaid
      else None)"

definition payable :: "ask \<Rightarrow> 'l world \<Rightarrow> (pay_error + unit) \<times> 'l world" where
  "payable q =
     and_then (destination_of (ask_member q) (ask_destination q)) (\<lambda>destination.
     if \<not> verified destination then refuse ErrDestinationNotVerified else give ())"

definition reaches_the_threshold :: "amount \<Rightarrow> entry list \<Rightarrow> pay_error + unit" where
  "reaches_the_threshold threshold es =
     (case total es (currency_of threshold) of
        Inl e \<Rightarrow> Inl (FromEarnings e)
      | Inr sm \<Rightarrow>
          if minor threshold \<le>s minor sm then Inr ()
          else case sub_amount threshold sm of
              Inl e \<Rightarrow> Inl (ErrPayMoney e)
            | Inr short \<Rightarrow> Inl (BelowThreshold threshold sm short))"

definition announce_pay :: "'l machine \<Rightarrow> event \<Rightarrow> 'l world \<Rightarrow> (pay_error + unit) \<times> 'l world" where
  "announce_pay M ev = wrap_error (\<lambda>_. ErrPayNotAnnounced) (call_db (append_event (uuid_str M) ev))"

definition announce_requested :: "'l machine \<Rightarrow> withdrawal \<Rightarrow> 'l world \<Rightarrow> (pay_error + unit) \<times> 'l world" where
  "announce_requested M made =
     (if wd_id made = nil_uuid then refuse ErrPayNotAnnounced
      else announce_pay M (WithdrawalRequested (wd_id made) (wd_member made) (wd_amount made) (wd_requested made)))"

definition request_row :: "uuid \<Rightarrow> ask \<Rightarrow> reservation \<Rightarrow> withdrawal_row" where
  "request_row i q rs =
     \<lparr>wr_id = i, wr_account = ask_member q, wr_destination = ask_destination q, wr_minor = minor (rs_amount rs),
      wr_currency = currency_of (rs_amount rs), wr_state = StateAwaitingApproval, wr_requested = zero_time,
      wr_ref = rs_transfer rs, wr_decided_by = None, wr_decided_at = None, wr_reason = None\<rparr>"

definition cover_error :: "earn_error + 'a \<Rightarrow> pay_error + 'a" where
  "cover_error r = (case r of Inl e \<Rightarrow> Inl (FromEarnings e) | Inr x \<Rightarrow> Inr x)"

text \<open>What is done once the entries to take are chosen: from here on the ledger has been touched.\<close>

definition take_and_record ::
  "'l machine \<Rightarrow> uuid \<Rightarrow> ask \<Rightarrow> entry list \<Rightarrow> 'l world \<Rightarrow> (pay_error + withdrawal) \<times> 'l world" where
  "take_and_record M i q taking =
     and_then (wrap_error FromEarnings (reserve M taking i)) (\<lambda>rs.
     and_then (\<lambda>w. wrap_error ErrRequestRefused (call_db (create_withdrawal (clock w) (request_row i q rs))) w) (\<lambda>row.
     and_then (from_sum (withdrawal_from row)) (\<lambda>made.
     and_then (announce_requested M made) (\<lambda>_.
     give made))))"

definition choose_and_take ::
  "'l machine \<Rightarrow> amount \<Rightarrow> uuid \<Rightarrow> ask \<Rightarrow> 'l world \<Rightarrow> (pay_error + withdrawal) \<times> 'l world" where
  "choose_and_take M threshold i q =
     and_then (payable q) (\<lambda>_.
     and_then (wrap_error FromEarnings (confirmed (ask_member q) (currency_of (ask_amount q)))) (\<lambda>es.
     and_then (from_sum (reaches_the_threshold threshold es)) (\<lambda>_.
     and_then (from_sum (cover_error (covering es (ask_amount q)))) (\<lambda>(taking, _).
     take_and_record M i q taking))))"

definition request_withdrawal ::
  "'l machine \<Rightarrow> amount \<Rightarrow> uuid \<Rightarrow> ask \<Rightarrow> 'l world \<Rightarrow> (pay_error + withdrawal) \<times> 'l world" where
  "request_withdrawal M threshold i q =
     (case acceptable (receivable M) threshold q of
        Some e \<Rightarrow> refuse e
      | None \<Rightarrow> in_tx ErrRequestRefused (choose_and_take M threshold i q))"

definition withdrawal_error :: "db_error \<Rightarrow> pay_error" where
  "withdrawal_error e = (case e of NoRows \<Rightarrow> ErrWithdrawalNotFound | _ \<Rightarrow> ErrWithdrawalUnread e)"

definition withdrawal_of :: "uuid \<Rightarrow> uuid \<Rightarrow> 'l world \<Rightarrow> (pay_error + withdrawal) \<times> 'l world" where
  "withdrawal_of member i =
     (if member = nil_uuid \<or> i = nil_uuid then refuse ErrWithdrawalNotFound
      else
     and_then (wrap_error withdrawal_error (call_db (get_withdrawal member i))) (\<lambda>row.
     from_sum (withdrawal_from row)))"

fun withdrawals_from :: "withdrawal_row list \<Rightarrow> pay_error + withdrawal list" where
  "withdrawals_from [] = Inr []"
| "withdrawals_from (r # rs) =
     (case withdrawal_from r of
        Inl e \<Rightarrow> Inl e
      | Inr x \<Rightarrow> (case withdrawals_from rs of Inl e \<Rightarrow> Inl e | Inr xs \<Rightarrow> Inr (x # xs)))"

definition withdrawals_of :: "uuid \<Rightarrow> 'l world \<Rightarrow> (pay_error + withdrawal list) \<times> 'l world" where
  "withdrawals_of member =
     (if member = nil_uuid then refuse ErrWithdrawalNotFound
      else
     and_then (wrap_error ErrWithdrawalUnread (call_db (list_withdrawals member))) (\<lambda>rows.
     from_sum (withdrawals_from rows)))"

section \<open>What the reads answer\<close>

lemma pay_reads:
  "call_db (get_destination a i) w = (x, v) \<Longrightarrow> db v = db w \<and> ledger v = ledger w \<and> clock v = clock w"
  "call_db (confirmed_entries_for m c) w = (y, v) \<Longrightarrow> db v = db w \<and> ledger v = ledger w \<and> clock v = clock w"
  "call_db (entries_reserved_under tref) w = (y, v) \<Longrightarrow> db v = db w \<and> ledger v = ledger w \<and> clock v = clock w"
  by (auto simp: call_db_def get_destination_def confirmed_entries_for_def entries_reserved_under_def
      split: option.splits if_splits)

definition unmoved :: "'l world \<Rightarrow> 'l world \<Rightarrow> bool" where
  "unmoved w v \<longleftrightarrow> db v = db w \<and> ledger v = ledger w \<and> clock v = clock w"

lemma unmoved_rel [simp, intro!]: "reflp unmoved" "transp unmoved"
  by (auto simp: reflp_def transp_def unmoved_def)

lemma call_db_unmoved: "(\<And>d. snd (st d) = d) \<Longrightarrow> keeps unmoved (call_db st)"
  by (auto simp: keeps_def unmoved_def call_db_def split: prod.splits) (metis snd_conv)

lemma reads_unmoved:
  "keeps unmoved (destination_of a i)" "keeps unmoved (payable q)" "keeps unmoved (confirmed m c)"
  "keeps unmoved (reserved tref)"
proof -
  show d: "keeps unmoved (destination_of a i)" for a i
    unfolding destination_of_def
    by (intro keeps_intros keeps_if call_db_unmoved unmoved_rel) (auto simp: get_destination_def split: option.splits)
  show "keeps unmoved (payable q)"
    unfolding payable_def by (intro keeps_intros keeps_if d unmoved_rel)
  show "keeps unmoved (confirmed m c)" "keeps unmoved (reserved tref)"
    unfolding confirmed_def reserved_def
    by (intro keeps_intros call_db_unmoved unmoved_rel; simp add: confirmed_entries_for_def entries_reserved_under_def)+
qed

lemma entries_from_Inr: "entries_from rows = Inr es \<longleftrightarrow> list_all2 (\<lambda>r e. entry_from r = Inr e) rows es"
proof (induction rows arbitrary: es)
  case (Cons r rows)
  show ?case
    by (cases "entries_from rows") (auto simp: list_all2_Cons1 Cons.IH [symmetric] split: sum.splits)
qed auto

lemma entries_from_mem: "entries_from rows = Inr es \<Longrightarrow> e \<in> set es \<Longrightarrow> \<exists>r\<in>set rows. entry_from r = Inr e"
  unfolding entries_from_Inr by (auto simp: list_all2_conv_all_nth in_set_conv_nth) (metis nth_mem)

definition confirmed_of :: "earn_db \<Rightarrow> uuid \<Rightarrow> currency \<Rightarrow> entry_row list" where
  "confirmed_of d m c = sort_key by_age (filter (\<lambda>r. e_account r = m \<and> e_currency r = c \<and> e_state r = StConfirmed \<and>
         \<not> reversed_in d (e_id r)) (entries d))"

lemma confirmed_Inr:
  assumes "confirmed m c w = (Inr es, u)"
  shows "entries_from (confirmed_of (db w) m c) = Inr es" and "unmoved w u"
  using assms keepsD [OF reads_unmoved(3) assms]
  by (auto simp: confirmed_def effects call_db_Inr confirmed_entries_for_def confirmed_of_def)

lemma confirmed_rows:
  assumes "store_ok d" and "entries_from (confirmed_of d m c) = Inr es" and "e \<in> set es"
  shows "row_of d e \<and> en_member e = m \<and> en_state e = StConfirmed \<and> currency_of (en_amount e) = c"
proof -
  obtain r where r: "r \<in> set (entries d)" "entry_from r = Inr e" "e_account r = m" "e_currency r = c"
      "e_state r = StConfirmed" "\<not> reversed_in d (e_id r)"
    using entries_from_mem [OF assms(2,3)] by (auto simp: confirmed_of_def)
  have "e_reversal_of r = None" using assms(1) r(1,5) by (auto simp: store_ok_def entry_checks_None)
  moreover have "find_entry d (e_id r) = Some r" using find_entry_unique assms(1) r(1) by (simp add: store_ok_def)
  ultimately show ?thesis using r by (auto simp: row_of_def live_def entry_from_Inr)
qed

section \<open>What a request does\<close>

lemma move_together_Inr:
  assumes "move_together M es from to key cause w = (Inr rs, v)" and "store_ok (db w)" and "\<forall>e\<in>set es. row_of (db w) e"
  obtains m0 where "es \<noteq> []" "\<forall>e\<in>set es. en_member e = m0 \<and> en_state e = from \<and> currency_of (en_amount e) = currency_of (rs_amount rs)"
    "sint (minor (rs_amount rs)) = entry_sum es" "0 < entry_sum es" "store_ok (db v)"
    "\<And>e. e \<in> set es \<Longrightarrow> linked (db v) (en_id e) (rs_transfer rs)"
    "\<And>m s c. stage_total (db v) m s c = stage_total (db w) m s c +
       (if m = m0 \<and> c = currency_of (rs_amount rs)
        then (if s = to then entry_sum es else 0) - (if s = from then entry_sum es else 0) else 0)"
  using assms(1)
proof (cases rule: move_together_cases)
  case (posted m0 mv sm ref u)
  note fin = posted(8) [OF refl]
  have u: "db u = db w" using keepsD [OF post_movement_same_db posted(6)] by (simp add: same_db_def)
  have all: "store_ok (db v) \<and> (\<forall>m s c. stage_total (db v) m s c = stage_total (db u) m s c + moved_amount from to es m s c) \<and>
       (\<forall>e\<in>set es. linked (db v) (en_id e) ref)"
    using move_all_Inr [of u es M "from" to ref "rs_entries rs" v] assms(2,3) fin u by simp
  note ts = total_sum [OF posted(3)]
  have pos: "0 < entry_sum es" using posted(4) ts by (simp add: is_positive_def word_sless_iff64)
  have "moved_amount from to es m s c = (if m = m0 \<and> c = currency_of sm
        then (if s = to then entry_sum es else 0) - (if s = from then entry_sum es else 0) else 0)" for m s c
    using posted(2) ts by (intro moved_amount_one_member) auto
  with that [of m0] posted(1,2) ts pos all u fin show thesis by auto
qed auto

lemma reserve_Inr:
  assumes "reserve M es i w = (Inr rs, v)"
  shows "move_together M es StConfirmed StReserved (reservation_key (uuid_str M) i) i w = (Inr rs, v)"
  using assms by (simp add: reserve_def)

section \<open>The entries a transfer moved are found again by it\<close>

definition moved_row :: "entry_state \<Rightarrow> entry_row \<Rightarrow> entry_row" where
  "moved_row to r = r\<lparr>e_state := to, e_hold_rule := None\<rparr>"

lemma record_move_transitions:
  assumes "record_move M en from to ref reason actor w = (Inr t, v)"
  shows "\<exists>row. transitions (db v) = transitions (db w) @ [row] \<and> t_entry row = en \<and> t_ref row = ref \<and> t_to row = to"
proof -
  obtain r d1 d2 k where r: "record_transition (fresh_ids M) (clock w)
          \<lparr>t_id = nil_uuid, t_entry = en, t_from = text_or_null from, t_to = to, t_ref = ref,
           t_reason = text_or_null reason, t_actor = uuid_or_null actor, t_at = zero_time\<rparr> (db w) = (Inr r, d1)"
    and k: "link_transfer \<lparr>l_transition = t_id r, l_entry = en, l_ref = ref\<rparr> d1 = (Inr k, d2)" and v: "db v = d2"
    using assms by (auto simp: record_move_def effects call_db_Inr)
  with record_transition_Inr [OF r] link_transfer_Inr [OF k] show ?thesis by auto
qed

lemma announce_state_changed_transitions:
  "announce_state_changed M t w = (Inr x, v) \<Longrightarrow> transitions (db v) = transitions (db w)"
  by (auto simp: announce_state_changed_def announce_def effects call_db_Inr dest!: append_event_Inr split: if_splits)

definition history_of :: "entry list \<Rightarrow> transfer_ref \<Rightarrow> entry_state \<Rightarrow> transition_row list \<Rightarrow> bool" where
  "history_of es ref to ts \<longleftrightarrow> map t_entry ts = map en_id es \<and> (\<forall>t\<in>set ts. t_ref t = ref \<and> t_to t = to)"

lemma move_one_rows:
  assumes "store_ok (db w)" and "find_entry (db w) (en_id e) = Some row" and "move_one M from to ref e w = (Inr e', v)"
  shows "entries (db v) = update_entry (en_id e) (\<lambda>_. moved_row to row) (entries (db w))"
    and "\<exists>t. transitions (db v) = transitions (db w) @ [t] \<and> t_entry t = en_id e \<and> t_ref t = ref \<and> t_to t = to"
    and "store_ok (db v)"
proof -
  obtain row' d1 u1 t u2 where m: "move_entry (en_id e) from to None (db w) = (Inr row', d1)"
    and u1: "u1 = w\<lparr>db := d1, fuse := burn (fuse w)\<rparr>"
    and rec: "record_move M (en_id e) from to ref [] nil_uuid u1 = (Inr t, u2)"
    and ann: "announce_state_changed M t u2 = (Inr (), v)"
    using assms(3) by (auto simp: move_one_def effects call_db_Inr)
  have d1: "entries d1 = update_entry (en_id e) (\<lambda>_. moved_row to row) (entries (db w))" "transitions d1 = transitions (db w)"
    by (rule move_entry_Inr [OF m], use assms(2) in \<open>auto simp: moved_row_def\<close>)+
  have ent: "entries (db v) = entries d1" using record_move_Inr(1) [OF rec] announce_Inr(2) [OF ann] u1 by simp
  show "entries (db v) = update_entry (en_id e) (\<lambda>_. moved_row to row) (entries (db w))" using ent d1 by simp
  show "\<exists>t. transitions (db v) = transitions (db w) @ [t] \<and> t_entry t = en_id e \<and> t_ref t = ref \<and> t_to t = to"
    using record_move_transitions [OF rec] announce_state_changed_transitions [OF ann] u1 d1(2) by auto
  show "store_ok (db v)" using store_ok_move [OF assms(1) m] store_ok_cong [OF ent] by simp
qed

lemma update_entry_unique:
  assumes "distinct (map e_id rows)" and "r \<in> set rows" and "e_id r = i"
  shows "update_entry i (\<lambda>_. f r) rows = update_entry i f rows"
  using assms unfolding update_entry_def by (intro map_cong) (auto simp: distinct_map dest: inj_onD)

lemma move_all_rows:
  assumes "store_ok (db w)" and "\<forall>e\<in>set es. find_entry (db w) (en_id e) \<noteq> None" and "distinct (map en_id es)"
    and "for_each (move_one M from to ref) es w = (Inr out, v)"
  shows "entries (db v) = map (\<lambda>r. if e_id r \<in> en_id ` set es then moved_row to r else r) (entries (db w)) \<and>
     (\<exists>ts. transitions (db v) = transitions (db w) @ ts \<and> history_of es ref to ts)"
  using assms
proof (induction es arbitrary: w out)
  case Nil
  then show ?case by (auto simp: effects history_of_def)
next
  case (Cons e es)
  obtain o1 u os where one: "move_one M from to ref e w = (Inr o1, u)" and rest: "for_each (move_one M from to ref) es u = (Inr os, v)"
    using Cons.prems(4) by (auto simp: effects)
  obtain row where row: "find_entry (db w) (en_id e) = Some row" using Cons.prems(2) by auto
  note s = move_one_rows [OF Cons.prems(1) row one]
  have r: "row \<in> set (entries (db w))" "e_id row = en_id e" using find_entry_Some [OF row] by auto
  have d: "distinct (map e_id (entries (db w)))" using Cons.prems(1) by (simp add: store_ok_def)
  have u: "entries (db u) = map (\<lambda>r. if e_id r = en_id e then moved_row to r else r) (entries (db w))"
    using s(1) update_entry_unique [OF d r, of "moved_row to"] by (simp add: update_entry_def)
  have "map e_id (entries (db u)) = map e_id (entries (db w))" by (auto simp: u moved_row_def)
  then have ids: "e_id ` set (entries (db u)) = e_id ` set (entries (db w))" by (metis set_map)
  have "find_entry (db z) i \<noteq> None \<longleftrightarrow> i \<in> e_id ` set (entries (db z))" for z :: "'a world" and i
    by (auto simp: find_entry_def find_None_iff image_iff)
  then have "\<forall>x\<in>set es. find_entry (db u) (en_id x) \<noteq> None" using Cons.prems(2) ids by auto
  from Cons.IH [OF s(3) this _ rest] Cons.prems(3) obtain ts where
    ih: "entries (db v) = map (\<lambda>r. if e_id r \<in> en_id ` set es then moved_row to r else r) (entries (db u))"
      "transitions (db v) = transitions (db u) @ ts" "history_of es ref to ts" by auto
  obtain t where t: "transitions (db u) = transitions (db w) @ [t]" "t_entry t = en_id e" "t_ref t = ref" "t_to t = to"
    using s(2) by blast
  have "history_of (e # es) ref to (t # ts)" using ih(3) t by (auto simp: history_of_def)
  moreover have "entries (db v) = map (\<lambda>r. if e_id r \<in> en_id ` set (e # es) then moved_row to r else r) (entries (db w))"
    using Cons.prems(3) by (auto simp: ih(1) u moved_row_def)
  ultimately show ?case using ih(2) t(1) by auto
qed

definition moved_to :: "entry_state \<Rightarrow> entry \<Rightarrow> entry" where
  "moved_to to e = e\<lparr>en_state := to, en_hold_rule := []\<rparr>"

lemma sorted_same:
  assumes "sorted (map f xs)" and "sorted (map f ys)" and "distinct (map f xs)" and "distinct (map f ys)" and "set xs = set ys"
  shows "xs = ys"
proof -
  have "map f xs = map f ys" using assms by (intro sorted_distinct_set_unique) auto
  moreover have "inj_on f (set xs \<union> set ys)" using assms(3,5) by (simp add: distinct_map)
  ultimately show ?thesis by (rule map_inj_on)
qed

lemma by_age_inj: "distinct (map e_id rows) \<Longrightarrow> distinct (map by_age rows)"
  by (induction rows) (auto simp: by_age_def)

lemma entry_from_moved: "entry_from r = Inr e \<Longrightarrow> entry_from (moved_row to r) = Inr (moved_to to e)"
  by (auto simp: entry_from_Inr moved_row_def moved_to_def or_empty_def)

lemma distinct_sorted: "distinct (map f (sort_key g xs)) = distinct (map f xs)"
  by (simp add: distinct_map)

lemma one_each:
  assumes "map t_entry ts = ids" and "distinct ids" and "\<forall>t\<in>set ts. t_ref t = ref \<and> t_to t = to"
  shows "length (filter (\<lambda>t. t_entry t = i \<and> t_ref t = ref \<and> t_to t = to) ts) = (if i \<in> set ids then 1 else 0)"
  using assms by (induction ts arbitrary: ids) (auto simp: filter_empty_conv)

lemma concat_one_each: "concat (map (\<lambda>r. if P r then [r] else []) rs) = filter P rs"
  by (induction rs) auto

lemma map_const_length: "map (\<lambda>_. r) xs = replicate (length xs) r"
  by (induction xs) auto

text \<open>The rows a transfer reserved, once its move has gone through: those it moved, in the order of age.\<close>

lemma reserved_after_move:
  assumes "entries d = map (\<lambda>r. if e_id r \<in> en_id ` set es then moved_row StReserved r else r) (entries d0)"
    and "transitions d = transitions d0 @ ts" and "history_of es ref StReserved ts" and "distinct (map en_id es)"
    and "\<forall>t\<in>set (transitions d0). t_ref t \<noteq> ref"
  shows "fst (entries_reserved_under ref d) =
     Inr (sort_key by_age (filter (\<lambda>r. e_id r \<in> en_id ` set es) (entries d)))"
proof -
  have none: "filter (\<lambda>t. t_entry t = i \<and> t_ref t = ref \<and> t_to t = StReserved) (transitions d0) = []" for i
    using assms(5) by (auto simp: filter_empty_conv)
  have "map (\<lambda>_. r) (filter (\<lambda>t. t_entry t = e_id r \<and> t_ref t = ref \<and> t_to t = StReserved) (transitions d)) =
      (if e_id r \<in> en_id ` set es then [r] else [])" for r :: entry_row
    using one_each [of ts "map en_id es" ref StReserved "e_id r"] assms(3,4)
    by (auto simp: assms(2) none map_const_length history_of_def)
  then show ?thesis unfolding entries_reserved_under_def by (simp only: concat_one_each fst_conv)
qed

lemma entries_from_map: "entries_from rows = Inr es \<Longrightarrow>
   entries_from (map (moved_row to) rows) = Inr (map (moved_to to) es)"
  unfolding entries_from_Inr by (auto simp: list_all2_conv_all_nth entry_from_moved)

lemma entries_from_append:
  "entries_from rows = Inr (es @ fs) \<Longrightarrow> entries_from (take (length es) rows) = Inr es"
  unfolding entries_from_Inr by (auto simp: list_all2_conv_all_nth nth_append dest: list_all2_lengthD)

lemma entries_from_ids: "entries_from rows = Inr es \<Longrightarrow> map en_id es = map e_id rows"
  unfolding entries_from_Inr by (auto simp: list_all2_conv_all_nth entry_from_Inr intro!: nth_equalityI)

lemma confirmed_distinct:
  assumes "store_ok d0" and "entries_from (confirmed_of d0 m c) = Inr (es @ rest)"
  shows "distinct (map en_id es)"
proof -
  have "map en_id es = map e_id (take (length es) (confirmed_of d0 m c))"
    using entries_from_ids [OF entries_from_append [OF assms(2)]] by simp
  moreover have "distinct (map e_id (confirmed_of d0 m c))"
    using assms(1) by (simp add: store_ok_def confirmed_of_def distinct_sorted distinct_map_filter)
  ultimately show ?thesis by (metis distinct_take take_map)
qed

lemma moved_prefix_sorted:
  assumes "store_ok d0" and "entries_from (confirmed_of d0 m c) = Inr (es @ rest)"
    and d: "entries d = map (\<lambda>r. if e_id r \<in> en_id ` set es then moved_row to r else r) (entries d0)"
  shows "sort_key by_age (filter (\<lambda>r. e_id r \<in> en_id ` set es) (entries d)) =
     map (moved_row to) (take (length es) (confirmed_of d0 m c))" and "distinct (map en_id es)"
proof -
  let ?rows = "confirmed_of d0 m c"
  let ?top = "take (length es) ?rows"
  have ids: "map en_id es = map e_id ?top" using entries_from_ids [OF entries_from_append [OF assms(2)]] by simp
  then have idset: "en_id ` set es = e_id ` set ?top" by (metis set_map)
  have dist0: "distinct (map e_id (entries d0))" using assms(1) by (simp add: store_ok_def)
  then have rows: "distinct (map e_id ?rows)" "set ?rows \<subseteq> set (entries d0)"
    by (auto simp: confirmed_of_def distinct_sorted distinct_map_filter)
  then show "distinct (map en_id es)" unfolding ids by (metis distinct_take take_map)
  have inj: "r = x" if "r \<in> set (entries d0)" "x \<in> set ?top" "e_id r = e_id x" for r x
    using that rows(2) dist0 set_take_subset [of "length es" ?rows] by (auto simp: distinct_map dest: inj_onD)
  have key: "by_age (moved_row to r) = by_age r" "e_id (moved_row to r) = e_id r" for r
    by (simp_all add: by_age_def moved_row_def)
  let ?l = "sort_key by_age (filter (\<lambda>r. e_id r \<in> en_id ` set es) (entries d))"
  have l_ids: "distinct (map e_id (entries d))"
    using dist0 by (simp add: d comp_def key if_distrib [of e_id] cong: if_cong)
  show "?l = map (moved_row to) ?top"
  proof (rule sorted_same [of by_age])
    show "sorted (map by_age ?l)" by simp
    show "sorted (map by_age (map (moved_row to) ?top))"
      by (simp add: comp_def key confirmed_of_def take_map [symmetric] sorted_wrt_take)
    show "distinct (map by_age ?l)"
      by (rule by_age_inj) (simp add: l_ids distinct_sorted distinct_map_filter)
    show "distinct (map by_age (map (moved_row to) ?top))"
      using rows(1) by (intro by_age_inj) (simp add: comp_def key take_map [symmetric])
    show "set ?l = set (map (moved_row to) ?top)"
    proof (intro set_eqI iffI)
      fix x
      assume "x \<in> set ?l"
      then obtain r where r: "r \<in> set (entries d0)" "e_id x \<in> en_id ` set es" "x = (if e_id r \<in> en_id ` set es then moved_row to r else r)"
        by (auto simp: d)
      then have "x = moved_row to r" "e_id r \<in> e_id ` set ?top" using idset key by (auto split: if_splits)
      then show "x \<in> set (map (moved_row to) ?top)" using inj [OF r(1)] by auto
    next
      fix x
      assume "x \<in> set (map (moved_row to) ?top)"
      then obtain r where r: "r \<in> set ?top" "x = moved_row to r" by auto
      then have "r \<in> set (entries d0)" "e_id r \<in> en_id ` set es"
        using rows(2) idset set_take_subset [of "length es" ?rows] by auto
      then show "x \<in> set ?l" using r(2) key by (auto simp: d)
    qed
  qed
qed

lemma covering_Inr:
  assumes "covering es want = Inr (taken, sm)"
  obtains rest where "es = taken @ rest" "taken \<noteq> []" "sint (minor want) \<le> entry_sum taken" "entry_sum (butlast taken) < sint (minor want)"
proof -
  define z where "z = \<lparr>minor = 0 :: i64, currency_of = currency_of want\<rparr>"
  have v: "is_positive want" "cover_from want z [] es = Inr (taken, sm)"
    using assms by (auto simp: covering_def validate_amount_def new_amount_def z_def split: if_splits option.splits)
  then obtain before e rest where b: "es = before @ e # rest" "taken = before @ [e]"
      "sint (minor want) \<le> entry_sum taken"
      "\<forall>n<length (before @ [e]). entry_sum (take n (before @ [e])) < sint (minor want)"
    using cover_from_Inr [OF v(2)] by (auto simp: z_def is_positive_def word_sless_iff64)
  have "entry_sum (butlast taken) < sint (minor want)" using b(4) [rule_format, of "length before"] b(2) by simp
  with that [of rest] b show thesis by simp
qed

lemma announce_pay_Inr:
  "announce_pay M ev w = (Inr x, v) \<Longrightarrow> db v = (db w)\<lparr>outbox := outbox (db w) @ [ev]\<rparr> \<and> ledger v = ledger w"
  by (auto simp: announce_pay_def effects call_db_Inr dest!: append_event_Inr)

lemma announce_requested_Inr:
  "announce_requested M made w = (Inr x, v) \<Longrightarrow> db v = (db w)\<lparr>outbox := outbox (db w) @
     [WithdrawalRequested (wd_id made) (wd_member made) (wd_amount made) (wd_requested made)]\<rparr> \<and> ledger v = ledger w"
  by (auto simp: announce_requested_def effects dest: announce_pay_Inr split: if_splits)

definition paid_out_to :: "earn_db \<Rightarrow> uuid \<Rightarrow> uuid \<Rightarrow> bool" where
  "paid_out_to d account i \<longleftrightarrow> (\<exists>r. find_destination d account i = Some r \<and> verified (destination_from r))"

lemma payable_Inr:
  assumes "payable q w = (Inr x, u)"
  shows "paid_out_to (db w) (ask_member q) (ask_destination q) \<and> unmoved w u"
  using assms keepsD [OF reads_unmoved(2) assms]
  by (auto simp: payable_def destination_of_def effects call_db_Inr get_destination_def paid_out_to_def
      split: if_splits option.splits)

lemma cover_error_Inr: "cover_error r = Inr x \<longleftrightarrow> r = Inr x"
  by (auto simp: cover_error_def split: sum.splits)

text \<open>A request taken apart: what was read, what was moved, what was written.\<close>

lemma request_withdrawal_Inr:
  fixes w :: "'l world"
  assumes "request_withdrawal M threshold i q w = (Inr made, v)"
  obtains taken rest rs u u1 row d1 where
    "acceptable (receivable M) threshold q = None" "paid_out_to (db w) (ask_member q) (ask_destination q)"
    "entries_from (confirmed_of (db w) (ask_member q) (currency_of (ask_amount q))) = Inr (taken @ rest)"
    "reaches_the_threshold threshold (taken @ rest) = Inr ()"
    "sint (minor (ask_amount q)) \<le> entry_sum taken" "entry_sum (butlast taken) < sint (minor (ask_amount q))"
    "db u = db w" "reserve M taken i u = (Inr rs, u1)"
    "create_withdrawal (clock u1) (request_row i q rs) (db u1) = (Inr row, d1)" "withdrawal_from row = Inr made"
    "db v = d1\<lparr>outbox := outbox d1 @ [WithdrawalRequested (wd_id made) (wd_member made) (wd_amount made) (wd_requested made)],
       moved := []\<rparr>"
proof -
  have ok: "acceptable (receivable M) threshold q = None"
    using assms by (auto simp: request_withdrawal_def effects split: option.splits)
  then obtain z where body: "choose_and_take M threshold i q w = (Inr made, z)" and v: "db v = (db z)\<lparr>moved := []\<rparr>"
    using assms by (auto simp: request_withdrawal_def elim: in_tx_Inr)
  obtain w1 es w2 taken sm where p: "payable q w = (Inr (), w1)"
    and c: "confirmed (ask_member q) (currency_of (ask_amount q)) w1 = (Inr es, w2)"
    and t: "reaches_the_threshold threshold es = Inr ()" and cv: "covering es (ask_amount q) = Inr (taken, sm)"
    and tk: "take_and_record M i q taken w2 = (Inr made, z)"
    using body unfolding choose_and_take_def and_then_Inr wrap_error_Inr from_sum_eq cover_error_Inr
    by (auto simp: split_beta)
  obtain rs u1 row d1 u2 u3 where rs: "reserve M taken i w2 = (Inr rs, u1)"
    and cr: "create_withdrawal (clock u1) (request_row i q rs) (db u1) = (Inr row, d1)" "db u2 = d1"
    and made: "withdrawal_from row = Inr made" and an: "announce_requested M made u2 = (Inr (), z)"
    using tk unfolding take_and_record_def and_then_Inr wrap_error_Inr from_sum_eq call_db_Inr give_eq by force
  obtain rest where rest: "es = taken @ rest" "sint (minor (ask_amount q)) \<le> entry_sum taken"
    "entry_sum (butlast taken) < sint (minor (ask_amount q))" using covering_Inr [OF cv] by metis
  have w: "db w1 = db w" "db w2 = db w" using payable_Inr [OF p] confirmed_Inr(2) [OF c] by (auto simp: unmoved_def)
  show thesis
    by (rule that [OF ok _ _ _ rest(2,3) w(2) rs cr(1) made])
      (use payable_Inr [OF p] confirmed_Inr(1) [OF c] t rest w v cr(2) announce_requested_Inr [OF an] in auto)
qed

lemma reaches_the_threshold_Inr:
  "reaches_the_threshold threshold es = Inr () \<Longrightarrow> sint (minor threshold) \<le> entry_sum es"
  by (auto simp: reaches_the_threshold_def word_sle_iff64 dest: total_sum split: sum.splits if_splits)

section \<open>What moving entries leaves alone\<close>

definition same_pay :: "'l world \<Rightarrow> 'l world \<Rightarrow> bool" where
  "same_pay w v \<longleftrightarrow> withdrawals (db v) = withdrawals (db w) \<and> payouts (db v) = payouts (db w) \<and>
     destinations (db v) = destinations (db w)"

lemma same_pay_rel [simp, intro!]: "reflp same_pay" "transp same_pay"
  by (auto simp: reflp_def transp_def same_pay_def)

lemma same_db_same_pay: "keeps same_db m \<Longrightarrow> keeps same_pay m"
  by (auto simp: keeps_def same_db_def same_pay_def)

lemma unmoved_same_pay: "keeps unmoved m \<Longrightarrow> keeps same_pay m"
  by (auto simp: keeps_def unmoved_def same_pay_def)

lemma call_db_same_pay:
  assumes "\<And>d. withdrawals (snd (st d)) = withdrawals d" "\<And>d. payouts (snd (st d)) = payouts d"
    "\<And>d. destinations (snd (st d)) = destinations d"
  shows "keeps same_pay (call_db st)"
proof (unfold keeps_def, rule allI)
  fix w :: "'l world"
  have "db (snd (call_db st w)) = (if ctx_done w then db w else snd (st (db w)))"
    by (simp add: call_db_def split: prod.split)
  then show "same_pay w (snd (call_db st w))" by (simp add: same_pay_def assms)
qed

lemma statements_same_pay:
  "keeps same_pay (call_db (move_entry i from to rule))" "keeps same_pay (call_db (record_transition fresh now t))"
  "keeps same_pay (call_db (link_transfer k))" "keeps same_pay (call_db (append_event ustr ev))"
  "keeps same_pay (call_db commit_tx)" "keeps same_pay (call_db (create_entry fresh now arg))"
  by (rule call_db_same_pay, auto simp: move_entry_def record_transition_def link_transfer_def append_event_def commit_tx_def
      create_entry_def Let_def split: option.splits list.splits)+

lemma record_move_same_pay: "keeps same_pay (record_move M en from to ref reason actor)"
proof (unfold keeps_def, rule allI)
  fix w
  show "same_pay w (snd (record_move M en from to ref reason actor w))"
    unfolding record_move_def by (rule keeps_snd) (intro keeps_intros statements_same_pay same_pay_rel)
qed

lemma announcements_same_pay:
  "keeps same_pay (announce_state_changed M t)" "keeps same_pay (announce_pay M ev)"
  unfolding announce_state_changed_def announce_def announce_pay_def
  by (intro keeps_if keeps_intros statements_same_pay same_pay_rel)+

lemma move_one_same_pay: "keeps same_pay (move_one M from to ref e)"
  unfolding move_one_def
  by (intro keeps_intros statements_same_pay record_move_same_pay announcements_same_pay same_pay_rel)

lemma move_together_same_pay: "keeps same_pay (move_together M es from to key cause)"
proof (cases "cause = nil_uuid \<or> es = [] \<or> set_fault (en_member (hd es)) from to es \<noteq> None")
  case True
  have "snd (move_together M es from to key cause w) = w" for w
  proof (cases "cause = nil_uuid")
    case False
    with True show ?thesis by (cases es) (auto simp: move_together_def refuse_def simp del: set_fault.simps)
  qed (simp add: move_together_def refuse_def)
  then show ?thesis by (simp add: keeps_def same_pay_def)
next
  case False
  then obtain e0 rest where es: "es = e0 # rest" and sf: "set_fault (en_member e0) from to es = None" and c: "cause \<noteq> nil_uuid"
    by (cases es) auto
  have run: "move_together M es from to key cause =
     and_then (from_sum (total es (currency_of (en_amount e0)))) (\<lambda>sm.
     if \<not> is_positive sm then refuse ErrNothingToReserve
     else
     and_then (from_sum (postings_for (en_member e0) from to (receivable M))) (\<lambda>mv.
     and_then (post_movement M mv sm key) (\<lambda>ref.
     and_then (for_each (move_one M from to ref) es) (\<lambda>moved.
     give \<lparr>rs_transfer = ref, rs_entries = moved, rs_amount = sm\<rparr>))))"
    using sf c unfolding move_together_def es by simp
  show ?thesis unfolding run
    by (intro keeps_if keeps_intros same_db_same_pay [OF post_movement_same_db] move_one_same_pay same_pay_rel)
qed

lemma find_map_eq: "find P (map g xs) = map_option g (find (P \<circ> g) xs)"
  by (induction xs) auto

lemma find_entry_map:
  "find_entry d i = map_option g (find_entry d0 i)" if "entries d = map g (entries d0)" "\<And>r. e_id (g r) = e_id r"
  using that by (simp add: find_entry_def find_map_eq comp_def)

lemma row_of_moved:
  assumes "entries d = map (\<lambda>r. if e_id r \<in> X then moved_row to r else r) (entries d0)" and "row_of d0 e"
  shows "row_of d e"
proof -
  define g where "g r = (if e_id r \<in> X then moved_row to r else r)" for r
  have g: "e_id (g r) = e_id r" "e_reversal_of (g r) = e_reversal_of r" "e_account (g r) = e_account r"
    "e_minor (g r) = e_minor r" "e_currency (g r) = e_currency r" for r
    by (simp_all add: g_def moved_row_def)
  have ent: "entries d = map g (entries d0)" using assms(1) by (simp add: g_def)
  have rev: "reversed_in d i = reversed_in d0 i" for i by (simp add: reversed_in_def ent list_ex_iff g)
  obtain row where row: "find_entry d0 (en_id e) = Some row" "live d0 row" "e_account row = en_member e"
     "e_minor row = minor (en_amount e)" "e_currency row = currency_of (en_amount e)"
    using assms(2) by (auto simp: row_of_def)
  then have "find_entry d (en_id e) = Some (g row)" using find_entry_map [OF ent g(1)] by simp
  then show ?thesis using row by (simp add: row_of_def live_def g rev)
qed

lemma row_of_state: "row_of d (moved_to s e) = row_of d e"
  by (simp add: row_of_def moved_to_def)

text \<open>What a reservation moved, read back by its transfer later on.\<close>

lemma reservation_found:
  assumes "reserve M taken i u = (Inr rs, u1)" and "store_ok (db u)"
    and es: "entries_from (confirmed_of (db u) m c) = Inr (taken @ rest)"
    and fresh: "\<forall>t\<in>set (transitions (db u)). t_ref t \<noteq> rs_transfer rs"
    and later: "entries d = entries (db u1)" "transitions d = transitions (db u1)"
  shows "\<exists>rows. fst (entries_reserved_under (rs_transfer rs) d) = Inr rows \<and> entries_from rows = Inr (map (moved_to StReserved) taken)"
    and "\<forall>e\<in>set taken. row_of d e"
proof -
  have mt: "move_together M taken StConfirmed StReserved (reservation_key (uuid_str M) i) i u = (Inr rs, u1)"
    using assms(1) by (simp add: reserve_def)
  have rows: "\<forall>e\<in>set taken. row_of (db u) e" using confirmed_rows [OF assms(2) es] by simp
  from mt have mv: "entries (db u1) = map (\<lambda>r. if e_id r \<in> en_id ` set taken then moved_row StReserved r else r) (entries (db u)) \<and>
     (\<exists>ts. transitions (db u1) = transitions (db u) @ ts \<and> history_of taken (rs_transfer rs) StReserved ts)"
  proof (cases rule: move_together_cases)
    case (posted m0 mv sm ref z)
    have z: "db z = db u" using keepsD [OF post_movement_same_db posted(6)] by (simp add: same_db_def)
    have "\<forall>e\<in>set taken. find_entry (db z) (en_id e) \<noteq> None" using rows z by (auto simp: row_of_def)
    then show ?thesis using move_all_rows [of z taken M StConfirmed StReserved ref "rs_entries rs" u1] posted(8) [OF refl]
        confirmed_distinct [OF assms(2) es] assms(2) z by simp
  qed auto
  then obtain ts where ts: "transitions d = transitions (db u) @ ts" "history_of taken (rs_transfer rs) StReserved ts"
    and ent: "entries d = map (\<lambda>r. if e_id r \<in> en_id ` set taken then moved_row StReserved r else r) (entries (db u))"
    using later by auto
  note sorted = moved_prefix_sorted [OF assms(2) es ent]
  show "\<exists>rows. fst (entries_reserved_under (rs_transfer rs) d) = Inr rows \<and> entries_from rows = Inr (map (moved_to StReserved) taken)"
    using reserved_after_move [OF ent ts sorted(2) fresh] sorted(1) entries_from_map [OF entries_from_append [OF es]] by simp
  show "\<forall>e\<in>set taken. row_of d e" using row_of_moved [OF ent] rows by blast
qed

section \<open>What a request promises\<close>

lemma withdrawal_from_Inr:
  "withdrawal_from r = Inr x \<longleftrightarrow> currency_valid (wr_currency r) \<and>
     x = \<lparr>wd_id = wr_id r, wd_member = wr_account r, wd_destination = wr_destination r,
       wd_amount = \<lparr>minor = wr_minor r, currency_of = wr_currency r\<rparr>, wd_state = wr_state r, wd_requested = wr_requested r,
       wd_ref = wr_ref r, wd_by = or_nil (wr_decided_by r), wd_at = or_zero (wr_decided_at r), wd_reason = or_empty (wr_reason r)\<rparr>"
  by (auto simp: withdrawal_from_def new_amount_def)

text \<open>(C6) A request that goes through reserved what it records. The member had confirmed at least the
  threshold; the entries taken are the oldest that reach what was asked, and no fewer would have; the
  amount on the request is their exact sum, which has left the member's confirmed total for the reserved
  one while no other total moved; and the one new row names the transfer that moved them and a
  destination that is the member's own and verified.\<close>

theorem a_request_reserves_what_it_records:
  assumes "request_withdrawal M threshold i q w = (Inr made, v)" and "store_ok (db w)"
  shows "\<exists>taken rest row.
    entries_from (confirmed_of (db w) (ask_member q) (currency_of (ask_amount q))) = Inr (taken @ rest) \<and>
    sint (minor threshold) \<le> entry_sum (taken @ rest) \<and>
    sint (minor (ask_amount q)) \<le> entry_sum taken \<and> entry_sum (butlast taken) < sint (minor (ask_amount q)) \<and>
    sint (minor (wd_amount made)) = entry_sum taken \<and>
    (\<forall>m s c. stage_total (db v) m s c = stage_total (db w) m s c +
       (if m = ask_member q \<and> c = currency_of (ask_amount q)
        then (if s = StReserved then entry_sum taken else 0) - (if s = StConfirmed then entry_sum taken else 0) else 0)) \<and>
    (\<forall>e\<in>set taken. linked (db v) (en_id e) (wd_ref made)) \<and>
    withdrawals (db v) = withdrawals (db w) @ [row] \<and> withdrawal_from row = Inr made \<and>
    wr_id row = i \<and> wr_account row = ask_member q \<and> wr_destination row = ask_destination q \<and>
    wr_state row = StateAwaitingApproval \<and> (\<forall>x\<in>set (withdrawals (db w)). wr_ref x \<noteq> wr_ref row) \<and>
    paid_out_to (db w) (ask_member q) (ask_destination q)"
  using assms(1)
proof (rule request_withdrawal_Inr)
  fix taken rest rs u u1 row d1
  assume acc: "acceptable (receivable M) threshold q = None" and dest: "paid_out_to (db w) (ask_member q) (ask_destination q)"
    and es: "entries_from (confirmed_of (db w) (ask_member q) (currency_of (ask_amount q))) = Inr (taken @ rest)"
    and thr: "reaches_the_threshold threshold (taken @ rest) = Inr ()"
    and cover: "sint (minor (ask_amount q)) \<le> entry_sum taken" "entry_sum (butlast taken) < sint (minor (ask_amount q))"
    and u: "db u = db w" and rs: "reserve M taken i u = (Inr rs, u1)"
    and cr: "create_withdrawal (clock u1) (request_row i q rs) (db u1) = (Inr row, d1)"
    and made: "withdrawal_from row = Inr made"
    and v: "db v = d1\<lparr>outbox := outbox d1 @ [WithdrawalRequested (wd_id made) (wd_member made) (wd_amount made) (wd_requested made)],
       moved := []\<rparr>"
  note c = create_withdrawal_Inr [OF cr]
  have mt: "move_together M taken StConfirmed StReserved (reservation_key (uuid_str M) i) i u = (Inr rs, u1)"
    using rs by (simp add: reserve_def)
  have rows: "\<forall>e\<in>set taken. row_of (db u) e" using confirmed_rows [OF assms(2) es] u by simp
  have ok: "store_ok (db u)" using assms(2) u by simp
  obtain m0 where m0: "taken \<noteq> []" "\<forall>e\<in>set taken. en_member e = m0 \<and> en_state e = StConfirmed \<and>
        currency_of (en_amount e) = currency_of (rs_amount rs)"
    and sum: "sint (minor (rs_amount rs)) = entry_sum taken"
    and lnk: "\<And>e. e \<in> set taken \<Longrightarrow> linked (db u1) (en_id e) (rs_transfer rs)"
    and tot: "\<And>m s c. stage_total (db u1) m s c = stage_total (db u) m s c +
       (if m = m0 \<and> c = currency_of (rs_amount rs)
        then (if s = StReserved then entry_sum taken else 0) - (if s = StConfirmed then entry_sum taken else 0) else 0)"
    by (rule move_together_Inr [OF mt ok rows]) (rule that; assumption)
  have who: "m0 = ask_member q" "currency_of (rs_amount rs) = currency_of (ask_amount q)"
    using m0 confirmed_rows [OF assms(2) es, of "hd taken"] hd_in_set [OF m0(1)] by auto
  have same: "withdrawals (db u1) = withdrawals (db w)"
    using keepsD [OF move_together_same_pay mt] u by (simp add: same_pay_def)
  have ent: "entries (db v) = entries (db u1)" "links (db v) = links (db u1)" by (simp_all add: v c(2))
  have w: "withdrawals (db v) = withdrawals (db w) @ [row]" using same by (simp add: v c(2))
  have row: "wr_id row = i" "wr_account row = ask_member q" "wr_destination row = ask_destination q"
    "wr_state row = StateAwaitingApproval" "wr_ref row = rs_transfer rs"
    using c(1) by (simp_all add: request_row_def)
  have amt: "sint (minor (wd_amount made)) = entry_sum taken" "wd_ref made = rs_transfer rs"
    using made c(1) sum by (auto simp: withdrawal_from_Inr request_row_def)
  have "\<forall>e\<in>set taken. linked (db v) (en_id e) (wd_ref made)" using lnk ent(2) amt(2) by (simp add: linked_def)
  moreover have "\<forall>m s c. stage_total (db v) m s c = stage_total (db w) m s c +
       (if m = ask_member q \<and> c = currency_of (ask_amount q)
        then (if s = StReserved then entry_sum taken else 0) - (if s = StConfirmed then entry_sum taken else 0) else 0)"
    using tot unfolding u who stage_total_cong [OF ent(1)] by blast
  moreover have "\<forall>x\<in>set (withdrawals (db w)). wr_ref x \<noteq> wr_ref row" using c(4) same by simp
  ultimately show ?thesis
    using es reaches_the_threshold_Inr [OF thr] cover amt(1) w made row(1-4) dest by blast
qed

section \<open>A member with a confirmed credit\<close>

definition earned_row :: entry_row where
  "earned_row = \<lparr>e_id = 50, e_account = 7, e_brand = ''b'', e_report = 5, e_click = None, e_state = StConfirmed, e_minor = 250,
     e_currency = ''EUR'', e_hold_rule = None, e_reversal_of = None, e_created = 3\<rparr>"

definition earned_books :: earn_db where
  "earned_books = \<lparr>entries = [earned_row], transitions = [], links = [], outbox = [], queue = [], reports = [], clicks = [],
     participation = [(7, ''EUR'')], members = [(7, 1), (9, 1)], brands = [], moved = [],
     destinations = [\<lparr>ds_id = 3, ds_account = 7, ds_kind = KindStub, ds_ref = ''vault/3'', ds_verified = Some 2,
       ds_method = Some ''micro'', ds_created = 1\<rparr>],
     withdrawals = [], payouts = [], operators = [9], minted = 0\<rparr>"

text \<open>A machine over a ledger that takes every transfer.\<close>

definition easy_machine :: "unit machine" where
  "easy_machine = \<lparr>ensure_op = \<lambda>_ _ _ l. (Inr ''a'', l), post_op = \<lambda>_ _ t l. (Inr (idempotency_key t), l),
     uuid_str = (\<lambda>i. ''u''), fresh_ids = (\<lambda>n. of_nat n + 100), receivable = ''r''\<rparr>"

definition easy_world :: "unit world" where
  "easy_world = \<lparr>ledger = (), db = earned_books, fuse = None, clock = 9\<rparr>"

definition sample_ask :: ask where
  "sample_ask = \<lparr>ask_member = 7, ask_destination = 3, ask_amount = \<lparr>minor = 100, currency_of = ''EUR''\<rparr>\<rparr>"

definition sample_threshold :: amount where
  "sample_threshold = \<lparr>minor = 200, currency_of = ''EUR''\<rparr>"

definition easily_asked :: "(pay_error + withdrawal) \<times> unit world" where
  "easily_asked = request_withdrawal easy_machine sample_threshold 900 sample_ask easy_world"

lemma easily_asked_evaluated:
  "(case easily_asked of
      (y, v) \<Rightarrow> (case y of Inl _ \<Rightarrow> False | Inr made \<Rightarrow> wd_amount made = \<lparr>minor = 250, currency_of = ''EUR''\<rparr>) \<and>
        map e_state (entries (db v)) = [StReserved])"
  by code_simp

lemma easy_world_ok: "store_ok (db easy_world)"
proof -
  have "entry_checks earned_row = None" "e_reversal_of earned_row = None" by code_simp+
  then show ?thesis by (simp add: store_ok_def easy_world_def earned_books_def)
qed

theorem a_request_reserves_what_it_records_witness:
  "\<exists>made w taken. easily_asked = (Inr made, w) \<and> sint (minor (wd_amount made)) = entry_sum taken \<and>
     entry_sum (butlast taken) < 100 \<and> (\<forall>e\<in>set taken. linked (db w) (en_id e) (wd_ref made))"
proof -
  obtain made w where a: "easily_asked = (Inr made, w)"
    using easily_asked_evaluated by (auto split: prod.splits sum.splits)
  have "sint (minor (ask_amount sample_ask)) = 100" by code_simp
  with a_request_reserves_what_it_records [OF a [unfolded easily_asked_def] easy_world_ok] a show ?thesis by metis
qed

text \<open>The same member in the in-process ledger: the confirmed account holds what the entry says.\<close>

definition payer :: "mem_ledger machine" where
  "payer = mem_machine rfc4122 (\<lambda>n. of_nat n + 100) ''r''"

definition fund :: "mem_ledger world \<Rightarrow> (earn_error + transfer_ref) \<times> mem_ledger world" where
  "fund = post_movement payer \<lparr>mv_from = house_account ''r'', mv_to = member_account 7 StageConfirmed\<rparr>
     \<lparr>minor = 250, currency_of = ''EUR''\<rparr> ''k''"

definition funded_world :: "mem_ledger world" where
  "funded_world = snd (fund \<lparr>ledger = new_ledger, db = earned_books, fuse = None, clock = 9\<rparr>)"

definition asked :: "nat option \<Rightarrow> uuid \<Rightarrow> mem_ledger world \<Rightarrow> (pay_error + withdrawal) \<times> mem_ledger world" where
  "asked n i w = request_withdrawal payer sample_threshold i sample_ask (w\<lparr>fuse := n\<rparr>)"

definition member_purse :: "mem_ledger world \<Rightarrow> stage \<Rightarrow> int" where
  "member_purse w g = held (ledger w) (account_id rfc4122 (member_account 7 g) ''EUR'')"

lemma asking_evaluated:
  "(case fund \<lparr>ledger = new_ledger, db = earned_books, fuse = None, clock = 9\<rparr> of (x, w) \<Rightarrow>
      (case asked (Some 9) 900 w of (y, v) \<Rightarrow>
         y = Inl (ErrRequestRefused ConnectionLost) \<and>
         (case asked None 901 v of (z, u) \<Rightarrow>
            z = Inl (FromEarnings (ErrNotPosted ErrInsufficientFunds)) \<and> withdrawals (db u) = [] \<and>
            map e_state (entries (db u)) = [StConfirmed] \<and>
            stage_total (db u) 7 StConfirmed ''EUR'' = 250 \<and> stage_total (db u) 7 StReserved ''EUR'' = 0 \<and>
            member_purse u StageConfirmed = 0 \<and> member_purse u StageReserved = 250)))"
  by code_simp


section \<open>A refusal comes before the ledger is asked\<close>

text \<open>The errors that can only arise once the transfer was asked for.\<close>

definition late :: "earn_error \<Rightarrow> bool" where
  "late x =
     (case x of ErrNotPosted _ \<Rightarrow> True | ErrEntryMoved \<Rightarrow> True | ErrNotRecorded _ \<Rightarrow> True | ErrNotAnnounced \<Rightarrow> True
        | ErrMalformedRow _ \<Rightarrow> True | _ \<Rightarrow> False)"

definition past_the_ledger :: "pay_error \<Rightarrow> bool" where
  "past_the_ledger e =
     (case e of FromEarnings x \<Rightarrow> late x | ErrRequestRefused _ \<Rightarrow> True | ErrRowMoney _ \<Rightarrow> True | ErrPayNotAnnounced \<Rightarrow> True
        | _ \<Rightarrow> False)"

definition refuses_with :: "('e \<Rightarrow> bool) \<Rightarrow> ('w \<Rightarrow> ('e + 'a) \<times> 'w) \<Rightarrow> bool" where
  "refuses_with P m \<longleftrightarrow> (\<forall>w e v. m w = (Inl e, v) \<longrightarrow> P e)"

lemma refuses_with_intros:
  "refuses_with P m \<Longrightarrow> (\<And>a. refuses_with P (f a)) \<Longrightarrow> refuses_with P (and_then m f)"
  "(\<And>d. P (h d)) \<Longrightarrow> refuses_with P (wrap_error h n)" "refuses_with P (give x)" "P e \<Longrightarrow> refuses_with P (refuse e)"
  "(\<And>e. r = Inl e \<Longrightarrow> P e) \<Longrightarrow> refuses_with P (from_sum r)"
  by (fastforce simp: refuses_with_def effects)+

lemma refuses_with_if: "(b \<Longrightarrow> refuses_with P m) \<Longrightarrow> (\<not> b \<Longrightarrow> refuses_with P n) \<Longrightarrow> refuses_with P (if b then m else n)"
  by simp

lemma refuses_with_for_each: "(\<And>x. refuses_with P (f x)) \<Longrightarrow> refuses_with P (for_each f xs)"
  by (induction xs) (auto intro: refuses_with_intros)

lemma post_movement_refuses: "refuses_with late (post_movement M mv amt key)"
  unfolding post_movement_def by (intro refuses_with_intros) (simp_all add: late_def)

lemma record_move_refuses: "refuses_with late (record_move M en from to ref reason actor)"
proof -
  have "record_move M en from to ref reason actor w = (Inl e, v) \<Longrightarrow> late e" for w e v
    by (auto simp: record_move_def effects late_def)
  then show ?thesis by (auto simp: refuses_with_def)
qed

lemma move_one_refuses: "refuses_with late (move_one M from to ref e)"
proof -
  have row: "entry_from row = Inl x \<Longrightarrow> late x" for row x
    by (auto simp: entry_from_def late_def split: sum.splits)
  have moved: "late (moved_error x)" for x by (cases x) (simp_all add: moved_error_def late_def)
  have "refuses_with late (announce_state_changed M t)" for t
    unfolding announce_state_changed_def announce_def
    by (intro refuses_with_if refuses_with_intros) (simp_all add: late_def)
  then show ?thesis
    unfolding move_one_def by (intro refuses_with_intros record_move_refuses moved) (auto dest: row)
qed

definition tidy :: "('l world \<Rightarrow> (earn_error + 'a) \<times> 'l world) \<Rightarrow> bool" where
  "tidy m \<longleftrightarrow> (\<forall>w e v. m w = (Inl e, v) \<longrightarrow> ledger v = ledger w \<or> late e)"

lemma tidy_intros:
  "keeps same_ledger m \<Longrightarrow> (\<And>a. tidy (f a)) \<Longrightarrow> tidy (and_then m f)"
  "refuses_with late n \<Longrightarrow> tidy n" "tidy (refuse e)"
proof -
  show "tidy (and_then m f)" if "keeps same_ledger m" "\<And>a. tidy (f a)"
    using that keepsD [OF that(1)] by (fastforce simp: tidy_def and_then_Inl same_ledger_def)
qed (auto simp: tidy_def refuses_with_def refuse_eq)

lemma tidy_if: "(b \<Longrightarrow> tidy m) \<Longrightarrow> (\<not> b \<Longrightarrow> tidy n) \<Longrightarrow> tidy (if b then m else n)"
  by simp

lemma move_together_tidy: "tidy (move_together M es from to key cause)"
proof (cases "cause = nil_uuid \<or> es = []")
  case True
  then have "\<exists>e. move_together M es from to key cause = refuse e" by (cases "cause = nil_uuid") (auto simp: move_together_def)
  then show ?thesis using tidy_intros(3) by metis
next
  case False
  then obtain e0 rest where es: "es = e0 # rest" and c: "cause \<noteq> nil_uuid" by (cases es) auto
  show ?thesis
  proof (cases "set_fault (en_member e0) from to es")
    case (Some e)
    then have "move_together M es from to key cause = refuse e" using c unfolding move_together_def es by simp
    then show ?thesis by (simp add: tidy_intros(3))
  next
    case None
    then have run: "move_together M es from to key cause =
       and_then (from_sum (total es (currency_of (en_amount e0)))) (\<lambda>sm.
       if \<not> is_positive sm then refuse ErrNothingToReserve
       else
       and_then (from_sum (postings_for (en_member e0) from to (receivable M))) (\<lambda>mv.
       and_then (post_movement M mv sm key) (\<lambda>ref.
       and_then (for_each (move_one M from to ref) es) (\<lambda>moved.
       give \<lparr>rs_transfer = ref, rs_entries = moved, rs_amount = sm\<rparr>))))"
      using c unfolding move_together_def es by simp
    show ?thesis unfolding run
      by (intro tidy_intros(1,3) tidy_if tidy_intros(2) refuses_with_intros(1,3) refuses_with_for_each
          post_movement_refuses move_one_refuses keeps_from_sum same_reflp)
  qed
qed

lemma take_and_record_refuses:
  fixes w :: "'l world"
  assumes "take_and_record M i q taken w = (Inl e, v)"
  shows "ledger v = ledger w \<or> past_the_ledger e"
proof -
  have late_steps: "refuses_with past_the_ledger (\<lambda>w. wrap_error ErrRequestRefused (call_db (st w)) w)"
    "refuses_with past_the_ledger (from_sum (withdrawal_from row))" "refuses_with past_the_ledger (announce_requested M made)" for st row made
    by (auto simp: refuses_with_def effects past_the_ledger_def withdrawal_from_def announce_requested_def announce_pay_def
        split: sum.splits if_splits)
  define rest :: "reservation \<Rightarrow> 'l world \<Rightarrow> (pay_error + withdrawal) \<times> 'l world" where "rest rs = and_then (\<lambda>w. wrap_error ErrRequestRefused (call_db (create_withdrawal (clock w) (request_row i q rs))) w)
     (\<lambda>row. and_then (from_sum (withdrawal_from row)) (\<lambda>made. and_then (announce_requested M made) (\<lambda>_. give made)))" for rs
  have r: "refuses_with past_the_ledger (rest rs)" for rs
    unfolding rest_def by (intro refuses_with_intros(1,3) late_steps)
  have "and_then (wrap_error FromEarnings (reserve M taken i)) rest w = (Inl e, v)"
    using assms by (simp add: take_and_record_def rest_def [symmetric])
  then consider x where "reserve M taken i w = (Inl x, v)" "e = FromEarnings x" | "past_the_ledger e"
    using r unfolding and_then_Inl wrap_error_Inl refuses_with_def by blast
  then show ?thesis
  proof cases
    case 1
    then show ?thesis
      using move_together_tidy [of M taken StConfirmed StReserved "reservation_key (uuid_str M) i" i]
      unfolding reserve_def tidy_def past_the_ledger_def by simp
  qed simp
qed

lemma choose_and_take_refuses:
  fixes w :: "'l world"
  assumes "choose_and_take M threshold i q w = (Inl e, v)"
  shows "ledger v = ledger w \<or> past_the_ledger e"
proof -
  define rd :: "'l world \<Rightarrow> (pay_error + entry list \<times> amount) \<times> 'l world" where "rd = and_then (payable q) (\<lambda>_.
     and_then (wrap_error FromEarnings (confirmed (ask_member q) (currency_of (ask_amount q)))) (\<lambda>es.
     and_then (from_sum (reaches_the_threshold threshold es)) (\<lambda>_.
     from_sum (cover_error (covering es (ask_amount q))))))"
  have split: "choose_and_take M threshold i q w = and_then rd (\<lambda>(taken, _). take_and_record M i q taken) w"
    unfolding choose_and_take_def rd_def and_then_def by (auto split: prod.splits sum.splits)
  have "keeps unmoved rd" unfolding rd_def by (intro keeps_intros reads_unmoved unmoved_rel)
  then have led: "rd w = (y, u) \<Longrightarrow> ledger u = ledger w" for y u by (auto dest: keepsD simp: unmoved_def)
  from assms show ?thesis unfolding split and_then_Inl
    using led take_and_record_refuses by (fastforce split: prod.splits)
qed

text \<open>(C18) A withdrawal that is refused writes nothing, and every refusal there is a reason for comes before the
  ledger is asked: unless the ledger or the database itself failed, the ledger is as it was too.\<close>

theorem a_refused_request_touches_nothing:
  assumes "request_withdrawal M threshold i q w = (Inl e, v)"
  shows "db v = db w \<and> (ledger v = ledger w \<or> past_the_ledger e)"
proof (cases "acceptable (receivable M) threshold q")
  case (Some x)
  with assms show ?thesis by (simp add: request_withdrawal_def refuse_eq)
next
  case None
  obtain y z where body: "choose_and_take M threshold i q w = (y, z)" by fastforce
  have db: "db v = db w" using assms None body
    by (cases y) (auto simp: request_withdrawal_def in_tx_def split: prod.splits sum.splits)
  show ?thesis
  proof (cases y)
    case (Inr a)
    then have "e \<in> range ErrRequestRefused" using assms None body
      by (auto simp: request_withdrawal_def in_tx_def split: prod.splits sum.splits)
    with db show ?thesis by (auto simp: past_the_ledger_def)
  next
    case (Inl x)
    then have e: "x = e" "ledger v = ledger z" using assms None body
      by (auto simp: request_withdrawal_def in_tx_def split: prod.splits sum.splits)
    have "ledger z = ledger w \<or> past_the_ledger x"
      using body Inl choose_and_take_refuses by metis
    with e db show ?thesis by simp
  qed
qed

definition greedy_ask :: ask where
  "greedy_ask = sample_ask\<lparr>ask_amount := \<lparr>minor = 500, currency_of = ''EUR''\<rparr>\<rparr>"

lemma greedy_evaluated:
  "(case request_withdrawal easy_machine sample_threshold 900 greedy_ask easy_world of (y, v) \<Rightarrow>
      (case y of Inl e \<Rightarrow> \<not> past_the_ledger e | Inr _ \<Rightarrow> False))"
  by code_simp

theorem a_refused_request_touches_nothing_witness:
  "\<exists>e v. request_withdrawal easy_machine sample_threshold 900 greedy_ask easy_world = (Inl e, v) \<and>
     db v = db easy_world \<and> ledger v = ledger easy_world"
proof -
  obtain e v where r: "request_withdrawal easy_machine sample_threshold 900 greedy_ask easy_world = (Inl e, v)" "\<not> past_the_ledger e"
    using greedy_evaluated by (auto split: prod.splits sum.splits)
  with a_refused_request_touches_nothing [OF r(1)] show ?thesis by auto
qed

end
