(* ===== verification/Payments.thy ===== *)
theory Payments
  imports Withdrawal Review
begin

text \<open>
  What happens to a withdrawal once a member has asked: \<open>internal/cashback/payout/approval.go\<close>,
  \<open>reject.go\<close>, \<open>retry.go\<close> and \<open>settle.go\<close>. The rail is outside every transaction, so an operation
  that asks it runs on a world and a rail state side by side; \<open>at_base\<close> runs on the world alone. An
  approval answers the payout it wrote beside an error of the rail, so its error is a pair. The error
  text of a rail is a parameter (\<open>say\<close>), as Go's \<open>Error\<close> methods are not modelled.
\<close>

section \<open>Values\<close>

record payout =
  pt_id :: uuid
  pt_request :: uuid
  pt_brand :: string
  pt_by :: uuid
  pt_key :: string
  pt_amount :: amount
  pt_rail :: kind
  pt_ref :: string
  pt_state :: rail_status
  pt_submitted :: instant
  pt_settled :: instant

definition payout_from :: "(uuid \<Rightarrow> string) \<Rightarrow> payout_row \<Rightarrow> pay_error + payout" where
  "payout_from ustr r =
     (case new_amount (po_minor r) (po_currency r) of
        Inl e \<Rightarrow> Inl (ErrRowMoney e)
      | Inr a \<Rightarrow>
          (case parse_kind (po_rail r) of
             Inl _ \<Rightarrow> Inl ErrRowKind
           | Inr k \<Rightarrow>
               Inr \<lparr>pt_id = po_id r, pt_request = po_request r, pt_brand = po_brand r, pt_by = po_approver r,
                 pt_key = payout_key ustr (po_request r), pt_amount = a, pt_rail = k, pt_ref = or_empty (po_rail_ref r),
                 pt_state = po_state r, pt_submitted = po_submitted r, pt_settled = or_zero (po_settled r)\<rparr>))"

record approval =
  ap_request :: uuid
  ap_operator :: uuid

record retry_outcome =
  oc_payout :: payout
  oc_released :: amount
  oc_transfer :: transfer_ref

definition not_released :: "payout \<Rightarrow> retry_outcome" where
  "not_released p = \<lparr>oc_payout = p, oc_released = \<lparr>minor = 0, currency_of = []\<rparr>, oc_transfer = []\<rparr>"

record rejection =
  rn_request :: uuid
  rn_operator :: uuid
  rn_reason :: string

record rejected_withdrawal =
  rw_request :: withdrawal
  rw_released :: amount
  rw_transfer :: transfer_ref

record settlement =
  st_payout :: payout
  st_status :: rail_status
  st_released :: "retry_outcome option"

record recording =
  rc_request :: uuid
  rc_operator :: uuid
  rc_reference :: string

section \<open>A world and a rail\<close>

definition at_base :: "('l world \<Rightarrow> ('e + 'a) \<times> 'l world) \<Rightarrow> 'l world \<times> 'r \<Rightarrow> ('e + 'a) \<times> 'l world \<times> 'r" where
  "at_base m = (\<lambda>(w, s). case m w of (x, v) \<Rightarrow> (x, (v, s)))"

definition call_submit :: "'r rail \<Rightarrow> instruction \<Rightarrow> 'l world \<times> 'r \<Rightarrow> (rail_error + string) \<times> 'l world \<times> 'r" where
  "call_submit R i =
     (\<lambda>(w, s). case rail_submit R (ctx_done w) i s of (x, s') \<Rightarrow> (x, (w\<lparr>fuse := burn (fuse w)\<rparr>, s')))"

definition call_query :: "'r rail \<Rightarrow> string \<Rightarrow> 'l world \<times> 'r \<Rightarrow> (rail_error + rail_status) \<times> 'l world \<times> 'r" where
  "call_query R ref = (\<lambda>(w, s). (rail_query R (ctx_done w) ref s, (w\<lparr>fuse := burn (fuse w)\<rparr>, s)))"

section \<open>Announcing\<close>

definition announce_approved :: "'l machine \<Rightarrow> withdrawal \<Rightarrow> 'l world \<Rightarrow> (pay_error + unit) \<times> 'l world" where
  "announce_approved M r =
     (if wd_id r = nil_uuid then refuse ErrPayNotAnnounced
      else if wd_by r = nil_uuid then refuse ErrPayNotAnnounced
      else announce_pay M (WithdrawalApproved (wd_id r) (wd_member r) (wd_amount r) (wd_by r) (wd_at r)))"

definition announce_refused :: "'l machine \<Rightarrow> withdrawal \<Rightarrow> 'l world \<Rightarrow> (pay_error + unit) \<times> 'l world" where
  "announce_refused M r =
     (if wd_id r = nil_uuid then refuse ErrPayNotAnnounced
      else if wd_by r = nil_uuid then refuse ErrPayNotAnnounced
      else if wd_reason r = [] then refuse ErrPayNotAnnounced
      else announce_pay M (WithdrawalRejected (wd_id r) (wd_member r) (wd_amount r) (wd_by r) (wd_reason r) (wd_at r)))"

definition announce_failed ::
  "'l machine \<Rightarrow> payout \<Rightarrow> string \<Rightarrow> instant \<Rightarrow> 'l world \<Rightarrow> (pay_error + unit) \<times> 'l world" where
  "announce_failed M p classification at =
     (if pt_id p = nil_uuid then refuse ErrPayNotAnnounced
      else if classification = [] then refuse ErrPayNotAnnounced
      else announce_pay M (PayoutFailed (pt_id p) (pt_request p) (pt_ref p) classification at))"

definition announce_settled :: "'l machine \<Rightarrow> payout \<Rightarrow> uuid \<Rightarrow> 'l world \<Rightarrow> (pay_error + unit) \<times> 'l world" where
  "announce_settled M p actor =
     (if pt_id p = nil_uuid then refuse ErrPayNotAnnounced
      else if pt_ref p = [] then refuse ErrPayNotAnnounced
      else if pt_settled p = zero_time then refuse ErrPayNotAnnounced
      else announce_pay M (PayoutSettled (pt_id p) (pt_request p) (pt_ref p) (uuid_or_null actor) (pt_settled p)))"

section \<open>Approving\<close>

definition awaiting_error :: "db_error \<Rightarrow> pay_error" where
  "awaiting_error e = (case e of NoRows \<Rightarrow> ErrNoSuchWithdrawal | _ \<Rightarrow> ErrApprovalRefused e)"

definition awaiting_decision :: "uuid \<Rightarrow> 'l world \<Rightarrow> (pay_error + withdrawal) \<times> 'l world" where
  "awaiting_decision i =
     and_then (wrap_error awaiting_error (call_db (lock_withdrawal i))) (\<lambda>row.
     and_then (from_sum (withdrawal_from row)) (\<lambda>request.
     if wd_state request \<noteq> StateAwaitingApproval then refuse ErrNotAwaitingApproval else give request))"

definition brand_of :: "withdrawal \<Rightarrow> 'l world \<Rightarrow> (pay_error + string) \<times> 'l world" where
  "brand_of request =
     and_then (wrap_error ErrApprovalRefused (call_db (brands_of_reserved (wd_ref request)))) (\<lambda>brands.
     case brands of [b] \<Rightarrow> give b | _ \<Rightarrow> refuse (ErrBrandUnresolved (length brands)))"

definition destination_for :: "kind \<Rightarrow> withdrawal \<Rightarrow> 'l world \<Rightarrow> (pay_error + destination) \<times> 'l world" where
  "destination_for k request =
     and_then (wrap_error ErrNotApprovedBy (destination_of (wd_member request) (wd_destination request))) (\<lambda>destination.
     if dn_kind destination \<noteq> k then refuse (ErrApprovalKind (dn_kind destination) k)
     else if \<not> verified destination then refuse (ErrNotApprovedBy ErrDestinationNotVerified)
     else give destination)"

definition decided_error :: "db_error \<Rightarrow> pay_error" where
  "decided_error e = (case e of NoRows \<Rightarrow> ErrNotAwaitingApproval | _ \<Rightarrow> ErrApprovalRefused e)"

text \<open>The existing payout is read over a connection of its own, which sees what was committed; the
  transaction has written no payout, so these are the payouts it started from.\<close>

definition explain_create ::
  "uuid \<Rightarrow> ('l world \<Rightarrow> (db_error + 'a) \<times> 'l world) \<Rightarrow> 'l world \<Rightarrow> (pay_error + 'a) \<times> 'l world" where
  "explain_create request m w =
     (case m w of
        (Inr x, v) \<Rightarrow> (Inr x, v)
      | (Inl (UniqueViolation _), v) \<Rightarrow>
          (case call_db (get_payout request) v of
             (Inl _, v') \<Rightarrow> (Inl (ErrAlreadyApproved None), v')
           | (Inr p, v') \<Rightarrow> (Inl (ErrAlreadyApproved (Some (po_id p))), v'))
      | (Inl e, v) \<Rightarrow> (Inl (ErrApprovalRefused e), v))"

definition instruct :: "string \<Rightarrow> payout \<Rightarrow> destination \<Rightarrow> instruction" where
  "instruct descriptor p destination =
     \<lparr>in_key = pt_key p, in_amount = pt_amount p, in_destination = to_ref destination, in_descriptor = descriptor\<rparr>"

definition claim_body ::
  "'l machine \<Rightarrow> kind \<Rightarrow> string \<Rightarrow> approval \<Rightarrow> 'l world \<Rightarrow> (pay_error + payout \<times> instruction) \<times> 'l world" where
  "claim_body M k descriptor ap =
     and_then (awaiting_decision (ap_request ap)) (\<lambda>request.
     and_then (brand_of request) (\<lambda>brand.
     and_then (destination_for k request) (\<lambda>destination.
     and_then (\<lambda>w. wrap_error decided_error (call_db (record_decision (clock w) (wd_id request) StateAwaitingApproval
        StateApproved (ap_operator ap) None)) w) (\<lambda>decided.
     and_then (\<lambda>w. explain_create (wd_id request) (call_db (create_payout (fresh_ids M) (clock w) (wd_id request) brand
        (ap_operator ap) (wd_amount request) k)) w) (\<lambda>row.
     and_then (from_sum (payout_from (uuid_str M) row)) (\<lambda>written.
     and_then (from_sum (withdrawal_from decided)) (\<lambda>released.
     and_then (announce_approved M released) (\<lambda>_.
     give (written, instruct descriptor written destination)))))))))"

definition claim ::
  "'l machine \<Rightarrow> kind \<Rightarrow> string \<Rightarrow> approval \<Rightarrow> 'l world \<Rightarrow> (pay_error + payout \<times> instruction) \<times> 'l world" where
  "claim M k descriptor ap = in_tx ErrApprovalRefused (claim_body M k descriptor ap)"

definition reread :: "'l machine \<Rightarrow> payout \<Rightarrow> 'l world \<Rightarrow> (pay_error \<times> payout option + payout) \<times> 'l world" where
  "reread M written =
     and_then (wrap_error (\<lambda>e. (ErrPayoutUnread e, Some written)) (call_db (get_payout (pt_request written)))) (\<lambda>row.
     wrap_error (\<lambda>e. (e, None)) (from_sum (payout_from (uuid_str M) row)))"

definition record_reference ::
  "'l machine \<Rightarrow> payout \<Rightarrow> string \<Rightarrow> 'l world \<Rightarrow> (pay_error \<times> payout option + payout) \<times> 'l world" where
  "record_reference M written ref w =
     (case call_db (record_submission (pt_id written) ref) w of
        (Inl NoRows, v) \<Rightarrow> reread M written v
      | (Inl e, v) \<Rightarrow> (Inl (ErrReferenceUnrecorded e, Some written), v)
      | (Inr row, v) \<Rightarrow> wrap_error (\<lambda>e. (e, None)) (from_sum (payout_from (uuid_str M) row)) v)"

definition approve ::
  "'l machine \<Rightarrow> 'r rail \<Rightarrow> string \<Rightarrow> approval \<Rightarrow> 'l world \<times> 'r \<Rightarrow>
   (pay_error \<times> payout option + payout) \<times> 'l world \<times> 'r" where
  "approve M R descriptor ap =
     (if ap_request ap = nil_uuid then refuse (ErrApprovalInvalid, None)
      else if ap_operator ap = nil_uuid then refuse (ErrApprovalInvalid, None)
      else
     and_then (wrap_error (\<lambda>e. (e, None)) (at_base (claim M (rail_kind R) descriptor ap))) (\<lambda>(written, instruction).
     and_then (wrap_error (\<lambda>e. (ErrFromRail e, Some written)) (call_submit R instruction)) (\<lambda>ref.
     at_base (record_reference M written ref))))"

section \<open>Rejecting\<close>

definition rejected_error :: "db_error \<Rightarrow> pay_error" where
  "rejected_error e = (case e of NoRows \<Rightarrow> ErrNotAwaitingApproval | _ \<Rightarrow> ErrRejectionRefused e)"

definition reject_body ::
  "'l machine \<Rightarrow> rejection \<Rightarrow> string \<Rightarrow> 'l world \<Rightarrow> (pay_error + rejected_withdrawal) \<times> 'l world" where
  "reject_body M r reason =
     and_then (awaiting_decision (rn_request r)) (\<lambda>request.
     and_then (wrap_error FromEarnings (reserved (wd_ref request))) (\<lambda>held.
     if held = [] then refuse ErrNothingReserved
     else
     and_then (wrap_error FromEarnings (release M held (wd_id request))) (\<lambda>released.
     and_then (\<lambda>w. wrap_error rejected_error (call_db (record_decision (clock w) (wd_id request) StateAwaitingApproval
        StateRejected (rn_operator r) (Some reason))) w) (\<lambda>row.
     and_then (from_sum (withdrawal_from row)) (\<lambda>refused.
     and_then (announce_refused M refused) (\<lambda>_.
     give \<lparr>rw_request = refused, rw_released = rs_amount released, rw_transfer = rs_transfer released\<rparr>))))))"

definition reject_withdrawal ::
  "'l machine \<Rightarrow> rejection \<Rightarrow> 'l world \<Rightarrow> (pay_error + rejected_withdrawal) \<times> 'l world" where
  "reject_withdrawal M r =
     (let reason = trim_space (rn_reason r) in
      if rn_request r = nil_uuid then refuse ErrRejectionInvalid
      else if rn_operator r = nil_uuid then refuse ErrRejectionInvalid
      else if reason = [] then refuse ErrNoDecisionReason
      else if receivable M = [] then refuse ErrPayReceivable
      else in_tx ErrRejectionRefused (reject_body M r reason))"

section \<open>Retrying and giving up\<close>

definition retried_error :: "pay_error \<Rightarrow> db_error \<Rightarrow> pay_error" where
  "retried_error missing e = (case e of NoRows \<Rightarrow> missing | _ \<Rightarrow> ErrRetryRefused e)"

text \<open>The reads of a transaction that is always rolled back, so nothing is written.\<close>

definition still_owed ::
  "'l machine \<Rightarrow> string \<Rightarrow> uuid \<Rightarrow> 'l world \<Rightarrow> (pay_error + payout \<times> instruction) \<times> 'l world" where
  "still_owed M descriptor request =
     and_then (wrap_error (retried_error ErrNoSuchWithdrawal) (call_db (lock_withdrawal request))) (\<lambda>row.
     and_then (from_sum (withdrawal_from row)) (\<lambda>wd.
     and_then (wrap_error (retried_error ErrNoPayout) (call_db (get_payout request))) (\<lambda>prow.
     and_then (from_sum (payout_from (uuid_str M) prow)) (\<lambda>sending.
     if pt_state sending \<noteq> StatusSubmitted then refuse (ErrNothingToRetry (pt_state sending))
     else
     and_then (wrap_error ErrNotRetriedBy (destination_of (wd_member wd) (wd_destination wd))) (\<lambda>destination.
     give (sending, instruct descriptor sending destination))))))"

fun take_runes :: "nat \<Rightarrow> string \<Rightarrow> string" where
  "take_runes 0 s = []"
| "take_runes (Suc n) s =
     (if s = [] then []
      else let k = rune_size (map of_char s)
           in if k = 0 then utf8 replacement @ take_runes n (drop 1 s) else take k s @ take_runes n (drop k s))"

definition rail_refusal :: "(rail_error \<Rightarrow> string) \<Rightarrow> rail_error \<Rightarrow> string" where
  "rail_refusal say cause =
     (let said = say cause
      in if rune_count said > 500 then take_runes 500 said @ ''...'' else said)"

definition classification_of :: "rail_error \<Rightarrow> string" where
  "classification_of cause =
     (if is_terminal cause then ''terminal'' else if is_retryable cause then ''retryable'' else ''unclassified'')"

definition abandon_body ::
  "'l machine \<Rightarrow> (rail_error \<Rightarrow> string) \<Rightarrow> uuid \<Rightarrow> rail_error \<Rightarrow> 'l world \<Rightarrow> (pay_error + retry_outcome) \<times> 'l world" where
  "abandon_body M say request cause =
     and_then (wrap_error ErrRetryRefused (call_db (get_payout request))) (\<lambda>prow.
     and_then (from_sum (payout_from (uuid_str M) prow)) (\<lambda>failing.
     if pt_state failing \<noteq> StatusSubmitted then refuse (ErrNothingToRetry (pt_state failing))
     else if receivable M = [] then refuse ErrPayReceivable
     else
     and_then (wrap_error ErrRetryRefused (call_db (lock_withdrawal request))) (\<lambda>row.
     and_then (from_sum (withdrawal_from row)) (\<lambda>wd.
     and_then (wrap_error FromEarnings (reserved (wd_ref wd))) (\<lambda>held.
     if held = [] then refuse ErrNothingReserved
     else
     and_then (wrap_error FromEarnings (release M held request)) (\<lambda>released.
     and_then (\<lambda>w. wrap_error ErrRetryRefused (call_db (record_outcome (clock w) (pt_id failing) StatusSubmitted
        StatusFailed None)) w) (\<lambda>frow.
     and_then (\<lambda>w. wrap_error ErrRetryRefused (call_db (record_decision (clock w) request StateApproved StateFailed
        (pt_by failing) (Some (rail_refusal say cause)))) w) (\<lambda>drow.
     and_then (from_sum (payout_from (uuid_str M) frow)) (\<lambda>failed.
     and_then (from_sum (withdrawal_from drow)) (\<lambda>decided.
     and_then (announce_failed M failed (classification_of cause) (wd_at decided)) (\<lambda>_.
     give \<lparr>oc_payout = failed, oc_released = rs_amount released, oc_transfer = rs_transfer released\<rparr>)))))))))))"

definition abandon ::
  "'l machine \<Rightarrow> (rail_error \<Rightarrow> string) \<Rightarrow> uuid \<Rightarrow> rail_error \<Rightarrow> 'l world \<Rightarrow> (pay_error + retry_outcome) \<times> 'l world" where
  "abandon M say request cause = in_tx ErrRetryRefused (abandon_body M say request cause)"

definition reread_sent :: "'l machine \<Rightarrow> payout \<Rightarrow> 'l world \<Rightarrow> (pay_error + retry_outcome) \<times> 'l world" where
  "reread_sent M owed =
     and_then (wrap_error ErrRetryRefused (call_db (get_payout (pt_request owed)))) (\<lambda>row.
     and_then (from_sum (payout_from (uuid_str M) row)) (\<lambda>sent.
     give (not_released sent)))"

definition record_sent :: "'l machine \<Rightarrow> payout \<Rightarrow> string \<Rightarrow> 'l world \<Rightarrow> (pay_error + retry_outcome) \<times> 'l world" where
  "record_sent M owed ref w =
     (case call_db (record_submission (pt_id owed) ref) w of
        (Inl NoRows, v) \<Rightarrow> reread_sent M owed v
      | (Inl e, v) \<Rightarrow> (Inl (ErrRetryRefused e), v)
      | (Inr row, v) \<Rightarrow> and_then (from_sum (payout_from (uuid_str M) row)) (\<lambda>sent. give (not_released sent)) v)"

definition retry ::
  "'l machine \<Rightarrow> 'r rail \<Rightarrow> (rail_error \<Rightarrow> string) \<Rightarrow> string \<Rightarrow> uuid \<Rightarrow> 'l world \<times> 'r \<Rightarrow>
   (pay_error + retry_outcome) \<times> 'l world \<times> 'r" where
  "retry M R say descriptor request =
     (if request = nil_uuid then refuse ErrRetryInvalid
      else
     and_then (at_base (still_owed M descriptor request)) (\<lambda>(owed, sending) p.
       case call_submit R sending p of
         (Inl e, p') \<Rightarrow>
           if is_terminal e then at_base (abandon M say request e) p' else (Inl (ErrFromRail e), p')
       | (Inr ref, p') \<Rightarrow> at_base (record_sent M owed ref) p'))"

section \<open>Settling\<close>

definition payout_error :: "db_error \<Rightarrow> pay_error" where
  "payout_error e = (case e of NoRows \<Rightarrow> ErrNoPayout | _ \<Rightarrow> ErrSettlementRefused e)"

definition submitted :: "'l machine \<Rightarrow> uuid \<Rightarrow> 'l world \<Rightarrow> (pay_error + payout) \<times> 'l world" where
  "submitted M request =
     and_then (wrap_error payout_error (call_db (get_payout request))) (\<lambda>row.
     and_then (from_sum (payout_from (uuid_str M) row)) (\<lambda>waiting.
     if pt_state waiting \<noteq> StatusSubmitted then refuse (ErrNotSubmitted (pt_state waiting)) else give waiting))"

definition paid_error :: "db_error \<Rightarrow> pay_error" where
  "paid_error e = (case e of NoRows \<Rightarrow> ErrRequestNotApproved | _ \<Rightarrow> ErrSettlementRefused e)"

definition arrival_body ::
  "'l machine \<Rightarrow> uuid \<Rightarrow> uuid \<Rightarrow> string \<Rightarrow> 'l world \<Rightarrow> (pay_error + settlement) \<times> 'l world" where
  "arrival_body M request operator bank =
     and_then (wrap_error ErrSettlementRefused (call_db (get_payout request))) (\<lambda>row.
     and_then (from_sum (payout_from (uuid_str M) row)) (\<lambda>waiting.
     if pt_state waiting \<noteq> StatusSubmitted then refuse (ErrNotSubmitted (pt_state waiting))
     else
     and_then (\<lambda>w. wrap_error ErrSettlementRefused (call_db (record_outcome (clock w) (pt_id waiting) StatusSubmitted
        StatusSettled (text_or_null bank))) w) (\<lambda>arow.
     and_then (from_sum (payout_from (uuid_str M) arow)) (\<lambda>arrived.
     and_then (wrap_error paid_error (call_db (mark_withdrawal_paid request))) (\<lambda>_.
     and_then (announce_settled M arrived operator) (\<lambda>_.
     give \<lparr>st_payout = arrived, st_status = StatusSettled, st_released = None\<rparr>))))))"

definition record_arrival ::
  "'l machine \<Rightarrow> uuid \<Rightarrow> uuid \<Rightarrow> string \<Rightarrow> 'l world \<Rightarrow> (pay_error + settlement) \<times> 'l world" where
  "record_arrival M request operator bank = in_tx ErrSettlementRefused (arrival_body M request operator bank)"

definition on_status ::
  "'l machine \<Rightarrow> (rail_error \<Rightarrow> string) \<Rightarrow> uuid \<Rightarrow> payout \<Rightarrow> rail_status \<Rightarrow> 'l world \<Rightarrow> (pay_error + settlement) \<times> 'l world" where
  "on_status M say request waiting status =
     (if status = StatusSettled then record_arrival M request nil_uuid []
      else if status = StatusFailed then
     and_then (wrap_error ErrNotSettledBy (abandon M say request (Terminal DidNotComplete))) (\<lambda>released.
     give \<lparr>st_payout = oc_payout released, st_status = status, st_released = Some released\<rparr>)
      else give \<lparr>st_payout = waiting, st_status = status, st_released = None\<rparr>)"

definition settle ::
  "'l machine \<Rightarrow> 'r rail \<Rightarrow> (rail_error \<Rightarrow> string) \<Rightarrow> uuid \<Rightarrow> 'l world \<times> 'r \<Rightarrow> (pay_error + settlement) \<times> 'l world \<times> 'r" where
  "settle M R say request =
     (if request = nil_uuid then refuse ErrSettlementInvalid
      else
     and_then (at_base (submitted M request)) (\<lambda>waiting.
     if pt_ref waiting = [] then refuse ErrNotAcknowledged
     else
     and_then (wrap_error ErrUnusableReference (from_sum (new_rail_reference (pt_ref waiting)))) (\<lambda>named.
     and_then (wrap_error ErrFromRail (call_query R named)) (\<lambda>status.
     at_base (on_status M say request waiting status)))))"

definition record_settlement :: "'l machine \<Rightarrow> recording \<Rightarrow> 'l world \<Rightarrow> (pay_error + settlement) \<times> 'l world" where
  "record_settlement M r =
     (let bank = trim_space (rc_reference r) in
      if rc_request r = nil_uuid then refuse ErrSettlementInvalid
      else if rc_operator r = nil_uuid then refuse ErrSettlementInvalid
      else if bank = [] then refuse ErrNoBankReference
      else record_arrival M (rc_request r) (rc_operator r) bank)"

definition counts_as_failure :: "pay_error + settlement \<Rightarrow> bool" where
  "counts_as_failure x =
     (case x of
        Inr _ \<Rightarrow> False
      | Inl e \<Rightarrow> (case e of ErrNotSubmitted _ \<Rightarrow> False | ErrNotAcknowledged \<Rightarrow> False | _ \<Rightarrow> True))"

fun sweep_each ::
  "'l machine \<Rightarrow> 'r rail \<Rightarrow> (rail_error \<Rightarrow> string) \<Rightarrow> uuid list \<Rightarrow> nat \<Rightarrow> 'l world \<times> 'r \<Rightarrow> (pay_error + nat) \<times> 'l world \<times> 'r" where
  "sweep_each M R say [] failures p = (Inr failures, p)"
| "sweep_each M R say (q # qs) failures p =
     (if ctx_done (fst p) then (Inl ErrSweepCut, p)
      else case settle M R say q p of
          (x, p') \<Rightarrow> sweep_each M R say qs (if counts_as_failure x then Suc failures else failures) p')"

definition sweep ::
  "'l machine \<Rightarrow> 'r rail \<Rightarrow> (rail_error \<Rightarrow> string) \<Rightarrow> 'l world \<times> 'r \<Rightarrow> (pay_error + unit) \<times> 'l world \<times> 'r" where
  "sweep M R say =
     and_then (wrap_error ErrSettlementRefused (at_base (call_db submitted_payouts))) (\<lambda>waiting.
     and_then (sweep_each M R say waiting 0) (\<lambda>failures.
     if 0 < failures then refuse (ErrUnresolved failures (length waiting)) else give ()))"

section \<open>The operations taken apart\<close>

lemma payout_from_Inr:
  "payout_from ustr r = Inr p \<longleftrightarrow> currency_valid (po_currency r) \<and> kind_valid (po_rail r) \<and>
     p = \<lparr>pt_id = po_id r, pt_request = po_request r, pt_brand = po_brand r, pt_by = po_approver r,
       pt_key = payout_key ustr (po_request r), pt_amount = \<lparr>minor = po_minor r, currency_of = po_currency r\<rparr>,
       pt_rail = po_rail r, pt_ref = or_empty (po_rail_ref r),
       pt_state = po_state r, pt_submitted = po_submitted r, pt_settled = or_zero (po_settled r)\<rparr>"
  by (auto simp: payout_from_def new_amount_def parse_kind_def)

lemma read_through:
  assumes "\<And>d. snd (st d) = d"
  shows "call_db st w = (Inr x, v) \<Longrightarrow> fst (st (db w)) = Inr x \<and> unmoved w v"
  using assms [of "db w"] by (auto simp: call_db_Inr unmoved_def)

lemma reads_keep:
  "snd (lock_withdrawal i d) = d" "snd (get_payout i d) = d" "snd (brands_of_reserved ref d) = d"
  "snd (submitted_payouts d) = d" "snd (get_destination a i d) = d" "snd (entries_reserved_under ref d) = d"
  by (auto simp: lock_withdrawal_def get_payout_def brands_of_reserved_def submitted_payouts_def get_destination_def
      entries_reserved_under_def split: option.splits)

lemma lock_withdrawal_Inr: "fst (lock_withdrawal i d) = Inr r \<longleftrightarrow> find_withdrawal d i = Some r"
  by (simp add: lock_withdrawal_def split: option.splits)

lemma get_payout_Inr: "fst (get_payout i d) = Inr p \<longleftrightarrow> find_payout d i = Some p"
  by (simp add: get_payout_def split: option.splits)

lemma awaiting_decision_Inr:
  assumes "awaiting_decision i w = (Inr request, v)"
  obtains row where "find_withdrawal (db w) i = Some row" "withdrawal_from row = Inr request"
    "wr_state row = StateAwaitingApproval" "wd_id request = i" "unmoved w v"
proof -
  obtain row where row: "call_db (lock_withdrawal i) w = (Inr row, v)" and wd: "withdrawal_from row = Inr request"
    and st: "wd_state request = StateAwaitingApproval"
    using assms by (auto simp: awaiting_decision_def effects split: if_splits)
  from read_through [OF reads_keep(1) row] have f: "find_withdrawal (db w) i = Some row" "unmoved w v"
    by (simp_all add: lock_withdrawal_Inr)
  with wd st find_withdrawal_Some [OF f(1)] show thesis by (intro that [of row]) (auto simp: withdrawal_from_Inr)
qed

lemma reserved_Inr:
  assumes "reserved ref w = (Inr hs, v)"
  shows "unmoved w v \<and> (\<exists>rows. fst (entries_reserved_under ref (db w)) = Inr rows \<and> entries_from rows = Inr hs)"
proof -
  obtain rows where "call_db (entries_reserved_under ref) w = (Inr rows, v)" "entries_from rows = Inr hs"
    using assms by (auto simp: reserved_def effects)
  with read_through [of "entries_reserved_under ref" w, OF reads_keep(6)] show ?thesis by blast
qed

lemma unmoved_trans: "unmoved u v \<Longrightarrow> unmoved v w \<Longrightarrow> unmoved u w"
  by (simp add: unmoved_def)

lemma announcements_pay_Inr:
  "announce_approved M r w = (Inr x, v) \<Longrightarrow> \<exists>ev. db v = (db w)\<lparr>outbox := outbox (db w) @ [ev]\<rparr> \<and> ledger v = ledger w"
  "announce_refused M r w = (Inr x, v) \<Longrightarrow> \<exists>ev. db v = (db w)\<lparr>outbox := outbox (db w) @ [ev]\<rparr> \<and> ledger v = ledger w"
  "announce_failed M p c t w = (Inr x, v) \<Longrightarrow> \<exists>ev. db v = (db w)\<lparr>outbox := outbox (db w) @ [ev]\<rparr> \<and> ledger v = ledger w"
  "announce_settled M p a w = (Inr x, v) \<Longrightarrow> \<exists>ev. db v = (db w)\<lparr>outbox := outbox (db w) @ [ev]\<rparr> \<and> ledger v = ledger w"
  by (auto simp: announce_approved_def announce_refused_def announce_failed_def announce_settled_def effects
      dest: announce_pay_Inr split: if_splits)

lemma reject_withdrawal_Inr:
  assumes "reject_withdrawal M r w = (Inr out, v)"
  obtains row hs rs u u1 row' d1 ev where
    "find_withdrawal (db w) (rn_request r) = Some row" "wr_state row = StateAwaitingApproval"
    "\<exists>rows. fst (entries_reserved_under (wr_ref row) (db w)) = Inr rows \<and> entries_from rows = Inr hs" "hs \<noteq> []"
    "unmoved w u" "release M hs (rn_request r) u = (Inr rs, u1)"
    "record_decision (clock u1) (rn_request r) StateAwaitingApproval StateRejected (rn_operator r)
       (Some (trim_space (rn_reason r))) (db u1) = (Inr row', d1)"
    "db v = d1\<lparr>outbox := outbox d1 @ [ev], moved := []\<rparr>" "withdrawal_from row' = Inr (rw_request out)"
    "rw_released out = rs_amount rs" "rw_transfer out = rs_transfer rs"
proof -
  obtain z where body: "reject_body M r (trim_space (rn_reason r)) w = (Inr out, z)" and v: "db v = (db z)\<lparr>moved := []\<rparr>"
    using assms by (auto simp: reject_withdrawal_def Let_def effects split: if_splits elim: in_tx_Inr)
  obtain request u0 hs u rs u1 row' u2 refused where
    aw: "awaiting_decision (rn_request r) w = (Inr request, u0)" and rd: "reserved (wd_ref request) u0 = (Inr hs, u)"
    and ne: "hs \<noteq> []" and rl: "release M hs (wd_id request) u = (Inr rs, u1)"
    and dec: "call_db (record_decision (clock u1) (wd_id request) StateAwaitingApproval StateRejected (rn_operator r)
        (Some (trim_space (rn_reason r)))) u1 = (Inr row', u2)"
    and refd: "withdrawal_from row' = Inr refused" and an: "announce_refused M refused u2 = (Inr (), z)"
    and out: "out = \<lparr>rw_request = refused, rw_released = rs_amount rs, rw_transfer = rs_transfer rs\<rparr>"
    using body unfolding reject_body_def and_then_Inr wrap_error_Inr from_sum_eq
    by (auto simp: and_then_Inr wrap_error_Inr from_sum_eq give_eq refuse_eq split: if_splits)
  obtain row where row: "find_withdrawal (db w) (rn_request r) = Some row" "withdrawal_from row = Inr request"
      "wr_state row = StateAwaitingApproval" "wd_id request = rn_request r" "unmoved w u0"
    using awaiting_decision_Inr [OF aw] by metis
  have ref: "wd_ref request = wr_ref row" using row(2) by (auto simp: withdrawal_from_Inr)
  obtain d1 where d1: "record_decision (clock u1) (rn_request r) StateAwaitingApproval StateRejected (rn_operator r)
       (Some (trim_space (rn_reason r))) (db u1) = (Inr row', d1)" "db u2 = d1"
    using dec row(4) by (auto simp: call_db_Inr)
  obtain ev where ev: "db z = d1\<lparr>outbox := outbox d1 @ [ev]\<rparr>" using announcements_pay_Inr(2) [OF an] d1(2) by auto
  show thesis
    by (rule that [OF row(1,3) _ ne _ _ d1(1), of u rs ev])
      (use reserved_Inr [OF rd] row(4,5) ref rl v ev refd out in \<open>auto simp: unmoved_def\<close>)
qed

lemma find_appended: "\<forall>x\<in>set xs. \<not> P x \<Longrightarrow> find P (xs @ [y]) = (if P y then Some y else None)"
  by (induction xs) auto

section \<open>A refusal gives back what the request took\<close>

lemma entry_sum_moved: "entry_sum (map (moved_to s) es) = entry_sum es"
  by (simp add: entry_sum_def moved_to_def comp_def)

lemma same_sum: "sint (minor a) = sint (minor b) \<Longrightarrow> currency_of a = currency_of b \<Longrightarrow> a = (b :: amount)"
  by (cases a; cases b) (simp add: signed_word_eqI)

text \<open>What a transfer reserved and another released: the same sum, and every total as it was.\<close>

lemma release_undoes_reserve:
  assumes rs: "reserve M taken i u = (Inr rs, u1)" and ok: "store_ok (db u)"
    and es: "entries_from (confirmed_of (db u) m c) = Inr (taken @ rest)"
    and fresh: "\<forall>t\<in>set (transitions (db u)). t_ref t \<noteq> rs_transfer rs"
    and later: "entries (db x) = entries (db u1)" "transitions (db x) = transitions (db u1)"
    and rl: "release M' (map (moved_to StReserved) taken) j x = (Inr rs', x1)"
  shows "rs_amount rs' = rs_amount rs" and "stage_total (db x1) = stage_total (db u)"
proof -
  have mt: "move_together M taken StConfirmed StReserved (reservation_key (uuid_str M) i) i u = (Inr rs, u1)"
    using rs by (simp add: reserve_def)
  have rows: "\<forall>e\<in>set taken. row_of (db u) e" using confirmed_rows [OF ok es] by simp
  obtain m0 where m0: "taken \<noteq> []" "\<forall>e\<in>set taken. en_member e = m0 \<and> en_state e = StConfirmed \<and>
        currency_of (en_amount e) = currency_of (rs_amount rs)"
    and sum: "sint (minor (rs_amount rs)) = entry_sum taken" and ok1: "store_ok (db u1)"
    and tot: "\<And>m s c. stage_total (db u1) m s c = stage_total (db u) m s c +
       (if m = m0 \<and> c = currency_of (rs_amount rs)
        then (if s = StReserved then entry_sum taken else 0) - (if s = StConfirmed then entry_sum taken else 0) else 0)"
    by (rule move_together_Inr [OF mt ok rows]) (rule that; assumption)
  let ?hs = "map (moved_to StReserved) taken"
  have rel: "move_together M' ?hs StReserved StConfirmed (release_key (uuid_str M') j) j x = (Inr rs', x1)"
    using rl by (simp add: release_def)
  have ok': "store_ok (db x)" "\<forall>e\<in>set ?hs. row_of (db x) e"
    using reservation_found(2) [OF rs ok es fresh later] store_ok_cong [OF later(1)] ok1 by (simp_all add: row_of_state)
  obtain m1 where m1: "\<forall>e\<in>set ?hs. en_member e = m1 \<and> en_state e = StReserved \<and>
      currency_of (en_amount e) = currency_of (rs_amount rs')"
    and sum': "sint (minor (rs_amount rs')) = entry_sum ?hs"
    and tot': "\<And>m s c. stage_total (db x1) m s c = stage_total (db x) m s c +
     (if m = m1 \<and> c = currency_of (rs_amount rs')
      then (if s = StConfirmed then entry_sum ?hs else 0) - (if s = StReserved then entry_sum ?hs else 0) else 0)"
    by (rule move_together_Inr [OF rel ok']) (rule that; assumption)
  have first: "hd taken \<in> set taken" "moved_to StReserved (hd taken) \<in> set ?hs" using m0(1) by simp_all
  have same: "m1 = m0" "currency_of (rs_amount rs') = currency_of (rs_amount rs)"
    using bspec [OF m0(2) first(1)] bspec [OF m1 first(2)] by (simp_all add: moved_to_def)
  show "rs_amount rs' = rs_amount rs" using sum sum' same(2) by (intro same_sum) (simp_all add: entry_sum_moved)
  show "stage_total (db x1) = stage_total (db u)"
    by (intro ext) (use tot tot' same stage_total_cong [OF later(1)] in \<open>simp add: entry_sum_moved\<close>)
qed

lemma release_same_pay: "release M es i w = (r, v) \<Longrightarrow> withdrawals (db v) = withdrawals (db w) \<and> payouts (db v) = payouts (db w)"
  unfolding release_def using keepsD [OF move_together_same_pay] by (fastforce simp: same_pay_def)

text \<open>The row a request wrote, found again by its identifier and its transfer.\<close>

lemma requested_row:
  assumes "request_withdrawal M threshold i q w = (Inr made, v)" and "store_ok (db w)"
    and fresh: "\<forall>t\<in>set (transitions (db w)). t_ref t \<noteq> wd_ref made"
  obtains taken rest rs u u1 row where "find_withdrawal (db v) i = Some row" "withdrawal_from row = Inr made"
    "wr_state row = StateAwaitingApproval" "reserve M taken i u = (Inr rs, u1)" "db u = db w" "wd_amount made = rs_amount rs"
    "entries_from (confirmed_of (db u) (ask_member q) (currency_of (ask_amount q))) = Inr (taken @ rest)"
    "wr_ref row = rs_transfer rs" "rs_transfer rs = wd_ref made"
    "entries (db v) = entries (db u1)" "transitions (db v) = transitions (db u1)" "payouts (db v) = payouts (db w)"
    "\<exists>rows. fst (entries_reserved_under (rs_transfer rs) (db v)) = Inr rows \<and>
       entries_from rows = Inr (map (moved_to StReserved) taken)"
  using assms(1)
proof (rule request_withdrawal_Inr)
  fix taken rest rs u u1 row d1
  assume es: "entries_from (confirmed_of (db w) (ask_member q) (currency_of (ask_amount q))) = Inr (taken @ rest)"
    and u: "db u = db w" and rs: "reserve M taken i u = (Inr rs, u1)"
    and cr: "create_withdrawal (clock u1) (request_row i q rs) (db u1) = (Inr row, d1)"
    and made: "withdrawal_from row = Inr made"
    and v: "db v = d1\<lparr>outbox := outbox d1 @ [WithdrawalRequested (wd_id made) (wd_member made) (wd_amount made) (wd_requested made)],
       moved := []\<rparr>"
  note c = create_withdrawal_Inr [OF cr]
  have id: "wr_id row = i" "wr_state row = StateAwaitingApproval" "wr_ref row = rs_transfer rs" "rs_transfer rs = wd_ref made"
      "wd_amount made = rs_amount rs"
    using c(1) made by (auto simp: request_row_def withdrawal_from_Inr)
  have dv: "entries (db v) = entries (db u1)" "transitions (db v) = transitions (db u1)"
    "withdrawals (db v) = withdrawals (db u1) @ [row]" "payouts (db v) = payouts (db u1)"
    by (simp_all add: v c(2))
  have ok: "store_ok (db u)" using assms(2) u by simp
  have "find_withdrawal (db v) i = Some row"
    using c(4) id(1) by (simp add: find_withdrawal_def dv(3) find_appended)
  moreover have "payouts (db v) = payouts (db w)"
    using rs keepsD [OF move_together_same_pay] u unfolding reserve_def dv(4) by (fastforce simp: same_pay_def)
  ultimately show thesis
    using that made id(2) rs u id(5) es id(3,4) dv(1,2) reservation_found(1) [OF rs ok es [folded u] _ dv(1,2)] fresh by metis
qed

text \<open>(C10) A request that is refused leaves the member's money as it was before the request. Provided the ledger
  named the reservation's transfer afresh, the refusal finds exactly the entries the request took, moves
  them back, and releases the very amount the request recorded; every total is the one before the request
  was made, the request is closed as rejected, and there is no payout for it.\<close>

theorem a_refusal_gives_everything_back:
  assumes "request_withdrawal M threshold i q w = (Inr made, v)" and "store_ok (db w)"
    and fresh: "\<forall>t\<in>set (transitions (db w)). t_ref t \<noteq> wd_ref made"
    and later: "db v' = db v" and refused: "reject_withdrawal M' r v' = (Inr out, z)" "rn_request r = i"
  shows "rw_released out = wd_amount made \<and> (\<forall>m s c. stage_total (db z) m s c = stage_total (db w) m s c) \<and>
    rw_request out = made\<lparr>wd_state := StateRejected, wd_by := rn_operator r, wd_at := wd_at (rw_request out),
      wd_reason := trim_space (rn_reason r)\<rparr> \<and>
    payouts (db z) = payouts (db w)"
  using assms(1-3)
proof (rule requested_row)
  fix taken rest rs u u1 row
  assume row: "find_withdrawal (db v) i = Some row" "withdrawal_from row = Inr made" "wr_ref row = rs_transfer rs"
    and rs: "reserve M taken i u = (Inr rs, u1)" "db u = db w" "wd_amount made = rs_amount rs" "rs_transfer rs = wd_ref made"
      "entries_from (confirmed_of (db u) (ask_member q) (currency_of (ask_amount q))) = Inr (taken @ rest)"
    and dv: "entries (db v) = entries (db u1)" "transitions (db v) = transitions (db u1)" "payouts (db v) = payouts (db w)"
    and found: "\<exists>rows. fst (entries_reserved_under (rs_transfer rs) (db v)) = Inr rows \<and>
       entries_from rows = Inr (map (moved_to StReserved) taken)"
  show ?thesis using refused(1)
  proof (rule reject_withdrawal_Inr)
    fix row0 hs rs' x x1 row' d2 ev
    assume f: "find_withdrawal (db v') (rn_request r) = Some row0"
      and h: "\<exists>rows. fst (entries_reserved_under (wr_ref row0) (db v')) = Inr rows \<and> entries_from rows = Inr hs"
      and x: "unmoved v' x" and rl: "release M' hs (rn_request r) x = (Inr rs', x1)"
      and dec: "record_decision (clock x1) (rn_request r) StateAwaitingApproval StateRejected (rn_operator r)
         (Some (trim_space (rn_reason r))) (db x1) = (Inr row', d2)"
      and z: "db z = d2\<lparr>outbox := outbox d2 @ [ev], moved := []\<rparr>" and out: "withdrawal_from row' = Inr (rw_request out)"
        "rw_released out = rs_amount rs'"
    have x': "db x = db v" using x later by (simp add: unmoved_def)
    have hs: "hs = map (moved_to StReserved) taken" using h found f row(1,3) refused(2) later by auto
    note undone = release_undoes_reserve [OF rs(1) _ rs(5) _ _ _ rl [unfolded hs]]
    have tot: "rs_amount rs' = rs_amount rs" "stage_total (db x1) = stage_total (db w)"
      using undone assms(2) fresh rs(2,4) dv(1,2) x' by simp_all
    obtain row1 where row1: "find_withdrawal (db x1) i = Some row1" "d2 = set_withdrawal row' (db x1)"
      "row' = row1\<lparr>wr_state := StateRejected, wr_decided_by := Some (rn_operator r), wr_decided_at := Some (clock x1),
         wr_reason := Some (trim_space (rn_reason r))\<rparr>"
      using dec refused(2) by (auto elim: record_decision_Inr)
    have "row1 = row" using row1(1) row(1) release_same_pay [OF rl] x' by (simp add: find_withdrawal_def)
    then have req: "rw_request out = made\<lparr>wd_state := StateRejected, wd_by := rn_operator r, wd_at := wd_at (rw_request out),
      wd_reason := trim_space (rn_reason r)\<rparr>"
      using out(1) row(2) row1(3) by (auto simp: withdrawal_from_Inr or_nil_def or_empty_def)
    have ent: "entries (db z) = entries (db x1)" "payouts (db z) = payouts (db x1)"
      by (simp_all add: z row1(2) set_withdrawal_def)
    show ?thesis
      using tot out(2) rs(3) ent(2) dv(3) release_same_pay [OF rl] x' req stage_total_cong [OF ent(1)] by simp
  qed
qed

definition asked_world :: "unit world" where
  "asked_world = easy_world\<lparr>db := earned_books\<lparr>
     entries := [earned_row\<lparr>e_state := StReserved\<rparr>],
     transitions := [\<lparr>t_id = 100, t_entry = 50, t_from = Some StConfirmed, t_to = StReserved,
       t_ref = ''withdrawal:u:reserve'', t_reason = None, t_actor = None, t_at = 9\<rparr>],
     links := [\<lparr>l_transition = 100, l_entry = 50, l_ref = ''withdrawal:u:reserve''\<rparr>],
     outbox := [EntryStateChanged 50 StConfirmed StReserved ''withdrawal:u:reserve'' 9,
       WithdrawalRequested 900 7 \<lparr>minor = 250, currency_of = ''EUR''\<rparr> 9],
     withdrawals := [\<lparr>wr_id = 900, wr_account = 7, wr_destination = 3, wr_minor = 250, wr_currency = ''EUR'',
       wr_state = StateAwaitingApproval, wr_requested = 9, wr_ref = ''withdrawal:u:reserve'', wr_decided_by = None,
       wr_decided_at = None, wr_reason = None\<rparr>],
     minted := 1\<rparr>\<rparr>"

definition sample_refusal :: rejection where
  "sample_refusal = \<lparr>rn_request = 900, rn_operator = 9, rn_reason = '' why ''\<rparr>"

lemma easily_asked_world: "snd easily_asked = asked_world"
  by code_simp

lemma refused_evaluated: "(case reject_withdrawal easy_machine sample_refusal asked_world of (x, z) \<Rightarrow>
     (case x of Inl _ \<Rightarrow> False | Inr out \<Rightarrow> map e_state (entries (db z)) = [StConfirmed]))"
  by code_simp

theorem a_refusal_gives_everything_back_witness:
  "\<exists>made out z. easily_asked = (Inr made, asked_world) \<and> reject_withdrawal easy_machine sample_refusal asked_world = (Inr out, z) \<and>
     rw_released out = wd_amount made \<and> (\<forall>m s c. stage_total (db z) m s c = stage_total earned_books m s c)"
proof -
  obtain made v where r: "easily_asked = (Inr made, v)"
    using easily_asked_evaluated by (auto split: prod.splits sum.splits)
  then have made: "easily_asked = (Inr made, asked_world)" using easily_asked_world by (metis snd_conv)
  obtain out z where out: "reject_withdrawal easy_machine sample_refusal asked_world = (Inr out, z)"
    using refused_evaluated by (auto split: prod.splits sum.splits)
  have "db easy_world = earned_books" "transitions (db easy_world) = []" "rn_request sample_refusal = 900"
    by (simp_all add: sample_refusal_def easy_world_def earned_books_def)
  with a_refusal_gives_everything_back [OF made [unfolded easily_asked_def] easy_world_ok _ refl out] made out
  show ?thesis by auto
qed

section \<open>Settling moves no entry\<close>

lemma call_db_same_entries:
  assumes "\<And>d. same_entries d (snd (st d))" and "call_db st w = (r, v)"
  shows "same_entries (db w) (db v) \<and> ledger v = ledger w"
proof (cases "ctx_done w")
  case True
  with assms(2) show ?thesis by (simp add: call_db_def same_entries_def)
next
  case False
  obtain y d where "st (db w) = (y, d)" by fastforce
  with False assms(1) [of "db w"] assms(2) show ?thesis by (auto simp: call_db_def)
qed

definition books_kept :: "'l world \<Rightarrow> 'l world \<Rightarrow> bool" where
  "books_kept w v \<longleftrightarrow> same_entries (db w) (db v) \<and> ledger v = ledger w"

lemma books_kept_rel [simp, intro!]: "reflp books_kept" "transp books_kept"
  by (auto simp: reflp_def transp_def books_kept_def same_entries_def)

lemma statements_books_kept:
  "keeps books_kept (call_db (get_payout i))" "keeps books_kept (call_db (record_outcome now i from to nref))"
  "keeps books_kept (call_db (mark_withdrawal_paid i))" "keeps books_kept (call_db commit_tx)"
  "keeps books_kept (call_db (append_event ustr ev))"
  unfolding keeps_def books_kept_def
  by (rule allI, rule call_db_same_entries, rule payout_statements_entries, rule surjective_pairing)+

lemma in_tx_books_kept:
  assumes "keeps books_kept m"
  shows "keeps books_kept (in_tx f m)"
proof (unfold keeps_def, rule allI)
  fix w
  obtain y u where m: "m w = (y, u)" by fastforce
  obtain z t where c: "call_db commit_tx u = (z, t)" by fastforce
  show "books_kept w (snd (in_tx f m w))"
    using keepsD [OF assms m] keepsD [OF statements_books_kept(4) c] m c
    by (auto simp: in_tx_def books_kept_def same_entries_def split: sum.split)
qed

lemma record_arrival_books_kept: "keeps books_kept (record_arrival M request operator bank)"
proof -
  have step: "keeps books_kept (\<lambda>w. wrap_error g (call_db (record_outcome (clock w) i s s' nref)) w)" for g i s s' nref
    unfolding keeps_def by (rule allI, rule keeps_snd) (intro keeps_wrap_error statements_books_kept)
  have ann: "keeps books_kept (announce_settled M p a)" for p a
    unfolding announce_settled_def announce_pay_def
    by (intro keeps_if keeps_intros statements_books_kept books_kept_rel)
  show ?thesis
    unfolding record_arrival_def arrival_body_def
    by (intro in_tx_books_kept keeps_if keeps_intros step ann statements_books_kept books_kept_rel)
qed


lemma find_set_withdrawal:
  "find_withdrawal (set_withdrawal r d) i = (if i = wr_id r \<and> find_withdrawal d i \<noteq> None then Some r else find_withdrawal d i)"
proof -
  have "find (\<lambda>x. wr_id x = i) (map (\<lambda>x. if wr_id x = wr_id r then r else x) rows) =
     (if i = wr_id r \<and> find (\<lambda>x. wr_id x = i) rows \<noteq> None then Some r else find (\<lambda>x. wr_id x = i) rows)" for rows
    by (induction rows) auto
  then show ?thesis by (auto simp: find_withdrawal_def set_withdrawal_def)
qed

lemma find_withdrawal_cong: "withdrawals d = withdrawals d' \<Longrightarrow> find_withdrawal d = find_withdrawal d'"
  by (rule ext) (simp add: find_withdrawal_def)

lemma announce_settled_Inr: "announce_settled M p actor w = (Inr x, v) \<Longrightarrow>
   withdrawals (db v) = withdrawals (db w) \<and> payouts (db v) = payouts (db w)"
  by (auto dest!: announcements_pay_Inr(4))

text \<open>An arrival taken apart: the payout it settled and the request it closed.\<close>

lemma record_arrival_Inr:
  assumes "record_arrival M request operator bank w = (Inr s, v)" and "distinct (map po_id (payouts (db w)))"
  obtains p now r d where "find_payout (db w) request = Some p" "po_state p = StatusSubmitted"
    "find_withdrawal (db w) request = Some r" "wr_state r = StateApproved"
    "withdrawals (db v) = withdrawals (set_withdrawal (r\<lparr>wr_state := StatePaid\<rparr>) (db w))"
    "payouts (db v) = payouts (set_payout (p\<lparr>po_state := StatusSettled, po_settled := Some now,
       po_rail_ref := (case text_or_null bank of None \<Rightarrow> po_rail_ref p | Some b \<Rightarrow> Some b)\<rparr>) (db w))"
    "payout_from (uuid_str M) (p\<lparr>po_state := StatusSettled, po_settled := Some now,
       po_rail_ref := (case text_or_null bank of None \<Rightarrow> po_rail_ref p | Some b \<Rightarrow> Some b)\<rparr>) = Inr (st_payout s)"
    "st_status s = StatusSettled" "st_released s = None"
proof -
  obtain z where body: "arrival_body M request operator bank w = (Inr s, z)" and v: "db v = (db z)\<lparr>moved := []\<rparr>"
    using assms(1) by (auto simp: record_arrival_def elim: in_tx_Inr)
  obtain row waiting u arow u1 arrived prow u2 where
    get: "call_db (get_payout request) w = (Inr row, u)" and wt: "payout_from (uuid_str M) row = Inr waiting"
    and st: "pt_state waiting = StatusSubmitted"
    and out: "call_db (record_outcome (clock u) (pt_id waiting) StatusSubmitted StatusSettled (text_or_null bank)) u = (Inr arow, u1)"
    and arr: "payout_from (uuid_str M) arow = Inr arrived"
    and paid: "call_db (mark_withdrawal_paid request) u1 = (Inr prow, u2)"
    and ann: "announce_settled M arrived operator u2 = (Inr (), z)"
    and s: "s = \<lparr>st_payout = arrived, st_status = StatusSettled, st_released = None\<rparr>"
    using body unfolding arrival_body_def and_then_Inr wrap_error_Inr from_sum_eq
    by (auto simp: and_then_Inr wrap_error_Inr from_sum_eq give_eq refuse_eq split: if_splits)
  have g: "find_payout (db w) request = Some row" "db u = db w"
    using read_through [OF reads_keep(2) get] by (simp_all add: get_payout_Inr unmoved_def)
  have row: "row \<in> set (payouts (db w))" "po_request row = request" using find_payout_Some [OF g(1)] by simp_all
  obtain d1 where d1: "record_outcome (clock u) (po_id row) StatusSubmitted StatusSettled (text_or_null bank) (db w) = (Inr arow, d1)"
      "db u1 = d1"
    using out wt g(2) by (auto simp: call_db_Inr payout_from_Inr)
  obtain d2 where d2: "mark_withdrawal_paid request d1 = (Inr prow, d2)" "db u2 = d2"
    using paid d1(2) by (auto simp: call_db_Inr)
  obtain p where p: "find (\<lambda>p. po_id p = po_id row) (payouts (db w)) = Some p"
     "arow = p\<lparr>po_state := StatusSettled, po_settled := Some (clock u),
       po_rail_ref := (case text_or_null bank of None \<Rightarrow> po_rail_ref p | Some b \<Rightarrow> Some b)\<rparr>"
     "d1 = set_payout arow (db w)"
    by (rule record_outcome_Inr [OF d1(1)]) (auto intro: that)
  have "p \<in> set (payouts (db w))" "po_id p = po_id row" using p(1) by (auto simp: find_Some_iff)
  then have same: "p = row" using assms(2) row(1) by (auto simp: distinct_map dest: inj_onD)
  obtain r where r: "find_withdrawal d1 request = Some r" "wr_state r = StateApproved"
      "d2 = set_withdrawal (r\<lparr>wr_state := StatePaid\<rparr>) d1"
    using d2(1) by (auto elim: mark_withdrawal_paid_Inr)
  have an: "withdrawals (db z) = withdrawals (db u2)" "payouts (db z) = payouts (db u2)" using announce_settled_Inr [OF ann] by simp_all
  show thesis
    by (rule that [of row r "clock u"])
      (use g(1) st wt r p(2,3) same d2(2) an v s arr in
        \<open>auto simp: payout_from_Inr find_withdrawal_def set_payout_def set_withdrawal_def\<close>)
qed

lemma at_base_eq: "at_base m (w, s) = (x, (v, s')) \<longleftrightarrow> m w = (x, v) \<and> s' = s"
  by (auto simp: at_base_def split: prod.splits)

text \<open>(C17) Settling a withdrawal moves no money. When a payout is settled by what the rail says, the payout
  and its request are closed (settled, paid) and the rail's own state is as it was; but every entry keeps
  its state and its history, no transfer is linked and the ledger is not asked, so what was reserved for
  the request is still in the reserved stage afterwards.\<close>

theorem settling_moves_no_money:
  assumes "settle M R say request (w, t) = (Inr s, (v, t'))" and "st_status s \<noteq> StatusFailed"
  shows "t' = t \<and> ledger v = ledger w \<and> entries (db v) = entries (db w) \<and> transitions (db v) = transitions (db w) \<and>
    links (db v) = links (db w) \<and> (\<forall>m st c. stage_total (db v) m st c = stage_total (db w) m st c) \<and>
    (st_status s = StatusSettled \<longrightarrow> distinct (map po_id (payouts (db w))) \<longrightarrow>
       (\<exists>r. find_withdrawal (db v) request = Some r \<and> wr_state r = StatePaid) \<and>
       pt_state (st_payout s) = StatusSettled)"
proof -
  obtain waiting u named status u1 where sub: "submitted M request w = (Inr waiting, u)"
    and q: "call_query R named (u, t) = (Inr status, (u1, t'))"
    and on: "on_status M say request waiting status u1 = (Inr s, v)"
    using assms(1) unfolding settle_def
    by (auto simp: and_then_Inr wrap_error_Inr from_sum_eq refuse_eq at_base_eq split: if_splits)
  have u: "unmoved w u"
  proof -
    obtain row where "call_db (get_payout request) w = (Inr row, u)"
      using sub by (auto simp: submitted_def effects split: if_splits)
    from read_through [OF reads_keep(2) this] show ?thesis by simp
  qed
  have u1: "db u1 = db w" "ledger u1 = ledger w" "t' = t" using q u by (auto simp: call_query_def unmoved_def)
  have not_failed: "status \<noteq> StatusFailed" using on assms(2)
    by (auto simp: on_status_def effects split: if_splits)
  show ?thesis
  proof (cases "status = StatusSettled")
    case True
    then have arr: "record_arrival M request nil_uuid [] u1 = (Inr s, v)" using on by (simp add: on_status_def)
    have kept: "books_kept u1 v" using keepsD [OF record_arrival_books_kept arr] .
    moreover have "(\<exists>r. find_withdrawal (db v) request = Some r \<and> wr_state r = StatePaid) \<and> pt_state (st_payout s) = StatusSettled"
      if "distinct (map po_id (payouts (db w)))"
    proof (rule record_arrival_Inr [OF arr])
      show "distinct (map po_id (payouts (db u1)))" using that u1(1) by simp
    next
      fix p now r
      assume r: "find_withdrawal (db u1) request = Some r"
        "withdrawals (db v) = withdrawals (set_withdrawal (r\<lparr>wr_state := StatePaid\<rparr>) (db u1))"
        and p: "payout_from (uuid_str M) (p\<lparr>po_state := StatusSettled, po_settled := Some now,
           po_rail_ref := (case text_or_null [] of None \<Rightarrow> po_rail_ref p | Some b \<Rightarrow> Some b)\<rparr>) = Inr (st_payout s)"
      have "find_withdrawal (db v) request = Some (r\<lparr>wr_state := StatePaid\<rparr>)"
        unfolding find_withdrawal_cong [OF r(2)] using r(1) find_withdrawal_Some [OF r(1)] by (simp add: find_set_withdrawal)
      with p show ?thesis by (auto simp: payout_from_Inr)
    qed
    ultimately show ?thesis using u1 stage_total_cong [of "db v" "db w"]
      by (auto simp: books_kept_def same_entries_def)
  next
    case False
    then show ?thesis using on not_failed u1 by (auto simp: on_status_def give_eq)
  qed
qed


definition sent_payout :: payout_row where
  "sent_payout = \<lparr>po_id = 101, po_brand = ''b'', po_request = 900, po_approver = 9, po_minor = 250, po_currency = ''EUR'',
     po_rail = KindStub, po_rail_ref = Some ''stub:payout:u'', po_state = StatusSubmitted, po_submitted = 9, po_settled = None\<rparr>"

definition sent_request :: withdrawal_row where
  "sent_request = \<lparr>wr_id = 900, wr_account = 7, wr_destination = 3, wr_minor = 250, wr_currency = ''EUR'',
     wr_state = StateApproved, wr_requested = 9, wr_ref = ''withdrawal:u:reserve'', wr_decided_by = Some 9,
     wr_decided_at = Some 9, wr_reason = None\<rparr>"

definition sent_world :: "unit world" where
  "sent_world = asked_world\<lparr>db := (db asked_world)\<lparr>withdrawals := [sent_request], payouts := [sent_payout],
     outbox := outbox (db asked_world) @ [WithdrawalApproved 900 7 \<lparr>minor = 250, currency_of = ''EUR''\<rparr> 9 9], minted := 2\<rparr>\<rparr>"

definition sent_stub :: stub_state where
  "sent_stub = new_stub\<lparr>stub_submitted := [(''payout:u'', ''stub:payout:u'')]\<rparr>"

definition settled_stub :: stub_state where
  "settled_stub = sent_stub\<lparr>stub_settled := [''stub:payout:u'']\<rparr>"

lemma approved_evaluated:
  "snd (approve easy_machine stub_rail ''APIVO'' \<lparr>ap_request = 900, ap_operator = 9\<rparr> (asked_world, new_stub)) =
     (sent_world, sent_stub)"
  by code_simp

lemma settled_evaluated:
  "(case settle easy_machine stub_rail (\<lambda>_. ''no'') 900 (sent_world, settled_stub) of
      (x, (v, t)) \<Rightarrow> (case x of Inl _ \<Rightarrow> False | Inr s \<Rightarrow> st_status s = StatusSettled))"
  by code_simp

theorem settling_moves_no_money_witness:
  "\<exists>s v t. settle easy_machine stub_rail (\<lambda>_. ''no'') 900 (sent_world, settled_stub) = (Inr s, (v, t)) \<and>
     (\<exists>r. find_withdrawal (db v) 900 = Some r \<and> wr_state r = StatePaid) \<and>
     map e_state (entries (db v)) = [StReserved]"
proof -
  obtain s v t where r: "settle easy_machine stub_rail (\<lambda>_. ''no'') 900 (sent_world, settled_stub) = (Inr s, (v, t))"
      "st_status s = StatusSettled"
    using settled_evaluated by (auto split: prod.splits sum.splits)
  have "distinct (map po_id (payouts (db sent_world)))" "map e_state (entries (db sent_world)) = [StReserved]"
    "StatusSettled \<noteq> StatusFailed" by code_simp+
  with settling_moves_no_money [OF r(1)] r show ?thesis by auto
qed

end
