(* ===== verification/PaymentSteps.thy ===== *)
theory PaymentSteps
  imports Payments
begin

text \<open>
  The life of one withdrawal as a small machine of phases, what each transaction of the payout operations
  (\<open>internal/cashback/payout\<close>) writes, and that a transaction is at most one step of the machine.
\<close>

section \<open>The life of a withdrawal\<close>

text \<open>What the two tables say of a request together. \<open>Torn\<close> is anything else: a payout without its request, an
  approved request without its payout, or two rows that disagree.\<close>

datatype phase =
    Unasked | Asked amount | Refused amount
  | Sent amount uuid "string option" | Arrived amount uuid "string option" | Returned amount uuid "string option"
  | Torn

definition requested_amount :: "withdrawal_row \<Rightarrow> amount" where
  "requested_amount r = \<lparr>minor = wr_minor r, currency_of = wr_currency r\<rparr>"

definition agrees :: "withdrawal_row \<Rightarrow> payout_row \<Rightarrow> bool" where
  "agrees r p \<longleftrightarrow> po_minor p = wr_minor r \<and> po_currency p = wr_currency r \<and> wr_decided_by r = Some (po_approver p)"

definition phase_of_rows :: "withdrawal_row option \<Rightarrow> payout_row option \<Rightarrow> phase" where
  "phase_of_rows x y =
     (case x of
        None \<Rightarrow> (case y of None \<Rightarrow> Unasked | Some _ \<Rightarrow> Torn)
      | Some r \<Rightarrow>
          (case y of
             None \<Rightarrow>
               if wr_state r = StateAwaitingApproval then Asked (requested_amount r)
               else if wr_state r = StateRejected then Refused (requested_amount r) else Torn
           | Some p \<Rightarrow>
               if \<not> agrees r p then Torn
               else if wr_state r = StateApproved \<and> po_state p = StatusSubmitted
                 then Sent (requested_amount r) (po_approver p) (po_rail_ref p)
               else if wr_state r = StatePaid \<and> po_state p = StatusSettled
                 then Arrived (requested_amount r) (po_approver p) (po_rail_ref p)
               else if wr_state r = StateFailed \<and> po_state p = StatusFailed
                 then Returned (requested_amount r) (po_approver p) (po_rail_ref p)
               else Torn))"

definition phase_of :: "earn_db \<Rightarrow> uuid \<Rightarrow> phase" where
  "phase_of d i = phase_of_rows (find_withdrawal d i) (find_payout d i)"

inductive phase_step :: "phase \<Rightarrow> phase \<Rightarrow> bool" where
  ask: "phase_step Unasked (Asked a)"
| turn_down: "phase_step (Asked a) (Refused a)"
| send: "phase_step (Asked a) (Sent a u None)"
| acknowledge: "phase_step (Sent a u None) (Sent a u (Some ref))"
| acknowledge_late: "phase_step (Arrived a u None) (Arrived a u (Some ref))"
| acknowledge_lost: "phase_step (Returned a u None) (Returned a u (Some ref))"
| arrive: "phase_step (Sent a u ref) (Arrived a u ref)"
| arrive_at_the_bank: "phase_step (Sent a u ref) (Arrived a u (Some bank))"
| come_back: "phase_step (Sent a u ref) (Returned a u ref)"

inductive_cases phase_step_elims:
  "phase_step (Refused a) f" "phase_step (Arrived a u r) f" "phase_step (Returned a u r) f" "phase_step Torn f"

definition pay_ok :: "earn_db \<Rightarrow> bool" where
  "pay_ok d \<longleftrightarrow> distinct (map wr_id (withdrawals d)) \<and> distinct (map po_id (payouts d)) \<and>
     distinct (map po_request (payouts d)) \<and> (\<forall>i. phase_of d i \<noteq> Torn)"

text \<open>The changes the statements of one transaction make to the two tables.\<close>

inductive pay_write :: "earn_db \<Rightarrow> earn_db \<Rightarrow> bool" where
  unchanged: "pay_write d d'" if "withdrawals d' = withdrawals d" "payouts d' = payouts d"
| requested: "pay_write d d'" if "withdrawals d' = withdrawals d @ [r]" "payouts d' = payouts d"
    "wr_state r = StateAwaitingApproval" "\<forall>x\<in>set (withdrawals d). wr_id x \<noteq> wr_id r"
| refused: "pay_write d d'" if "find_withdrawal d i = Some r" "wr_state r = StateAwaitingApproval"
    "withdrawals d' = withdrawals (set_withdrawal (r\<lparr>wr_state := StateRejected, wr_decided_by := by_whom,
       wr_decided_at := at_time, wr_reason := reason\<rparr>) d)" "payouts d' = payouts d"
| approved: "pay_write d d'" if "find_withdrawal d i = Some r" "wr_state r = StateAwaitingApproval"
    "withdrawals d' = withdrawals (set_withdrawal (r\<lparr>wr_state := StateApproved, wr_decided_by := Some (po_approver p),
       wr_decided_at := at_time, wr_reason := reason\<rparr>) d)"
    "payouts d' = payouts d @ [p]" "po_request p = i" "po_minor p = wr_minor r" "po_currency p = wr_currency r"
    "po_state p = StatusSubmitted" "po_rail_ref p = None" "\<forall>x\<in>set (payouts d). po_id x \<noteq> po_id p \<and> po_request x \<noteq> i"
| acknowledged: "pay_write d d'" if "p \<in> set (payouts d)" "po_rail_ref p = None" "withdrawals d' = withdrawals d"
    "payouts d' = payouts (set_payout (p\<lparr>po_rail_ref := Some ref\<rparr>) d)"
| arrived: "pay_write d d'" if "find_payout d i = Some p" "po_state p = StatusSubmitted"
    "find_withdrawal d i = Some r" "wr_state r = StateApproved"
    "withdrawals d' = withdrawals (set_withdrawal (r\<lparr>wr_state := StatePaid\<rparr>) d)"
    "payouts d' = payouts (set_payout (p\<lparr>po_state := StatusSettled, po_settled := at_time,
       po_rail_ref := (case bank of None \<Rightarrow> po_rail_ref p | Some b \<Rightarrow> Some b)\<rparr>) d)"
| failed: "pay_write d d'" if "find_payout d i = Some p" "po_state p = StatusSubmitted"
    "find_withdrawal d i = Some r" "wr_state r = StateApproved"
    "withdrawals d' = withdrawals (set_withdrawal (r\<lparr>wr_state := StateFailed, wr_decided_by := Some (po_approver p),
       wr_decided_at := at_time, wr_reason := reason\<rparr>) d)"
    "payouts d' = payouts (set_payout (p\<lparr>po_state := StatusFailed, po_settled := None, po_rail_ref := po_rail_ref p\<rparr>) d)"

lemma find_payout_cong: "payouts d = payouts d' \<Longrightarrow> find_payout d = find_payout d'"
  by (rule ext) (simp add: find_payout_def)

lemma find_set_payout:
  assumes "p0 \<in> set (payouts d)" and "po_id p = po_id p0" and "po_request p = po_request p0"
    and "distinct (map po_id (payouts d))" and "distinct (map po_request (payouts d))"
  shows "find_payout (set_payout p d) q = (if q = po_request p0 then Some p else find_payout d q)"
proof -
  have "find (\<lambda>x. po_request x = q) (map (\<lambda>x. if po_id x = po_id p then p else x) rows) =
     (if q = po_request p0 then Some p else find (\<lambda>x. po_request x = q) rows)"
    if "p0 \<in> set rows" "distinct (map po_id rows)" "distinct (map po_request rows)" for rows
    using that
  proof (induction rows)
    case (Cons x rows)
    show ?case
    proof (cases "x = p0")
      case True
      then have "\<forall>y\<in>set rows. po_id y \<noteq> po_id p" using Cons.prems(2) assms(2) by (auto simp: image_iff)
      then have "map (\<lambda>x. if po_id x = po_id p then p else x) rows = rows" by (intro map_idI) auto
      then show ?thesis using True assms(2,3) by auto
    next
      case False
      then have "po_id x \<noteq> po_id p" "po_request x \<noteq> po_request p0" "p0 \<in> set rows" using Cons.prems assms(2) by force+
      then show ?thesis using Cons by auto
    qed
  qed simp
  then show ?thesis using assms by (simp add: find_payout_def set_payout_def)
qed

lemma find_key: "distinct (map f xs) \<Longrightarrow> x \<in> set xs \<Longrightarrow> find (\<lambda>y. f y = f x) xs = Some x"
  by (induction xs) force+

lemma find_added: "\<forall>x\<in>set xs. f x \<noteq> f y \<Longrightarrow> find (\<lambda>x. f x = i) (xs @ [y]) = (if i = f y then Some y else find (\<lambda>x. f x = i) xs)"
  by (induction xs) auto

lemma find_payout_unique:
  "distinct (map po_request (payouts d)) \<Longrightarrow> p \<in> set (payouts d) \<Longrightarrow> find_payout d (po_request p) = Some p"
  unfolding find_payout_def by (rule find_key)

lemma set_payout_ids:
  assumes "p0 \<in> set (payouts d)" and "po_id p = po_id p0" and "po_request p = po_request p0"
    and "distinct (map po_id (payouts d))"
  shows "map po_id (payouts (set_payout p d)) = map po_id (payouts d)"
    and "map po_request (payouts (set_payout p d)) = map po_request (payouts d)"
  using assms by (auto simp: set_payout_def distinct_map dest: inj_onD)

lemma set_withdrawal_ids: "map wr_id (withdrawals (set_withdrawal r d)) = map wr_id (withdrawals d)"
  by (simp add: set_withdrawal_def)

lemma distinct_add: "distinct (map f xs) \<Longrightarrow> \<forall>x\<in>set xs. f x \<noteq> f y \<Longrightarrow> distinct (map f (xs @ [y]))"
  by auto

lemma pay_write_distinct:
  assumes "pay_write d d'" and "distinct (map wr_id (withdrawals d))" and "distinct (map po_id (payouts d))"
    and "distinct (map po_request (payouts d))"
  shows "distinct (map wr_id (withdrawals d')) \<and> distinct (map po_id (payouts d')) \<and> distinct (map po_request (payouts d'))"
  using assms(1)
proof cases
  case (acknowledged p ref)
  have "map po_id (payouts d') = map po_id (payouts d)" "map po_request (payouts d') = map po_request (payouts d)"
    unfolding acknowledged(4) by (rule set_payout_ids [OF acknowledged(1)], simp_all add: assms(3))+
  with acknowledged(3) assms show ?thesis by simp
next
  case (arrived i p r bank at_time)
  have "map po_id (payouts d') = map po_id (payouts d)" "map po_request (payouts d') = map po_request (payouts d)"
    unfolding arrived(6) using find_payout_Some [OF arrived(1)]
    by (intro set_payout_ids [of p]; simp add: assms(3))+
  with arrived(5) assms show ?thesis by (simp add: set_withdrawal_ids)
next
  case (failed i p r reason at_time)
  have "map po_id (payouts d') = map po_id (payouts d)" "map po_request (payouts d') = map po_request (payouts d)"
    unfolding failed(6) using find_payout_Some [OF failed(1)]
    by (intro set_payout_ids [of p]; simp add: assms(3))+
  with failed(5) assms show ?thesis by (simp add: set_withdrawal_ids)
next
  case (approved i r reason at_time p)
  then show ?thesis using assms by (auto simp: set_withdrawal_ids)
qed (use assms in \<open>auto simp: set_withdrawal_ids distinct_add\<close>)

lemma find_payout_add:
  "payouts d' = payouts d @ [p] \<Longrightarrow> \<forall>x\<in>set (payouts d). po_request x \<noteq> po_request p \<Longrightarrow>
   find_payout d' i = (if i = po_request p then Some p else find_payout d i)"
  by (simp add: find_payout_def find_added)

lemma pay_write_phase:
  assumes "pay_write d d'" and ok: "pay_ok d"
  shows "phase_of d' j = phase_of d j \<or> phase_step (phase_of d j) (phase_of d' j)"
proof -
  have ids: "distinct (map po_id (payouts d))" "distinct (map po_request (payouts d))" using ok by (simp_all add: pay_ok_def)
  have torn: "phase_of d j \<noteq> Torn" using ok by (simp add: pay_ok_def)
  from assms(1) show ?thesis
  proof cases
    case unchanged
    then show ?thesis by (simp add: phase_of_def find_withdrawal_cong [OF unchanged(1)] find_payout_cong [OF unchanged(2)])
  next
    case (requested r)
    have f: "find_withdrawal d' j = (if j = wr_id r then Some r else find_withdrawal d j)"
      using requested(1,4) by (simp add: find_withdrawal_def find_added)
    have none: "find_withdrawal d (wr_id r) = None" using requested(4) by (auto simp: find_withdrawal_def find_None_iff)
    show ?thesis using torn none requested(3)
      by (auto simp: phase_of_def phase_of_rows_def f find_payout_cong [OF requested(2)] phase_step.ask split: option.splits)
  next
    case (refused i r by_whom at_time reason)
    have i: "wr_id r = i" using find_withdrawal_Some [OF refused(1)] by simp
    then show ?thesis using torn refused(1,2)
      by (auto simp: phase_of_def phase_of_rows_def find_withdrawal_cong [OF refused(3)] find_payout_cong [OF refused(4)]
          find_set_withdrawal requested_amount_def phase_step.turn_down split: option.splits if_splits)
  next
    case (approved i r reason at_time p)
    have i: "wr_id r = i" using find_withdrawal_Some [OF approved(1)] by simp
    have f: "find_payout d' j = (if j = i then Some p else find_payout d j)"
      using find_payout_add [OF approved(4)] approved(5,10) by auto
    have none: "find_payout d i = None" using approved(10) by (auto simp: find_payout_def find_None_iff)
    show ?thesis using approved(1,2,6-9) i none torn
      by (auto simp: phase_of_def phase_of_rows_def find_withdrawal_cong [OF approved(3)] f agrees_def
          find_set_withdrawal requested_amount_def phase_step.send split: option.splits if_splits)
  next
    case (acknowledged p ref)
    have f: "find_payout d' j = (if j = po_request p then Some (p\<lparr>po_rail_ref := Some ref\<rparr>) else find_payout d j)"
      unfolding find_payout_cong [OF acknowledged(4)] by (rule find_set_payout [OF acknowledged(1)]) (simp_all add: ids)
    have p: "find_payout d (po_request p) = Some p" using find_payout_unique [OF ids(2) acknowledged(1)] .
    show ?thesis using torn p acknowledged(2)
      by (auto simp: phase_of_def phase_of_rows_def f find_withdrawal_cong [OF acknowledged(3)] agrees_def phase_step.intros
          split: option.splits if_splits)
  next
    case (arrived i p r bank at_time)
    note p = find_payout_Some [OF arrived(1)] and r = find_withdrawal_Some [OF arrived(3)]
    have f: "find_payout d' j = (if j = i then Some (p\<lparr>po_state := StatusSettled, po_settled := at_time,
       po_rail_ref := (case bank of None \<Rightarrow> po_rail_ref p | Some b \<Rightarrow> Some b)\<rparr>) else find_payout d j)"
      unfolding find_payout_cong [OF arrived(6)] using p by (subst find_set_payout [of p]) (simp_all add: ids)
    show ?thesis using torn arrived(1-4) r
      by (auto simp: phase_of_def phase_of_rows_def f find_withdrawal_cong [OF arrived(5)] find_set_withdrawal agrees_def
          requested_amount_def phase_step.intros split: option.splits if_splits)
  next
    case (failed i p r reason at_time)
    note p = find_payout_Some [OF failed(1)] and r = find_withdrawal_Some [OF failed(3)]
    have f: "find_payout d' j = (if j = i then Some (p\<lparr>po_state := StatusFailed, po_settled := None,
       po_rail_ref := po_rail_ref p\<rparr>) else find_payout d j)"
      unfolding find_payout_cong [OF failed(6)] using p by (subst find_set_payout [of p]) (simp_all add: ids)
    show ?thesis using torn failed(1-4) r
      by (auto simp: phase_of_def phase_of_rows_def f find_withdrawal_cong [OF failed(5)] find_set_withdrawal agrees_def
          requested_amount_def phase_step.intros split: option.splits if_splits)
  qed
qed

lemma phase_step_whole: "phase_step f g \<Longrightarrow> g \<noteq> Torn"
  by (auto elim: phase_step.cases)

lemma pay_write_ok: "pay_write d d' \<Longrightarrow> pay_ok d \<Longrightarrow> pay_ok d'"
  using pay_write_distinct [of d d'] pay_write_phase [of d d'] phase_step_whole
  unfolding pay_ok_def by metis

section \<open>What each transaction writes\<close>

lemma rolled_back: "in_tx f m w = (Inl e, v) \<Longrightarrow> db v = db w"
  by (auto simp: in_tx_def split: prod.splits sum.splits)

lemma guarded_Inr: "(if P then refuse e else m) w = (Inr a, v) \<longleftrightarrow> \<not> P \<and> m w = (Inr a, v)"
  by (simp add: refuse_eq)

lemma explain_create_Inr: "explain_create q m w = (Inr x, v) \<longleftrightarrow> m w = (Inr x, v)"
  by (auto simp: explain_create_def split: prod.splits sum.splits db_error.splits)

lemma brand_of_Inr: "brand_of request w = (Inr b, v) \<Longrightarrow> unmoved w v"
proof -
  assume "brand_of request w = (Inr b, v)"
  then obtain brands u where c: "call_db (brands_of_reserved (wd_ref request)) w = (Inr brands, u)"
    and "(case brands of [b] \<Rightarrow> give b | _ \<Rightarrow> refuse (ErrBrandUnresolved (length brands))) u = (Inr b, v)"
    unfolding brand_of_def and_then_Inr wrap_error_Inr by blast
  then have "u = v" by (auto simp: give_eq refuse_eq split: list.splits)
  with read_through [OF reads_keep(3) c] show "unmoved w v" by simp
qed

lemma destination_for_Inr: "destination_for k request w = (Inr x, v) \<Longrightarrow> unmoved w v"
  unfolding destination_for_def and_then_Inr wrap_error_Inr
  by (auto simp: give_eq refuse_eq dest!: keepsD [OF reads_unmoved(1)] split: if_splits)

lemma claim_Inr:
  assumes "claim M k descriptor ap w = (Inr (written, ins), v)"
  obtains r p now destination where "find_withdrawal (db w) (ap_request ap) = Some r" "wr_state r = StateAwaitingApproval"
    "withdrawals (db v) = withdrawals (set_withdrawal (r\<lparr>wr_state := StateApproved, wr_decided_by := Some (ap_operator ap),
       wr_decided_at := Some now, wr_reason := None\<rparr>) (db w))"
    "payouts (db v) = payouts (db w) @ [p]" "po_request p = ap_request ap" "po_approver p = ap_operator ap"
    "po_minor p = wr_minor r" "po_currency p = wr_currency r" "po_state p = StatusSubmitted" "po_rail_ref p = None"
    "\<forall>x\<in>set (payouts (db w)). po_id x \<noteq> po_id p \<and> po_request x \<noteq> ap_request ap"
    "payout_from (uuid_str M) p = Inr written" "ins = instruct descriptor written destination"
proof -
  obtain z where body: "claim_body M k descriptor ap w = (Inr (written, ins), z)" and v: "db v = (db z)\<lparr>moved := []\<rparr>"
    using assms by (auto simp: claim_def elim: in_tx_Inr)
  obtain request u0 brand u1 destination u2 decided u3 p u4 released u5 where
    aw: "awaiting_decision (ap_request ap) w = (Inr request, u0)" and br: "brand_of request u0 = (Inr brand, u1)"
    and ds: "destination_for k request u1 = (Inr destination, u2)"
    and dec: "call_db (record_decision (clock u2) (wd_id request) StateAwaitingApproval StateApproved (ap_operator ap) None) u2 =
      (Inr decided, u3)"
    and cr: "call_db (create_payout (fresh_ids M) (clock u3) (wd_id request) brand (ap_operator ap) (wd_amount request) k) u3 =
      (Inr p, u4)"
    and wr: "payout_from (uuid_str M) p = Inr written" and an: "announce_approved M released u4 = (Inr u5, z)"
    and ins: "ins = instruct descriptor written destination"
    using body unfolding claim_body_def and_then_Inr wrap_error_Inr from_sum_eq explain_create_Inr give_eq by blast
  obtain r where r: "find_withdrawal (db w) (ap_request ap) = Some r" "withdrawal_from r = Inr request"
      "wr_state r = StateAwaitingApproval" "wd_id request = ap_request ap" "unmoved w u0"
    using awaiting_decision_Inr [OF aw] by metis
  have u2: "db u2 = db w" using r(5) brand_of_Inr [OF br] destination_for_Inr [OF ds] by (simp add: unmoved_def)
  obtain d1 where d1: "record_decision (clock u2) (ap_request ap) StateAwaitingApproval StateApproved (ap_operator ap) None (db w) =
      (Inr decided, d1)" "db u3 = d1"
    using dec r(4) u2 by (auto simp: call_db_Inr)
  have d1': "d1 = set_withdrawal (r\<lparr>wr_state := StateApproved, wr_decided_by := Some (ap_operator ap),
       wr_decided_at := Some (clock u2), wr_reason := None\<rparr>) (db w)"
    by (rule record_decision_Inr [OF d1(1)]) (use r(1) in simp)
  obtain d2 where d2: "create_payout (fresh_ids M) (clock u3) (ap_request ap) brand (ap_operator ap) (wd_amount request) k d1 =
      (Inr p, d2)" "db u4 = d2"
    using cr r(4) d1(2) by (auto simp: call_db_Inr)
  note c = create_payout_Inr [OF d2(1)]
  have same: "payouts d1 = payouts (db w)" by (simp add: d1' set_withdrawal_def)
  have fin: "withdrawals (db v) = withdrawals d1" "payouts (db v) = payouts d1 @ [p]"
    using announcements_pay_Inr(1) [OF an] d2(2) c(2) v by auto
  have amt: "wd_amount request = \<lparr>minor = wr_minor r, currency_of = wr_currency r\<rparr>" using r(2) by (auto simp: withdrawal_from_Inr)
  show thesis
    by (rule that [OF r(1,3) _ _ _ _ _ _ _ _ _ wr ins]) (use fin d1' same c(1,6) amt in auto)
qed

lemma announce_failed_Inr: "announce_failed M p c t w = (Inr x, v) \<Longrightarrow>
   withdrawals (db v) = withdrawals (db w) \<and> payouts (db v) = payouts (db w)"
  by (auto dest!: announcements_pay_Inr(3))

lemma abandon_Inr:
  assumes "abandon M say request cause w = (Inr out, v)" and "distinct (map po_id (payouts (db w)))"
  obtains p r now reason where "find_payout (db w) request = Some p" "po_state p = StatusSubmitted"
    "find_withdrawal (db w) request = Some r" "wr_state r = StateApproved"
    "withdrawals (db v) = withdrawals (set_withdrawal (r\<lparr>wr_state := StateFailed, wr_decided_by := Some (po_approver p),
       wr_decided_at := Some now, wr_reason := reason\<rparr>) (db w))"
    "payouts (db v) = payouts (set_payout (p\<lparr>po_state := StatusFailed, po_settled := None, po_rail_ref := po_rail_ref p\<rparr>) (db w))"
proof -
  have body: "\<exists>z. abandon_body M say request cause w = (Inr out, z) \<and> db v = (db z)\<lparr>moved := []\<rparr>"
    using assms(1) by (auto simp: abandon_def elim: in_tx_Inr)
  obtain p0 u failing row u0 and wd :: withdrawal and hs u1 rel u2 frow u3 drow u4 failed at_time z where
    get: "call_db (get_payout request) w = (Inr p0, u)" and from_row: "payout_from (uuid_str M) p0 = Inr failing"
    and st: "pt_state failing = StatusSubmitted"
    and lk: "call_db (lock_withdrawal request) u = (Inr row, u0)" and rd: "reserved (wd_ref wd) u0 = (Inr hs, u1)"
    and rl: "release M hs request u1 = (Inr rel, u2)"
    and out: "call_db (record_outcome (clock u2) (pt_id failing) StatusSubmitted StatusFailed None) u2 = (Inr frow, u3)"
    and dec: "call_db (record_decision (clock u3) request StateApproved StateFailed (pt_by failing)
       (Some (rail_refusal say cause))) u3 = (Inr drow, u4)"
    and an: "announce_failed M failed (classification_of cause) at_time u4 = (Inr (), z)" and v: "db v = (db z)\<lparr>moved := []\<rparr>"
    using body unfolding abandon_body_def and_then_Inr wrap_error_Inr from_sum_eq
    by (auto simp: guarded_Inr and_then_Inr wrap_error_Inr from_sum_eq give_eq)
  have g: "find_payout (db w) request = Some p0" "db u = db w"
    using read_through [OF reads_keep(2) get] by (simp_all add: get_payout_Inr unmoved_def)
  have p0: "p0 \<in> set (payouts (db w))" "po_request p0 = request" using find_payout_Some [OF g(1)] by simp_all
  have u1: "db u1 = db w"
    using read_through [OF reads_keep(1) lk] conjunct1 [OF reserved_Inr [OF rd]] g(2) by (simp add: unmoved_def)
  have u2: "payouts (db u2) = payouts (db w)" "withdrawals (db u2) = withdrawals (db w)"
    using release_same_pay [OF rl] u1 by simp_all
  obtain d3 where d3: "record_outcome (clock u2) (po_id p0) StatusSubmitted StatusFailed None (db u2) = (Inr frow, d3)" "db u3 = d3"
    using out from_row by (auto simp: call_db_Inr payout_from_Inr)
  obtain p where p: "find (\<lambda>p. po_id p = po_id p0) (payouts (db w)) = Some p"
     "frow = p\<lparr>po_state := StatusFailed, po_settled := None, po_rail_ref := po_rail_ref p\<rparr>" "d3 = set_payout frow (db u2)"
    by (rule record_outcome_Inr [OF d3(1)]) (auto intro: that simp: u2(1))
  have "p \<in> set (payouts (db w))" "po_id p = po_id p0" using p(1) by (auto simp: find_Some_iff)
  then have same: "p = p0" using assms(2) p0(1) by (auto simp: distinct_map dest: inj_onD)
  obtain d4 where d4: "record_decision (clock u3) request StateApproved StateFailed (pt_by failing)
       (Some (rail_refusal say cause)) d3 = (Inr drow, d4)" "db u4 = d4"
    using dec d3(2) by (auto simp: call_db_Inr)
  obtain r where r: "find_withdrawal d3 request = Some r" "wr_state r = StateApproved"
      "d4 = set_withdrawal (r\<lparr>wr_state := StateFailed, wr_decided_by := Some (pt_by failing), wr_decided_at := Some (clock u3),
         wr_reason := Some (rail_refusal say cause)\<rparr>) d3"
    by (rule record_decision_Inr [OF d4(1)]) (auto intro: that)
  have d3w: "withdrawals d3 = withdrawals (db w)" by (simp add: p(3) set_payout_def u2(2))
  have fin: "withdrawals (db v) = withdrawals d4" "payouts (db v) = payouts d4"
    using announce_failed_Inr [OF an] d4(2) v by simp_all
  have by_whom: "pt_by failing = po_approver p0" "pt_state failing = po_state p0" using from_row by (auto simp: payout_from_Inr)
  have pay: "payouts d4 = payouts (set_payout frow (db w))" by (simp add: r(3) p(3) set_withdrawal_def set_payout_def u2(1))
  have wd: "withdrawals d4 = withdrawals (set_withdrawal (r\<lparr>wr_state := StateFailed, wr_decided_by := Some (po_approver p0),
      wr_decided_at := Some (clock u3), wr_reason := Some (rail_refusal say cause)\<rparr>) (db w))"
    by (simp add: r(3) set_withdrawal_def d3w by_whom(1))
  show thesis
    by (rule that [of p0 r, OF g(1) _ _ r(2)])
      (use by_whom(2) st r(1) find_withdrawal_cong [OF d3w] fin pay wd p(2) same in simp_all)
qed

lemma same_write: "d' = d \<Longrightarrow> pay_write d d'"
  by (simp add: pay_write.unchanged)

lemma call_db_pay_write:
  assumes "\<And>d. pay_write d (snd (st d))" and "call_db st w = (x, v)"
  shows "pay_write (db w) (db v)"
proof (cases "ctx_done w")
  case True
  with assms(2) show ?thesis by (auto simp: call_db_def intro: pay_write.unchanged)
next
  case False
  obtain y d where "st (db w) = (y, d)" by fastforce
  with False assms(1) [of "db w"] assms(2) show ?thesis by (auto simp: call_db_def)
qed

lemma record_submission_write: "pay_write d (snd (record_submission i ref d))"
proof (cases "record_submission i ref d")
  case (Pair x d')
  show ?thesis
  proof (cases x)
    case (Inl e)
    then show ?thesis using Pair payout_statements_refused(5) [of i ref d e d'] by (auto intro: same_write)
  next
    case (Inr p')
    then obtain p where "find (\<lambda>p. po_id p = i) (payouts d) = Some p" "po_rail_ref p = None"
        "d' = set_payout (p\<lparr>po_rail_ref := Some ref\<rparr>) d"
      using Pair by (auto elim: record_submission_Inr)
    then show ?thesis using Pair
      by (auto simp: find_Some_iff set_payout_def intro!: pay_write.acknowledged [of p d _ ref])
  qed
qed

lemma reread_unmoved: "keeps unmoved (reread M p)" "keeps unmoved (reread_sent M p)"
proof -
  have g: "keeps unmoved (call_db (get_payout i))" for i
    by (rule call_db_unmoved) (simp add: reads_keep)
  show "keeps unmoved (reread M p)" unfolding reread_def by (intro keeps_intros g unmoved_rel)
  show "keeps unmoved (reread_sent M p)" unfolding reread_sent_def by (intro keeps_intros g unmoved_rel)
qed

lemma acknowledging_write:
  "record_reference M p ref w = (x, v) \<Longrightarrow> pay_write (db w) (db v)"
  "record_sent M p ref w = (y, v) \<Longrightarrow> pay_write (db w) (db v)"
proof -
  obtain z u where c: "call_db (record_submission (pt_id p) ref) w = (z, u)" by fastforce
  have u: "pay_write (db w) (db u)" by (rule call_db_pay_write [OF record_submission_write c])
  have step: "db t = db u" if "reread M p u = (a, t)" for a t
    using keepsD [OF reread_unmoved(1) that] by (simp add: unmoved_def)
  have step': "db t = db u" if "reread_sent M p u = (a, t)" for a t
    using keepsD [OF reread_unmoved(2) that] by (simp add: unmoved_def)
  show "record_reference M p ref w = (x, v) \<Longrightarrow> pay_write (db w) (db v)"
    using c u step by (auto simp: record_reference_def wrap_error_def from_sum_def split: sum.splits db_error.splits)
  show "record_sent M p ref w = (y, v) \<Longrightarrow> pay_write (db w) (db v)"
    using c u step'
    by (auto simp: record_sent_def and_then_def from_sum_def give_def split: sum.splits db_error.splits)
qed

lemma request_write:
  assumes "request_withdrawal M threshold i q w = (x, v)"
  shows "pay_write (db w) (db v)"
proof (cases x)
  case (Inl e)
  have "db v = db w" using assms Inl
    by (auto simp: request_withdrawal_def refuse_eq dest: rolled_back split: option.splits)
  then show ?thesis by (simp add: pay_write.unchanged)
next
  case (Inr made)
  show ?thesis using assms [unfolded Inr]
  proof (rule request_withdrawal_Inr)
    fix taken rs u u1 row d1
    assume rs: "reserve M taken i u = (Inr rs, u1)" and u: "db u = db w"
      and cr: "create_withdrawal (clock u1) (request_row i q rs) (db u1) = (Inr row, d1)"
      and v: "db v = d1\<lparr>outbox := outbox d1 @ [WithdrawalRequested (wd_id made) (wd_member made) (wd_amount made) (wd_requested made)],
         moved := []\<rparr>"
    note c = create_withdrawal_Inr [OF cr]
    have "withdrawals (db u1) = withdrawals (db w) \<and> payouts (db u1) = payouts (db w)"
      using rs keepsD [OF move_together_same_pay] u unfolding reserve_def by (fastforce simp: same_pay_def)
    then show ?thesis using c(1,2,4) v by (intro pay_write.requested [of _ _ row]) auto
  qed
qed

lemma claim_write:
  assumes "claim M k descriptor ap w = (x, v)"
  shows "pay_write (db w) (db v)"
proof (cases x)
  case (Inl e)
  then show ?thesis using assms by (intro same_write rolled_back [where w = w and v = v]) (simp add: claim_def)
next
  case (Inr y)
  obtain written ins where y: "y = (written, ins)" by fastforce
  show ?thesis using assms [unfolded Inr y]
    by (rule claim_Inr) (rule pay_write.approved; (assumption | simp))
qed

lemma reject_write:
  assumes "reject_withdrawal M r w = (x, v)"
  shows "pay_write (db w) (db v)"
proof (cases x)
  case (Inl e)
  have "db v = db w" using assms Inl
    by (auto simp: reject_withdrawal_def Let_def refuse_eq dest: rolled_back split: if_splits)
  then show ?thesis by (simp add: pay_write.unchanged)
next
  case (Inr out)
  show ?thesis using assms [unfolded Inr]
  proof (rule reject_withdrawal_Inr)
    fix row hs rs u u1 row' d1 ev
    assume row: "find_withdrawal (db w) (rn_request r) = Some row" "wr_state row = StateAwaitingApproval"
      and u: "unmoved w u" and rl: "release M hs (rn_request r) u = (Inr rs, u1)"
      and dec: "record_decision (clock u1) (rn_request r) StateAwaitingApproval StateRejected (rn_operator r)
       (Some (trim_space (rn_reason r))) (db u1) = (Inr row', d1)"
      and v: "db v = d1\<lparr>outbox := outbox d1 @ [ev], moved := []\<rparr>"
    have same: "withdrawals (db u1) = withdrawals (db w)" "payouts (db u1) = payouts (db w)"
      using release_same_pay [OF rl] u by (simp_all add: unmoved_def)
    have "d1 = set_withdrawal (row\<lparr>wr_state := StateRejected, wr_decided_by := Some (rn_operator r),
       wr_decided_at := Some (clock u1), wr_reason := Some (trim_space (rn_reason r))\<rparr>) (db u1)"
      by (rule record_decision_Inr [OF dec]) (use row(1) find_withdrawal_cong [OF same(1)] in simp)
    then show ?thesis
      by (intro pay_write.refused [OF row]) (auto simp: v same set_withdrawal_def)
  qed
qed

lemma abandon_write:
  assumes "abandon M say request cause w = (x, v)" and "pay_ok (db w)"
  shows "pay_write (db w) (db v)"
proof (cases x)
  case (Inl e)
  then show ?thesis using assms(1) by (intro same_write rolled_back [where w = w and v = v]) (simp add: abandon_def)
next
  case (Inr out)
  have "distinct (map po_id (payouts (db w)))" using assms(2) by (simp add: pay_ok_def)
  from assms(1) [unfolded Inr] this show ?thesis by (rule abandon_Inr) (rule pay_write.failed)
qed

lemma arrival_write:
  assumes "record_arrival M request operator bank w = (x, v)" and "pay_ok (db w)"
  shows "pay_write (db w) (db v)"
proof (cases x)
  case (Inl e)
  then show ?thesis using assms(1) by (intro same_write rolled_back [where w = w and v = v]) (simp add: record_arrival_def)
next
  case (Inr s)
  have "distinct (map po_id (payouts (db w)))" using assms(2) by (simp add: pay_ok_def)
  from assms(1) [unfolded Inr] this show ?thesis by (rule record_arrival_Inr) (rule pay_write.arrived)
qed

section \<open>A transaction is a step of one withdrawal\<close>

text \<open>The transactions the operations are made of, with whatever they are called with, and everything else the
  program does to the database, which leaves the two tables alone.\<close>

inductive pay_tx :: "'l machine \<Rightarrow> 'l world \<Rightarrow> 'l world \<Rightarrow> bool" for M where
  requesting: "request_withdrawal M threshold i q w = (x, v) \<Longrightarrow> pay_tx M w v"
| claiming: "claim M k descriptor ap w = (y, v) \<Longrightarrow> pay_tx M w v"
| acknowledging: "record_reference M p ref w = (z, v) \<Longrightarrow> pay_tx M w v"
| acknowledging_again: "record_sent M p ref w = (o_sent, v) \<Longrightarrow> pay_tx M w v"
| rejecting: "reject_withdrawal M r w = (o_rej, v) \<Longrightarrow> pay_tx M w v"
| abandoning: "abandon M say request cause w = (o_aba, v) \<Longrightarrow> pay_tx M w v"
| arriving: "record_arrival M request operator bank w = (o_arr, v) \<Longrightarrow> pay_tx M w v"
| other: "withdrawals (db v) = withdrawals (db w) \<Longrightarrow> payouts (db v) = payouts (db w) \<Longrightarrow> pay_tx M w v"

lemma pay_tx_write: "pay_tx M w v \<Longrightarrow> pay_ok (db w) \<Longrightarrow> pay_write (db w) (db v)"
  by (induction rule: pay_tx.induct)
    (auto intro: request_write claim_write acknowledging_write reject_write abandon_write arrival_write pay_write.unchanged)

text \<open>(C3) The transactions implement the phases. From a state in which no withdrawal is torn, whatever a
  transaction of any of the operations is called with and whether it commits or fails, every withdrawal
  is afterwards in the phase it was in or one step further, and none is torn. No step leaves a refused
  withdrawal, turns an arrived one or a returned one into anything else, or changes an amount.\<close>

theorem transactions_follow_the_phases:
  assumes "pay_ok (db w)" and "pay_tx M w v"
  shows "pay_ok (db v) \<and> (\<forall>i. phase_of (db v) i = phase_of (db w) i \<or> phase_step (phase_of (db w) i) (phase_of (db v) i))"
  using pay_tx_write [OF assms(2,1)] pay_write_ok [OF _ assms(1)] pay_write_phase [OF _ assms(1)] by blast

lemma asked_books: "pay_ok (db asked_world)" "phase_of (db asked_world) 900 = Asked \<lparr>minor = 250, currency_of = ''EUR''\<rparr>"
proof -
  show "phase_of (db asked_world) 900 = Asked \<lparr>minor = 250, currency_of = ''EUR''\<rparr>" by code_simp
  have "phase_of (db asked_world) i \<noteq> Torn" for i
    by (simp add: phase_of_def phase_of_rows_def find_withdrawal_def find_payout_def asked_world_def earned_books_def)
  then show "pay_ok (db asked_world)" by (simp add: pay_ok_def asked_world_def earned_books_def)
qed

lemma refused_phase:
  "(case reject_withdrawal easy_machine sample_refusal asked_world of (x, z) \<Rightarrow>
     phase_of (db z) 900 = Refused \<lparr>minor = 250, currency_of = ''EUR''\<rparr>)"
  by code_simp

theorem transactions_follow_the_phases_witness:
  "\<exists>x z. reject_withdrawal easy_machine sample_refusal asked_world = (x, z) \<and> pay_ok (db z) \<and>
     phase_of (db z) 900 = Refused \<lparr>minor = 250, currency_of = ''EUR''\<rparr>"
proof -
  obtain x z where r: "reject_withdrawal easy_machine sample_refusal asked_world = (x, z)" by fastforce
  with transactions_follow_the_phases [OF asked_books(1) pay_tx.rejecting [OF r]] refused_phase show ?thesis by simp
qed

end
