(* ===== verification/PaymentRun.thy ===== *)
theory PaymentRun
  imports PaymentSteps
begin

text \<open>
  Runs of the payout operations against a rail, in any order and with failures anywhere: every operation
  moves withdrawals along their phases only, and what the rail was asked is accounted for.
\<close>

section \<open>Runs of the operations\<close>

definition follows :: "'l machine \<Rightarrow> 'l world \<Rightarrow> 'l world \<Rightarrow> bool" where
  "follows M w v \<longleftrightarrow> (pay_ok (db w) \<longrightarrow>
     pay_ok (db v) \<and> (\<forall>i. phase_step\<^sup>*\<^sup>* (phase_of (db w) i) (phase_of (db v) i)))"

lemma follows_rel [simp, intro!]: "reflp (follows M)" "transp (follows M)"
  by (auto simp: reflp_def transp_def follows_def intro: rtranclp_trans)

lemma pay_tx_follows: "pay_tx M w v \<Longrightarrow> follows M w v"
  using pay_tx_write [of M w v] pay_write_ok [of "db w" "db v"] pay_write_phase [of "db w" "db v"]
  unfolding follows_def by (metis r_into_rtranclp rtranclp.rtrancl_refl)

lemma unmoved_follows: "unmoved w v \<Longrightarrow> follows M w v"
  by (rule pay_tx_follows, rule pay_tx.other) (simp_all add: unmoved_def)

definition paying :: "phase \<Rightarrow> amount \<Rightarrow> bool" where
  "paying f a \<longleftrightarrow> (\<exists>u ref. f = Sent a u ref \<or> f = Arrived a u ref \<or> f = Returned a u ref)"

lemma paying_stays: "phase_step\<^sup>*\<^sup>* f g \<Longrightarrow> paying f a \<Longrightarrow> paying g a"
  by (induction rule: rtranclp_induct) (auto simp: paying_def elim: phase_step.cases)

lemma paying_row: "pay_ok d \<Longrightarrow> find_payout d i = Some p \<Longrightarrow> paying (phase_of d i) \<lparr>minor = po_minor p, currency_of = po_currency p\<rparr>"
  unfolding pay_ok_def
  by (drule conjunct2, drule conjunct2, drule conjunct2, drule spec [of _ i])
    (auto simp: phase_of_def phase_of_rows_def paying_def agrees_def requested_amount_def split: option.splits if_splits)

text \<open>A rail and the record of what it was asked and what it answered.\<close>

type_synonym asked_log = "(instruction \<times> (rail_error + string)) list"

definition logged :: "'r rail \<Rightarrow> ('r \<times> asked_log) rail" where
  "logged R = \<lparr>rail_kind = rail_kind R,
     rail_submit = (\<lambda>don i (s, log). case rail_submit R don i s of (x, s') \<Rightarrow> (x, (s', log @ [(i, x)]))),
     rail_query = (\<lambda>don ref (s, log). rail_query R don ref s)\<rparr>"

datatype pay_op =
    AskFor amount uuid ask | Approve string approval | TurnDown rejection | Retry string uuid | Settle uuid
  | RecordBank recording | Sweep

fun pay_do :: "'l machine \<Rightarrow> 'r rail \<Rightarrow> (rail_error \<Rightarrow> string) \<Rightarrow> pay_op \<Rightarrow> 'l world \<times> 'r \<Rightarrow> 'l world \<times> 'r" where
  "pay_do M R say (AskFor threshold i q) p = snd (at_base (request_withdrawal M threshold i q) p)"
| "pay_do M R say (Approve descriptor ap) p = snd (approve M R descriptor ap p)"
| "pay_do M R say (TurnDown r) p = snd (at_base (reject_withdrawal M r) p)"
| "pay_do M R say (Retry descriptor i) p = snd (retry M R say descriptor i p)"
| "pay_do M R say (Settle i) p = snd (settle M R say i p)"
| "pay_do M R say (RecordBank r) p = snd (at_base (record_settlement M r) p)"
| "pay_do M R say Sweep p = snd (sweep M R say p)"

text \<open>Between two operations anything may happen that leaves the two tables alone (credits, time, a lost
  connection), and the rail may do what keeps it within its contract (settle a payment, lose one).\<close>

inductive pay_run ::
  "('r \<Rightarrow> bool) \<Rightarrow> 'l machine \<Rightarrow> 'r rail \<Rightarrow> (rail_error \<Rightarrow> string) \<Rightarrow> 'l world \<times> 'r \<times> asked_log \<Rightarrow>
   'l world \<times> 'r \<times> asked_log \<Rightarrow> bool" for fine M R say p where
  start: "pay_run fine M R say p p"
| operation: "pay_run fine M R say p q \<Longrightarrow> pay_run fine M R say p (pay_do M (logged R) say op q)"
| elsewhere: "pay_run fine M R say p (w, (s, log)) \<Longrightarrow> withdrawals (db v) = withdrawals (db w) \<Longrightarrow>
    payouts (db v) = payouts (db w) \<Longrightarrow> fine s' \<Longrightarrow> pay_run fine M R say p (v, (s', log))"

section \<open>The operations that ask the rail nothing new\<close>

definition pays :: "'l machine \<Rightarrow> 'l world \<times> 's \<Rightarrow> 'l world \<times> 's \<Rightarrow> bool" where
  "pays M p q \<longleftrightarrow> follows M (fst p) (fst q) \<and> snd q = snd p"

lemma pays_rel [simp, intro!]: "reflp (pays M)" "transp (pays M)"
  using follows_rel [of M] by (auto simp: pays_def reflp_def transp_def)

lemma at_base_pays: "keeps (follows M) m \<Longrightarrow> keeps (pays M) (at_base m)"
  by (auto simp: keeps_def pays_def at_base_def split: prod.splits) (metis snd_conv)

lemma call_query_pays: "keeps (pays M) (call_query R ref)"
  by (auto simp: keeps_def pays_def call_query_def intro!: pay_tx_follows pay_tx.other)

lemma unmoved_keeps_follows: "keeps unmoved m \<Longrightarrow> keeps (follows M) m"
  by (auto simp: keeps_def intro: unmoved_follows)

lemma reads_follow:
  "keeps (follows M) (call_db (get_payout i))" "keeps (follows M) (call_db (lock_withdrawal i))"
  "keeps (follows M) (destination_of a i)" "keeps (follows M) (call_db submitted_payouts)"
  by (intro unmoved_keeps_follows call_db_unmoved reads_unmoved; simp add: reads_keep)+

lemma transactions_follow:
  "keeps (follows M) (request_withdrawal M threshold i q)" "keeps (follows M) (reject_withdrawal M r)"
  "keeps (follows M) (record_arrival M request operator bank)" "keeps (follows M) (abandon M say request cause)"
  "keeps (follows M) (claim M k descriptor ap)" "keeps (follows M) (record_reference M p ref)"
  "keeps (follows M) (record_sent M p ref)"
  unfolding keeps_def by (intro allI pay_tx_follows, rule pay_tx.intros, rule surjective_pairing)+

lemma on_status_follows: "keeps (follows M) (on_status M say request waiting status)"
  unfolding on_status_def by (intro keeps_if keeps_intros transactions_follow follows_rel)

lemma submitted_follows: "keeps (follows M) (submitted M request)"
  unfolding submitted_def by (intro keeps_if keeps_intros reads_follow follows_rel)

lemma still_owed_follows: "keeps (follows M) (still_owed M descriptor request)"
  unfolding still_owed_def by (intro keeps_intros keeps_if reads_follow follows_rel)

lemma settle_pays: "keeps (pays M) (settle M R say request)"
  unfolding settle_def
  by (intro keeps_if keeps_intros at_base_pays submitted_follows on_status_follows call_query_pays pays_rel)

lemma record_settlement_follows: "keeps (follows M) (record_settlement M r)"
  unfolding record_settlement_def Let_def by (intro keeps_if keeps_intros transactions_follow follows_rel)

lemma sweep_each_pays: "keeps (pays M) (sweep_each M R say qs n)"
proof (induction qs arbitrary: n)
  case (Cons q qs)
  have "pays M p (snd (sweep_each M R say (q # qs) n p))" for p
  proof (cases "ctx_done (fst p)")
    case False
    obtain x p' where s: "settle M R say q p = (x, p')" by (rule prod.exhaust)
    have "pays M p p'" using keepsD [OF settle_pays s] .
    moreover have "pays M p' (snd (sweep_each M R say qs k p'))" for k using Cons unfolding keeps_def by blast
    ultimately have "pays M p (snd (sweep_each M R say qs k p'))" for k using transpD [OF pays_rel(2)] by blast
    then show ?thesis using False s by simp
  qed (simp add: reflpD [OF pays_rel(1)])
  then show ?case by (simp add: keeps_def)
qed (simp add: keeps_def reflpD [OF pays_rel(1)])

lemma sweep_pays: "keeps (pays M) (sweep M R say)"
  unfolding sweep_def by (intro keeps_if keeps_intros at_base_pays reads_follow sweep_each_pays pays_rel)

section \<open>What the rail was asked\<close>

fun accounted ::
  "('r \<Rightarrow> bool) \<Rightarrow> (string \<Rightarrow> string) \<Rightarrow> 'l machine \<Rightarrow> 'l world \<times> 'r \<times> asked_log \<Rightarrow> bool" where
  "accounted fine named M (w, (s, log)) \<longleftrightarrow> pay_ok (db w) \<and> fine s \<and>
     (\<forall>(ins, x)\<in>set log. (\<exists>i. in_key ins = payout_key (uuid_str M) i \<and> paying (phase_of (db w) i) (in_amount ins)) \<and>
        (\<forall>r. x = Inr r \<longrightarrow> r = named (in_key ins)))"

lemma accounted_follows:
  assumes "accounted fine named M (w, (s, log))" and "follows M w v" and "fine s'"
  shows "accounted fine named M (v, (s', log))"
  using assms paying_stays unfolding follows_def by fastforce

lemma accounted_parts: "accounted fine named M (w, (s, log)) \<Longrightarrow> pay_ok (db w) \<and> fine s"
  by simp

lemma accounted_said:
  "accounted fine named M (w, (s, log)) \<Longrightarrow> (ins, x) \<in> set log \<Longrightarrow>
   (\<exists>i. in_key ins = payout_key (uuid_str M) i \<and> paying (phase_of (db w) i) (in_amount ins)) \<and>
   (x = Inr r \<longrightarrow> r = named (in_key ins))"
  by auto

lemma accounted_more:
  assumes "accounted fine named M (w, (s, log))" and "fine s'" and "db v = db w"
    and "in_key ins = payout_key (uuid_str M) i" and "paying (phase_of (db w) i) (in_amount ins)"
    and "\<And>r. x = Inr r \<Longrightarrow> r = named (in_key ins)"
  shows "accounted fine named M (v, (s', log @ [(ins, x)]))"
  using assms by auto

declare accounted.simps [simp del]

lemma accounted_pays:
  assumes "accounted fine named M p" and "pays M p q"
  shows "accounted fine named M q"
proof -
  obtain w s log v where p: "p = (w, (s, log))" and q: "q = (v, (s, log))" and f: "follows M w v"
    using assms(2) by (cases p; cases q) (auto simp: pays_def)
  note acc = assms(1) [unfolded p]
  from accounted_follows [OF acc f] accounted_parts [OF acc] show ?thesis unfolding q by simp
qed

lemma still_owed_Inr:
  assumes "still_owed M descriptor request w = (Inr (owed, ins), v)"
  shows "unmoved w v" and "\<exists>p. find_payout (db w) request = Some p \<and> in_key ins = payout_key (uuid_str M) request \<and>
    in_amount ins = \<lparr>minor = po_minor p, currency_of = po_currency p\<rparr>"
proof -
  obtain row u and wd :: withdrawal and p u1 destination u2 where lk: "call_db (lock_withdrawal request) w = (Inr row, u)"
    and get: "call_db (get_payout request) u = (Inr p, u1)" and from_row: "payout_from (uuid_str M) p = Inr owed"
    and ds: "destination_of (wd_member wd) (wd_destination wd) u1 = (Inr destination, u2)"
    and ins: "ins = instruct descriptor owed destination" and v: "v = u2"
    using assms unfolding still_owed_def and_then_Inr wrap_error_Inr from_sum_eq guarded_Inr give_eq by blast
  have u: "unmoved w u" using read_through [OF reads_keep(1) lk] by simp
  have g: "find_payout (db u) request = Some p" "unmoved u u1"
    using read_through [OF reads_keep(2) get] by (simp_all add: get_payout_Inr)
  show "unmoved w v" using u g(2) keepsD [OF reads_unmoved(1) ds] v unmoved_trans by metis
  show "\<exists>p. find_payout (db w) request = Some p \<and> in_key ins = payout_key (uuid_str M) request \<and>
    in_amount ins = \<lparr>minor = po_minor p, currency_of = po_currency p\<rparr>"
    using g(1) u from_row find_payout_Some [OF g(1)] by (auto simp: unmoved_def ins instruct_def payout_from_Inr)
qed

lemma claimed_instruction:
  assumes "claim M k descriptor ap w = (Inr (written, ins), v)"
  shows "\<exists>p. find_payout (db v) (ap_request ap) = Some p \<and> in_key ins = payout_key (uuid_str M) (ap_request ap) \<and>
    in_amount ins = \<lparr>minor = po_minor p, currency_of = po_currency p\<rparr>"
  using assms
proof (rule claim_Inr)
  fix p destination
  assume pay: "payouts (db v) = payouts (db w) @ [p]" "po_request p = ap_request ap"
    "\<forall>x\<in>set (payouts (db w)). po_id x \<noteq> po_id p \<and> po_request x \<noteq> ap_request ap"
    and wr: "payout_from (uuid_str M) p = Inr written" "ins = instruct descriptor written destination"
  have "find_payout (db v) (ap_request ap) = Some p" using find_payout_add [OF pay(1)] pay(2,3) by auto
  with pay(2) wr show ?thesis by (auto simp: instruct_def payout_from_Inr)
qed

context payout_rail
begin

lemma submit_accounted:
  assumes "accounted fine named M (w, (s, log))" and "rail_submit R = submit"
    and "find_payout (db w) i = Some p" and "in_key ins = payout_key (uuid_str M) i"
    and "in_amount ins = \<lparr>minor = po_minor p, currency_of = po_currency p\<rparr>"
    and sub: "call_submit (logged R) ins (w, (s, log)) = (x, q)"
  shows "accounted fine named M q"
proof -
  obtain y s' where y: "submit (ctx_done w) ins s = (y, s')" by fastforce
  have q: "q = (w\<lparr>fuse := burn (fuse w)\<rparr>, (s', log @ [(ins, y)]))"
    using sub y assms(2) by (auto simp: call_submit_def logged_def)
  note parts = accounted_parts [OF assms(1)]
  have "fine s'" using keeps_fine [of s "ctx_done w" ins] parts y by simp
  moreover have "r = named (in_key ins)" if "y = Inr r" for r
    using answers_by_key [of s "ctx_done w" ins r] parts y that by simp
  moreover have "paying (phase_of (db w) i) (in_amount ins)" using paying_row [OF _ assms(3)] parts assms(5) by simp
  ultimately show ?thesis unfolding q by (intro accounted_more [OF assms(1) _ _ assms(4)]) simp_all
qed

lemma approve_accounted:
  assumes acc: "accounted fine named M (w, (s, log))" and "rail_submit R = submit"
  shows "accounted fine named M (snd (approve M (logged R) descriptor ap (w, (s, log))))"
proof (cases "ap_request ap = nil_uuid \<or> ap_operator ap = nil_uuid")
  case True
  then show ?thesis using acc by (auto simp: approve_def refuse_def)
next
  case False
  obtain x u where cl: "claim M (rail_kind (logged R)) descriptor ap w = (x, u)" by fastforce
  have u: "accounted fine named M (u, (s, log))"
    using accounted_follows [OF acc keepsD [OF transactions_follow(5) cl]] accounted_parts [OF acc] by simp
  show ?thesis
  proof (cases x)
    case (Inl e)
    then show ?thesis using False cl u by (simp add: approve_def and_then_def wrap_error_def at_base_def)
  next
    case (Inr y)
    obtain written ins where y: "y = (written, ins)" by fastforce
    obtain z q where sub: "call_submit (logged R) ins (u, (s, log)) = (z, q)" by (rule prod.exhaust)
    obtain p where p: "find_payout (db u) (ap_request ap) = Some p" "in_key ins = payout_key (uuid_str M) (ap_request ap)"
      "in_amount ins = \<lparr>minor = po_minor p, currency_of = po_currency p\<rparr>"
      using claimed_instruction cl Inr y by blast
    have q: "accounted fine named M q" using submit_accounted [OF u assms(2) p sub] .
    show ?thesis
    proof (cases z)
      case (Inl e)
      then show ?thesis using False cl Inr y sub q by (simp add: approve_def and_then_def wrap_error_def at_base_def)
    next
      case (Inr ref)
      have "accounted fine named M (snd (at_base (record_reference M written ref) q))"
        using accounted_pays [OF q] at_base_pays [OF transactions_follow(6)] unfolding keeps_def by blast
      then show ?thesis using False cl \<open>x = Inr y\<close> y sub Inr by (simp add: approve_def and_then_def wrap_error_def at_base_def)
    qed
  qed
qed

lemma retry_accounted:
  assumes acc: "accounted fine named M (w, (s, log))" and "rail_submit R = submit"
  shows "accounted fine named M (snd (retry M (logged R) say descriptor i (w, (s, log))))"
proof (cases "i = nil_uuid")
  case True
  then show ?thesis using acc by (simp add: retry_def refuse_def)
next
  case False
  obtain x u where so: "still_owed M descriptor i w = (x, u)" by fastforce
  have u: "accounted fine named M (u, (s, log))"
    using accounted_follows [OF acc keepsD [OF still_owed_follows so]] accounted_parts [OF acc] by simp
  show ?thesis
  proof (cases x)
    case (Inl e)
    then show ?thesis using False so u by (simp add: retry_def and_then_def at_base_def)
  next
    case (Inr y)
    obtain owed ins where y: "y = (owed, ins)" by fastforce
    obtain z q where sub: "call_submit (logged R) ins (u, (s, log)) = (z, q)" by (rule prod.exhaust)
    have o: "unmoved w u" and "\<exists>p. find_payout (db w) i = Some p \<and> in_key ins = payout_key (uuid_str M) i \<and>
        in_amount ins = \<lparr>minor = po_minor p, currency_of = po_currency p\<rparr>"
      using still_owed_Inr so Inr y by blast+
    then obtain p where p: "find_payout (db u) i = Some p" "in_key ins = payout_key (uuid_str M) i"
      "in_amount ins = \<lparr>minor = po_minor p, currency_of = po_currency p\<rparr>"
      by (auto simp: unmoved_def)
    have q: "accounted fine named M q" using submit_accounted [OF u assms(2) p sub] .
    have fin: "accounted fine named M (snd (at_base (abandon M say i e) q))"
      "accounted fine named M (snd (at_base (record_sent M owed ref) q))" for e ref
      using accounted_pays [OF q] at_base_pays [OF transactions_follow(4)] at_base_pays [OF transactions_follow(7)]
      unfolding keeps_def by blast+
    show ?thesis using False so Inr y sub q fin
      by (cases z) (simp_all add: retry_def and_then_def at_base_def)
  qed
qed

lemma pay_do_accounted:
  assumes acc: "accounted fine named M p" and "rail_submit R = submit"
  shows "accounted fine named M (pay_do M (logged R) say op p)"
proof -
  obtain w s log where p: "p = (w, (s, log))" by (cases p) auto
  have pays: "accounted fine named M (snd (m p))" if "keeps (pays M) m" for m :: "_ \<Rightarrow> ('x + 'y) \<times> _"
    using accounted_pays [OF acc] that unfolding keeps_def by blast
  show ?thesis
  proof (cases op)
    case (Approve descriptor ap)
    then show ?thesis using approve_accounted acc assms(2) unfolding p by simp
  next
    case (Retry descriptor i)
    then show ?thesis using retry_accounted acc assms(2) unfolding p by simp
  next
    case (AskFor threshold i q)
    then show ?thesis using pays [OF at_base_pays [OF transactions_follow(1)]] by simp
  next
    case (TurnDown r)
    then show ?thesis using pays [OF at_base_pays [OF transactions_follow(2)]] by simp
  next
    case (Settle i)
    then show ?thesis using pays [OF settle_pays] by simp
  next
    case (RecordBank r)
    then show ?thesis using pays [OF at_base_pays [OF record_settlement_follows]] by simp
  next
    case Sweep
    then show ?thesis using pays [OF sweep_pays] by simp
  qed
qed

lemma run_accounted:
  assumes "pay_run fine M R say p q" and "accounted fine named M p" and "rail_submit R = submit"
  shows "accounted fine named M q"
  using assms(1,2)
proof (induction rule: pay_run.induct)
  case (elsewhere w s log v s')
  have "follows M w v" using elsewhere(2,3) by (intro pay_tx_follows pay_tx.other)
  from accounted_follows [OF elsewhere.IH [OF elsewhere.prems] this elsewhere(4)] show ?case .
next
  case (operation q op)
  then show ?case using pay_do_accounted [OF _ assms(3)] by simp
qed simp

end

text \<open>(C2) A withdrawal is paid at most once, and for what was asked (C-5). Over any run of the operations, with
  failures, retries and settlements anywhere and a rail that keeps its contract, no withdrawal is ever
  torn; everything the rail was ever asked names, by its key, a request that was approved, and asks for
  exactly that request's amount; two things asked under one key are for the same amount; and two
  acceptances carry one reference exactly when they carry one key, so one request has one payment.\<close>

theorem a_withdrawal_is_paid_once:
  assumes contract: "payout_rail (rail_submit R) fine named" and "\<forall>i j. uuid_str M i = uuid_str M j \<longrightarrow> i = j"
    and run: "pay_run fine M R say (w, (s, [])) (v, (t, log))" and "pay_ok (db w)" and "fine s"
  shows "pay_ok (db v) \<and>
    (\<forall>ins x. (ins, x) \<in> set log \<longrightarrow>
       (\<exists>i. in_key ins = payout_key (uuid_str M) i \<and> paying (phase_of (db v) i) (in_amount ins))) \<and>
    (\<forall>ins x ins' x'. (ins, x) \<in> set log \<and> (ins', x') \<in> set log \<and> in_key ins = in_key ins' \<longrightarrow>
       in_amount ins = in_amount ins') \<and>
    (\<forall>ins r ins' r'. (ins, Inr r) \<in> set log \<and> (ins', Inr r') \<in> set log \<longrightarrow> (r = r' \<longleftrightarrow> in_key ins = in_key ins'))"
proof -
  have "accounted fine named M (w, (s, []))" using assms(4,5) by (simp add: accounted.simps)
  from payout_rail.run_accounted [OF contract run this refl] have acc: "accounted fine named M (v, (t, log))" .
  note said = accounted_said [OF acc]
  have same: "in_amount ins = in_amount ins'"
    if mem: "(ins, x) \<in> set log" "(ins', x') \<in> set log" "in_key ins = in_key ins'" for ins x ins' x'
  proof -
    obtain i j where ij: "in_key ins = payout_key (uuid_str M) i" "paying (phase_of (db v) i) (in_amount ins)"
        "in_key ins' = payout_key (uuid_str M) j" "paying (phase_of (db v) j) (in_amount ins')"
      using said [OF mem(1)] said [OF mem(2)] by blast
    then have "i = j" using mem(3) assms(2) by (simp add: payout_key_def)
    with ij show ?thesis by (auto simp: paying_def)
  qed
  have "r = r' \<longleftrightarrow> in_key ins = in_key ins'" if "(ins, Inr r) \<in> set log" "(ins', Inr r') \<in> set log" for ins r ins' r'
    using said [OF that(1)] said [OF that(2)] payout_rail.named_apart [OF contract] by auto
  moreover have "\<exists>i. in_key ins = payout_key (uuid_str M) i \<and> paying (phase_of (db v) i) (in_amount ins)"
    if "(ins, x) \<in> set log" for ins x using said [OF that] by blast
  ultimately show ?thesis using same accounted_parts [OF acc] by (intro conjI allI impI) (blast | elim conjE)+
qed

definition careful_machine :: "unit machine" where
  "careful_machine = easy_machine\<lparr>uuid_str := \<lambda>i. dec_nat (unat i)\<rparr>"

definition retried_once :: instruction where
  "retried_once = \<lparr>in_key = ''payout:900'', in_amount = \<lparr>minor = 250, currency_of = ''EUR''\<rparr>,
     in_destination = \<lparr>dr_kind = KindStub, dr_details = ''vault/3''\<rparr>, in_descriptor = ''APIVO''\<rparr>"

definition retried_stub :: stub_state where
  "retried_stub = new_stub\<lparr>stub_submitted := [(''payout:900'', ''stub:payout:900'')]\<rparr>"

definition accepted_once :: asked_log where
  "accepted_once = [(retried_once, Inr ''stub:payout:900'')]"

definition sent_value :: payout where
  "sent_value = \<lparr>pt_id = 101, pt_request = 900, pt_brand = ''b'', pt_by = 9, pt_key = ''payout:900'',
     pt_amount = \<lparr>minor = 250, currency_of = ''EUR''\<rparr>, pt_rail = KindStub, pt_ref = ''stub:payout:u'',
     pt_state = StatusSubmitted, pt_submitted = 9, pt_settled = zero_time\<rparr>"

lemma retrying_evaluated:
  "still_owed careful_machine ''APIVO'' 900 sent_world = (Inr (sent_value, retried_once), sent_world)"
  "stub_submit False retried_once new_stub = (Inr ''stub:payout:900'', retried_stub)"
  "stub_submit False retried_once retried_stub = (Inr ''stub:payout:900'', retried_stub)"
  "snd (record_sent careful_machine sent_value ''stub:payout:900'' sent_world) = sent_world"
  by code_simp+

lemma retried:
  assumes "stub_submit False retried_once s = (Inr ''stub:payout:900'', s')"
  shows "pay_do careful_machine (logged stub_rail) say (Retry ''APIVO'' 900) (sent_world, (s, log)) =
    (sent_world, (s', log @ accepted_once))"
proof -
  have w: "ctx_done sent_world = False" "sent_world\<lparr>fuse := burn (fuse sent_world)\<rparr> = sent_world"
    by (simp_all add: sent_world_def asked_world_def easy_world_def ctx_done_def burn_def)
  have "call_submit (logged stub_rail) retried_once (sent_world, (s, log)) =
     (Inr ''stub:payout:900'', (sent_world, (s', log @ accepted_once)))"
    using assms w by (simp add: call_submit_def logged_def stub_rail_def accepted_once_def)
  moreover obtain x where "record_sent careful_machine sent_value ''stub:payout:900'' sent_world = (x, sent_world)"
    using retrying_evaluated(4) by (metis prod.collapse)
  ultimately show ?thesis using retrying_evaluated(1) by (simp add: retry_def and_then_def at_base_def)
qed

lemma sent_books: "pay_ok (db sent_world)"
proof -
  have "phase_of (db sent_world) i \<noteq> Torn" for i
    by (simp add: phase_of_def phase_of_rows_def agrees_def find_withdrawal_def find_payout_def sent_world_def asked_world_def
        earned_books_def sent_payout_def sent_request_def)
  then show ?thesis by (simp add: pay_ok_def sent_world_def asked_world_def earned_books_def)
qed

theorem a_withdrawal_is_paid_once_witness:
  "\<exists>log. pay_run stub_fine careful_machine stub_rail (\<lambda>_. ''no'') (sent_world, (new_stub, [])) (sent_world, (retried_stub, log)) \<and>
     length log = 2 \<and> in_amount (fst (log ! 0)) = in_amount (fst (log ! 1)) \<and> snd (log ! 0) = snd (log ! 1) \<and>
     (\<exists>i. in_key (fst (log ! 1)) = payout_key (uuid_str careful_machine) i \<and> paying (phase_of (db sent_world) i) (in_amount (fst (log ! 1))))"
proof -
  have "payout_rail (rail_submit stub_rail) stub_fine (\<lambda>k. stub_prefix @ k)"
    using stubbed.payout_rail_axioms by (simp add: stub_rail_def)
  note once = a_withdrawal_is_paid_once [OF this]
  let ?run = "pay_run stub_fine careful_machine stub_rail (\<lambda>_. ''no'') (sent_world, (new_stub, []))"
  have "?run (pay_do careful_machine (logged stub_rail) (\<lambda>_. ''no'') (Retry ''APIVO'' 900)
      (pay_do careful_machine (logged stub_rail) (\<lambda>_. ''no'') (Retry ''APIVO'' 900) (sent_world, (new_stub, []))))"
    by (intro pay_run.operation pay_run.start)
  then have run: "?run (sent_world, (retried_stub, accepted_once @ accepted_once))"
    unfolding retried [OF retrying_evaluated(2)] retried [OF retrying_evaluated(3)] by simp
  have ids: "\<forall>i j. uuid_str careful_machine i = uuid_str careful_machine j \<longrightarrow> i = j"
    by (simp add: careful_machine_def) (metis word_unat_eq_iff)
  have "\<exists>i. in_key retried_once = payout_key (uuid_str careful_machine) i \<and> paying (phase_of (db sent_world) i) (in_amount retried_once)"
    using once [OF ids run sent_books new_stub_fine] by (simp add: accepted_once_def)
  with run show ?thesis
    by (intro exI [of _ "accepted_once @ accepted_once"]) (simp add: accepted_once_def careful_machine_def)
qed

end
