(* ===== verification/PaymentSweep.thy ===== *)
theory PaymentSweep
  imports PaymentRun
begin

text \<open>
  The sweep of \<open>internal/cashback/payout/settle.go\<close> brings every payment home: what the rail has settled is
  settled here after one undisturbed sweep.
\<close>

lemma transactions_keep: "pay_ok (db w) \<Longrightarrow> pay_tx M w v \<Longrightarrow> pay_ok (db v)"
  using pay_tx_write pay_write_ok by blast

section \<open>Steps that nothing disturbs\<close>

lemma calm_call_db: "fuse w = None \<Longrightarrow> call_db st w = (case st (db w) of (x, d) \<Rightarrow> (x, w\<lparr>db := d\<rparr>))"
  by (cases w) (auto simp: call_db_def ctx_done_def burn_def split: prod.split)

lemma calm_same: "w\<lparr>db := db w\<rparr> = w"
  by simp

definition settled_row :: "instant \<Rightarrow> payout_row \<Rightarrow> payout_row" where
  "settled_row now p = p\<lparr>po_state := StatusSettled, po_settled := Some now, po_rail_ref := po_rail_ref p\<rparr>"

definition settled_key :: "'l machine \<Rightarrow> payout_row \<Rightarrow> string" where
  "settled_key M p = ''cashback.payout.settled:'' @ uuid_str M (po_id p)"

text \<open>What makes a submitted payout ready to be settled by the next sweep: the rail acknowledged it and says it
  has settled, the row is one the schema would take again, and the event of its settlement is new.\<close>

definition ready :: "'l machine \<Rightarrow> 'r rail \<Rightarrow> 'r \<Rightarrow> 'l world \<Rightarrow> payout_row \<Rightarrow> bool" where
  "ready M R t w p \<longleftrightarrow>
     (\<exists>ref. po_rail_ref p = Some ref \<and> new_rail_reference ref = Inr ref \<and> rail_query R False ref t = Inr StatusSettled) \<and>
     payout_checks p = None \<and> kind_valid (po_rail p) \<and> po_id p \<noteq> nil_uuid \<and> po_request p \<noteq> nil_uuid \<and>
     po_submitted p \<le> clock w \<and>
     (\<forall>ev\<in>set (outbox (db w)). event_key (uuid_str M) ev \<noteq> settled_key M p)"

definition calm :: "'l world \<Rightarrow> bool" where
  "calm w \<longleftrightarrow> fuse w = None \<and> clock w \<noteq> zero_time \<and> moved (db w) = [] \<and> pay_ok (db w) \<and>
     (\<forall>r\<in>set (withdrawals (db w)). withdrawal_checks r = None)"

lemma trim_nothing: "trim_space [] = []"
  by code_simp

lemma settled_checks:
  assumes "payout_checks p = None" and "po_submitted p \<le> now" and "po_state p = StatusSubmitted"
  shows "payout_checks (settled_row now p) = None"
  using assms by (auto simp: payout_checks_def settled_row_def rail_status_valid_def split: if_splits option.splits)

lemma paid_checks:
  assumes "withdrawal_checks r = None" and "wr_state r = StateApproved"
  shows "withdrawal_checks (r\<lparr>wr_state := StatePaid\<rparr>) = None"
  using assms by (auto simp: withdrawal_checks_def request_states_def split: if_splits option.splits)

lemma sent_rows:
  assumes "pay_ok d" and "find_payout d q = Some p" and "po_state p = StatusSubmitted"
  obtains r where "find_withdrawal d q = Some r" "wr_state r = StateApproved" "agrees r p"
    "phase_of d q = Sent (requested_amount r) (po_approver p) (po_rail_ref p)"
proof -
  have "phase_of d q \<noteq> Torn" using assms(1) by (simp add: pay_ok_def)
  with assms(2,3) that show thesis
    by (auto simp: phase_of_def phase_of_rows_def split: option.splits if_splits)
qed

lemma arrival_goes_through:
  assumes c: "calm w" and p: "find_payout (db w) q = Some p" "po_state p = StatusSubmitted" and rd: "ready M R t w p"
    and r: "find_withdrawal (db w) q = Some r" "wr_state r = StateApproved"
  shows "\<exists>s ev. record_arrival M q nil_uuid [] w = (Inr s, w\<lparr>db := (db w)\<lparr>
    withdrawals := withdrawals (set_withdrawal (r\<lparr>wr_state := StatePaid\<rparr>) (db w)),
    payouts := payouts (set_payout (settled_row (clock w) p) (db w)), outbox := outbox (db w) @ [ev], moved := []\<rparr>\<rparr>) \<and>
    event_key (uuid_str M) ev = settled_key M p"
proof -
  let ?p = "settled_row (clock w) p"
  let ?d1 = "set_payout ?p (db w)"
  let ?r = "r\<lparr>wr_state := StatePaid\<rparr>"
  have mem: "p \<in> set (payouts (db w))" "po_request p = q" using find_payout_Some [OF p(1)] by simp_all
  have ids: "distinct (map po_id (payouts (db w)))" using c by (simp add: calm_def pay_ok_def)
  obtain ref where ref: "po_rail_ref p = Some ref" "ref \<noteq> []"
    using rd trim_nothing by (auto simp: ready_def new_rail_reference_def split: if_splits)
  have chk: "payout_checks p = None" "kind_valid (po_rail p)" "po_id p \<noteq> nil_uuid" "po_submitted p \<le> clock w"
    using rd by (auto simp: ready_def)
  have cur: "currency_valid (po_currency p)" using chk(1) by (auto simp: payout_checks_def split: if_splits)
  obtain waiting where wt: "payout_from (uuid_str M) p = Inr waiting" "pt_state waiting = StatusSubmitted" "pt_id waiting = po_id p"
    using cur chk(2) p(2) by (auto simp: payout_from_Inr)
  have out: "record_outcome (clock w) (po_id p) StatusSubmitted StatusSettled None (db w) = (Inr ?p, ?d1)"
    using find_key [OF ids mem(1)] p(2) settled_checks [OF chk(1,4) p(2)]
    by (simp add: record_outcome_def settled_row_def Let_def)
  obtain arrived where arr: "payout_from (uuid_str M) ?p = Inr arrived" "pt_id arrived = po_id p" "pt_ref arrived = ref"
      "pt_settled arrived = clock w"
    using cur chk(2) ref by (auto simp: payout_from_Inr settled_row_def or_empty_def or_zero_def)
  have "withdrawals ?d1 = withdrawals (db w)" by (simp add: set_payout_def)
  then have paid: "mark_withdrawal_paid q ?d1 = (Inr ?r, set_withdrawal ?r ?d1)"
    using r paid_checks [OF _ r(2)] find_withdrawal_Some [OF r(1)] c
    by (simp add: mark_withdrawal_paid_def find_withdrawal_def calm_def)
  let ?ev = "PayoutSettled (po_id p) (pt_request arrived) ref None (clock w)"
  have key: "event_key (uuid_str M) ?ev = settled_key M p"
    by (simp add: event_key_def event_type_def settled_key_def)
  have ob: "outbox (set_withdrawal ?r ?d1) = outbox (db w)" by (simp add: set_withdrawal_def set_payout_def)
  have app: "append_event (uuid_str M) ?ev (set_withdrawal ?r ?d1) =
      (Inr (), (set_withdrawal ?r ?d1)\<lparr>outbox := outbox (db w) @ [?ev]\<rparr>)"
    using rd key by (auto simp: append_event_def ob list_ex_iff ready_def)
  have calm: "fuse w = None" "clock w \<noteq> zero_time" "moved (db w) = []" using c by (simp_all add: calm_def)
  let ?z = "w\<lparr>db := (set_withdrawal ?r ?d1)\<lparr>outbox := outbox (db w) @ [?ev]\<rparr>\<rparr>"
  have get: "call_db (get_payout q) w = (Inr p, w)" using calm(1) p(1) by (simp add: calm_call_db get_payout_def)
  have ann: "announce_settled M arrived nil_uuid (w\<lparr>db := set_withdrawal ?r ?d1\<rparr>) = (Inr (), ?z)"
    using arr chk(3) ref(2) calm app
    by (simp add: announce_settled_def announce_pay_def wrap_error_def calm_call_db uuid_or_null_def)
  have body: "arrival_body M q nil_uuid [] w =
      (Inr \<lparr>st_payout = arrived, st_status = StatusSettled, st_released = None\<rparr>, ?z)"
    unfolding arrival_body_def
    using get wt calm out arr(1) paid ann
    by (simp add: and_then_def wrap_error_def from_sum_def give_def calm_call_db text_or_null_def)
  have "call_db commit_tx ?z = (Inr (), ?z\<lparr>db := (db ?z)\<lparr>moved := []\<rparr>\<rparr>)"
    using calm by (simp add: calm_call_db commit_tx_def set_withdrawal_def set_payout_def)
  then show ?thesis using body key unfolding record_arrival_def in_tx_def
    by (intro exI [of _ "\<lparr>st_payout = arrived, st_status = StatusSettled, st_released = None\<rparr>"] exI [of _ ?ev])
      (simp add: set_withdrawal_def set_payout_def)
qed

definition home :: "phase \<Rightarrow> phase" where
  "home f = (case f of Sent a u ref \<Rightarrow> Arrived a u ref | _ \<Rightarrow> f)"

lemma settling_goes_through:
  assumes c: "calm w" and p: "p \<in> set (payouts (db w))" "po_state p = StatusSubmitted" and rd: "ready M R t w p"
  shows "\<exists>s v ev. settle M R say (po_request p) (w, t) = (Inr s, (v, t)) \<and> calm v \<and> clock v = clock w \<and>
    (\<forall>i. phase_of (db v) i = (if i = po_request p then home (phase_of (db w) i) else phase_of (db w) i)) \<and>
    payouts (db v) = payouts (set_payout (settled_row (clock w) p) (db w)) \<and> outbox (db v) = outbox (db w) @ [ev] \<and>
    event_key (uuid_str M) ev = settled_key M p"
proof -
  let ?q = "po_request p"
  have ok: "pay_ok (db w)" and ids: "distinct (map po_id (payouts (db w)))" "distinct (map po_request (payouts (db w)))"
    using c by (simp_all add: calm_def pay_ok_def)
  have f: "find_payout (db w) ?q = Some p" using find_payout_unique [OF ids(2) p(1)] .
  obtain r where r: "find_withdrawal (db w) ?q = Some r" "wr_state r = StateApproved" "agrees r p"
      "phase_of (db w) ?q = Sent (requested_amount r) (po_approver p) (po_rail_ref p)"
    using sent_rows [OF ok f p(2)] .
  let ?r = "r\<lparr>wr_state := StatePaid\<rparr>"
  obtain s ev v where v: "record_arrival M ?q nil_uuid [] w = (Inr s, v)" and key: "event_key (uuid_str M) ev = settled_key M p"
    and dv: "v = w\<lparr>db := (db w)\<lparr>withdrawals := withdrawals (set_withdrawal ?r (db w)),
      payouts := payouts (set_payout (settled_row (clock w) p) (db w)), outbox := outbox (db w) @ [ev], moved := []\<rparr>\<rparr>"
    using arrival_goes_through [OF c f p(2) rd r(1,2)] by blast
  obtain ref where ref: "po_rail_ref p = Some ref" "new_rail_reference ref = Inr ref" "rail_query R False ref t = Inr StatusSettled"
    using rd by (auto simp: ready_def)
  have ne: "ref \<noteq> []" using ref(2) trim_nothing by (auto simp: new_rail_reference_def)
  have calm: "fuse w = None" "ctx_done w = False" using c by (simp_all add: calm_def ctx_done_def)
  have chk: "currency_valid (po_currency p)" "kind_valid (po_rail p)" "?q \<noteq> nil_uuid"
    using rd by (auto simp: ready_def payout_checks_def split: if_splits)
  obtain waiting where wt: "payout_from (uuid_str M) p = Inr waiting" "pt_state waiting = StatusSubmitted" "pt_ref waiting = ref"
    using chk p(2) ref(1) by (auto simp: payout_from_Inr or_empty_def)
  have sub: "submitted M ?q w = (Inr waiting, w)"
    using f wt calm(1) by (simp add: submitted_def and_then_def wrap_error_def from_sum_def give_def calm_call_db get_payout_def)
  have "w\<lparr>fuse := burn (fuse w)\<rparr> = w" using calm(1) by (cases w) (simp add: burn_def)
  then have q: "call_query R ref (w, t) = (Inr StatusSettled, (w, t))" using ref(3) calm(2) by (simp add: call_query_def)
  have st: "settle M R say ?q (w, t) = (Inr s, (v, t))"
    using chk(3) sub wt(3) ne ref(2) q v
    by (simp add: settle_def and_then_def wrap_error_def from_sum_def at_base_def on_status_def)
  have tx: "pay_ok (db v)" using transactions_keep [OF ok pay_tx.arriving [OF v]] .
  have rows: "withdrawals (db v) = withdrawals (set_withdrawal ?r (db w))"
      "payouts (db v) = payouts (set_payout (settled_row (clock w) p) (db w))" by (simp_all add: dv)
  have "withdrawal_checks ?r = None" using c find_withdrawal_Some [OF r(1)] paid_checks [OF _ r(2)] by (simp add: calm_def)
  then have "\<forall>x\<in>set (withdrawals (db v)). withdrawal_checks x = None"
    using c unfolding rows(1) by (auto simp: set_withdrawal_def calm_def)
  then have cv: "calm v" using c tx by (simp add: calm_def dv)
  have fp: "find_payout (db v) i = (if i = ?q then Some (settled_row (clock w) p) else find_payout (db w) i)" for i
    unfolding find_payout_cong [OF rows(2)] by (rule find_set_payout [OF p(1)]) (simp_all add: ids settled_row_def)
  have "wr_id ?r = ?q" using find_withdrawal_Some [OF r(1)] by simp
  then have fw: "find_withdrawal (db v) i = (if i = ?q then Some ?r else find_withdrawal (db w) i)" for i
    unfolding find_withdrawal_cong [OF rows(1)] using r(1) by (simp add: find_set_withdrawal)
  have "phase_of (db v) i = (if i = ?q then home (phase_of (db w) i) else phase_of (db w) i)" for i
    using r(3,4) by (simp add: phase_of_def fw fp)
      (simp add: phase_of_rows_def home_def agrees_def settled_row_def requested_amount_def)
  then show ?thesis using st cv rows(2) key by (intro exI [of _ s] exI [of _ v] exI [of _ ev]) (simp add: dv)
qed

section \<open>The sweep\<close>

lemma ready_stays:
  assumes inj: "\<forall>i j. uuid_str M i = uuid_str M j \<longrightarrow> i = j" and "ready M R t w p'" and "po_id p' \<noteq> po_id p"
    and "clock v = clock w" and "outbox (db v) = outbox (db w) @ [ev]" and "event_key (uuid_str M) ev = settled_key M p"
  shows "ready M R t v p'"
  using assms by (auto simp: ready_def settled_key_def)

lemma sweep_each_goes_through:
  assumes inj: "\<forall>i j. uuid_str M i = uuid_str M j \<longrightarrow> i = j" and "calm w" and "distinct (map po_request ps)"
    and "\<forall>p\<in>set ps. p \<in> set (payouts (db w)) \<and> po_state p = StatusSubmitted \<and> ready M R t w p"
  shows "\<exists>v. sweep_each M R say (map po_request ps) n (w, t) = (Inr n, (v, t)) \<and>
    (\<forall>i. phase_of (db v) i = (if i \<in> po_request ` set ps then home (phase_of (db w) i) else phase_of (db w) i))"
  using assms(2-4)
proof (induction ps arbitrary: w)
  case (Cons p ps)
  have p: "p \<in> set (payouts (db w))" "po_state p = StatusSubmitted" "ready M R t w p" using Cons.prems(3) by simp_all
  obtain s u ev where u: "settle M R say (po_request p) (w, t) = (Inr s, (u, t))" "calm u" "clock u = clock w"
    and ph: "\<And>i. phase_of (db u) i = (if i = po_request p then home (phase_of (db w) i) else phase_of (db w) i)"
    and po: "payouts (db u) = payouts (set_payout (settled_row (clock w) p) (db w))" and ob: "outbox (db u) = outbox (db w) @ [ev]"
      "event_key (uuid_str M) ev = settled_key M p"
    using settling_goes_through [OF Cons.prems(1) p] by blast
  have ids: "distinct (map po_id (payouts (db w)))" using Cons.prems(1) by (simp add: calm_def pay_ok_def)
  have rest: "\<forall>p'\<in>set ps. p' \<in> set (payouts (db u)) \<and> po_state p' = StatusSubmitted \<and> ready M R t u p'"
  proof
    fix p'
    assume p': "p' \<in> set ps"
    then have m: "p' \<in> set (payouts (db w))" "po_state p' = StatusSubmitted" "ready M R t w p'" using Cons.prems(3) by auto
    have "p' \<noteq> p" using p' Cons.prems(2) by auto
    then have ne: "po_id p' \<noteq> po_id p" using ids m(1) p(1) by (auto simp: distinct_map dest: inj_onD)
    have "p' \<in> set (payouts (db u))" unfolding po using m(1) ne by (force simp: set_payout_def settled_row_def)
    with m ready_stays [OF inj m(3) ne u(3) ob] show "p' \<in> set (payouts (db u)) \<and> po_state p' = StatusSubmitted \<and> ready M R t u p'"
      by blast
  qed
  obtain v where v: "sweep_each M R say (map po_request ps) n (u, t) = (Inr n, (v, t))"
    "\<forall>i. phase_of (db v) i = (if i \<in> po_request ` set ps then home (phase_of (db u) i) else phase_of (db u) i)"
    using Cons.IH [OF u(2) _ rest] Cons.prems(2) by auto
  have calm: "ctx_done w = False" using Cons.prems(1) by (simp add: calm_def ctx_done_def)
  have "sweep_each M R say (map po_request (p # ps)) n (w, t) = (Inr n, (v, t))"
    using v(1) u(1) calm by (simp add: counts_as_failure_def)
  moreover have "home (home f) = home f" for f by (simp add: home_def split: phase.split)
  ultimately show ?case using v(2) ph by (intro exI [of _ v]) auto
qed simp

text \<open>(C9) A sweep that nothing disturbs brings every payment home (liveness). If the rail acknowledged every
  submitted payout and says each has settled, one sweep reports no failure and moves every withdrawal that
  was sent to arrived, with its amount, its approver and its reference, and leaves every other withdrawal
  in the phase it was in.\<close>

theorem a_sweep_brings_every_payment_home:
  assumes "\<forall>i j. uuid_str M i = uuid_str M j \<longrightarrow> i = j" and "calm w"
    and "\<forall>p\<in>set (payouts (db w)). po_state p = StatusSubmitted \<longrightarrow> ready M R t w p"
  shows "\<exists>v. sweep M R say (w, t) = (Inr (), (v, t)) \<and> (\<forall>i. phase_of (db v) i = home (phase_of (db w) i))"
proof -
  define ps where "ps = sort_key po_submitted (filter (\<lambda>p. po_state p = StatusSubmitted) (payouts (db w)))"
  have ok: "pay_ok (db w)" using assms(2) by (simp add: calm_def)
  have reqs: "distinct (map po_request ps)" "set ps = {p \<in> set (payouts (db w)). po_state p = StatusSubmitted}"
    using ok by (auto simp: ps_def pay_ok_def distinct_sorted distinct_map_filter)
  have each: "\<forall>p\<in>set ps. p \<in> set (payouts (db w)) \<and> po_state p = StatusSubmitted \<and> ready M R t w p"
    using reqs(2) assms(3) by simp
  obtain v where v: "sweep_each M R say (map po_request ps) 0 (w, t) = (Inr 0, (v, t))"
    "\<forall>i. phase_of (db v) i = (if i \<in> po_request ` set ps then home (phase_of (db w) i) else phase_of (db w) i)"
    using sweep_each_goes_through [OF assms(1,2) reqs(1) each, of say 0] by (elim exE conjE)
  have "call_db submitted_payouts w = (Inr (map po_request ps), w)"
    using assms(2) by (simp add: calm_call_db calm_def submitted_payouts_def ps_def)
  then have "sweep M R say (w, t) = (Inr (), (v, t))"
    using v(1) by (simp add: sweep_def and_then_def wrap_error_def at_base_def give_def)
  moreover have "phase_of (db w) i = home (phase_of (db w) i)" if "i \<notin> po_request ` set ps" for i
  proof -
    have "\<not> (\<exists>p. find_payout (db w) i = Some p \<and> po_state p = StatusSubmitted)"
      using that reqs(2) find_payout_Some [of "db w" i] by force
    then show ?thesis by (auto simp: phase_of_def phase_of_rows_def home_def split: option.splits if_splits)
  qed
  ultimately show ?thesis using v(2) by (intro exI [of _ v]) metis
qed

lemma sent_ready: "calm sent_world" "ready careful_machine stub_rail settled_stub sent_world sent_payout"
  "payouts (db sent_world) = [sent_payout]"
proof -
  have "fuse sent_world = None" "clock sent_world \<noteq> zero_time" "moved (db sent_world) = []"
    "withdrawals (db sent_world) = [sent_request]" "withdrawal_checks sent_request = None" by code_simp+
  then show "calm sent_world" using sent_books by (simp add: calm_def)
  have "po_rail_ref sent_payout = Some ''stub:payout:u''" "new_rail_reference ''stub:payout:u'' = Inr ''stub:payout:u''"
    "stub_status False ''stub:payout:u'' settled_stub = Inr StatusSettled" "payout_checks sent_payout = None"
    "kind_valid (po_rail sent_payout)" "po_id sent_payout \<noteq> nil_uuid" "po_request sent_payout \<noteq> nil_uuid"
    "po_submitted sent_payout \<le> clock sent_world"
    "list_all (\<lambda>ev. event_key (uuid_str careful_machine) ev \<noteq> settled_key careful_machine sent_payout) (outbox (db sent_world))"
    by code_simp+
  then show "ready careful_machine stub_rail settled_stub sent_world sent_payout"
    by (auto simp: ready_def stub_rail_def list_all_iff)
  show "payouts (db sent_world) = [sent_payout]" by (simp add: sent_world_def)
qed

theorem a_sweep_brings_every_payment_home_witness:
  "\<exists>v. sweep careful_machine stub_rail (\<lambda>_. ''no'') (sent_world, settled_stub) = (Inr (), (v, settled_stub)) \<and>
     phase_of (db v) 900 = Arrived \<lparr>minor = 250, currency_of = ''EUR''\<rparr> 9 (Some ''stub:payout:u'')"
proof -
  have ids: "\<forall>i j. uuid_str careful_machine i = uuid_str careful_machine j \<longrightarrow> i = j"
    by (simp add: careful_machine_def) (metis word_unat_eq_iff)
  have "phase_of (db sent_world) 900 = Sent \<lparr>minor = 250, currency_of = ''EUR''\<rparr> 9 (Some ''stub:payout:u'')" by code_simp
  with a_sweep_brings_every_payment_home [OF ids sent_ready(1), of stub_rail settled_stub "\<lambda>_. ''no''"] sent_ready(2,3)
  show ?thesis by (auto simp: home_def)
qed

end
