(* ===== verification/Spec2Isabelle.thy ===== *)
theory Spec2Isabelle
  imports Agreement Lifecycle PaymentSweep
begin

text \<open>
  The cashback core of Apivo: the money type, the ledger money moves in, the way from a click on an
  offer to a credit in a member's wallet, and the way from the wallet to the member's bank. Everything
  below models code under \<open>src/internal\<close>; the paths in this text are relative to it.

  \<^bold>\<open>The program and its parts.\<close> A member clicks out to a merchant (\<open>cashback/clickout\<close>), under a
  reference that is minted for the click and that snapshots the rate the merchant's offer promised
  (\<open>cashback/catalogue/offer.go\<close>). An affiliate network later reports a purchase under that reference.
  A scheduled job (\<open>cashback/earnings/lifecycle.go\<close>) matches the report to the click
  (\<open>attribution.go\<close>), asks the hold rules whether a person has to look first (\<open>holdrules.go\<close>), and opens
  a credit (\<open>open.go\<close>); later reports confirm or reverse it. Every credit is an entry with a state, and
  every change of its state is one transfer in a double-entry ledger (\<open>statemachine.go\<close>, \<open>state.go\<close>,
  \<open>cashback/wallet\<close>). An operator decides about held credits (\<open>review.go\<close>). When a member asks to be
  paid, \<open>cashback/payout\<close> reserves the oldest entries that cover the amount (\<open>earnings/reserve.go\<close>),
  waits for an operator, hands one instruction to a payout rail and settles what the rail reports.
  All of them keep their rows in one PostgreSQL database and compute with
  \<open>platform/money/money.go\<close>.

  \<^bold>\<open>How the code is written down.\<close> An \<open>int64\<close> is a 64 bit word, read with \<open>sint\<close>, and wraps; a Go string is
  the list of its bytes; a map is a partial function, with the order of its keys kept where the code
  keeps one. An operation is a function from a world to an answer and the world after it; an answer is
  \<open>Inl\<close> an error or \<open>Inr\<close> a value (Effects). The world has the tables, the ledger, a clock and a fuse. The
  fuse is how failure is modelled: \<open>None\<close> says that nothing disturbs the run, \<open>Some n\<close> that the connection is
  lost once \<open>n\<close> further calls have been carried out, and from then on every call fails, the commit included. A
  theorem that quantifies over worlds therefore covers an operation cut off at any of its calls. A
  transaction is the function applied to the tables it started from, kept or put back at its end; the
  ledger is not part of it, as it is not in the code. The statements of the \<open>queries/*.sql\<close> files are
  functions on the tables that refuse what the constraints and triggers of \<open>platform/db/migrations\<close> refuse.
  Transactions of different operations follow one another; the row locks the statements take are what the
  code has to that end. What is not under \<open>src\<close> and matters is an argument: the text of a
  UUID, the identifiers the database draws, the words of a hold reason, SHA-256. What is relied on
  of it is a named hypothesis or the assumption of a locale: that UUID texts differ
  for different UUIDs and are short enough and printable (\<open>uuid_text\<close>, interpreted on the RFC 4122 form).

  \<^bold>\<open>Money.\<close> Money models \<open>platform/money/money.go\<close>: currencies, checked addition, multiplication by a
  rate with its six roundings, splits. It shows that a sum is exact or refused and that a split
  loses nothing. GoText and JsonText are what the code uses of \<open>strings\<close>, \<open>strconv\<close>, \<open>unicode/utf8\<close>
  and \<open>encoding/json\<close>; MoneyJson and Offers model the JSON forms of an amount and of a rate band, with
  their round trips, and the mapping of offer rows.

  \<^bold>\<open>The ledger.\<close> WalletPort models the checks of \<open>cashback/wallet/ledger.go\<close> (a transfer that is accepted
  nets to zero in every currency); LedgerPort states what a client may rely on as the locale
  \<open>ledger_port\<close> (a key answers for its transfer for good, a post moves the net of the transfer or
  nothing) and its extension \<open>ledger_names\<close>; MemoryLedger models \<open>cashback/wallet/memory/memory.go\<close> in full,
  shows that accounts of a currency always sum to zero, that a transfer is posted once, that history and balance
  agree, and is the interpretation of both locales.

  \<^bold>\<open>Earning.\<close> EarningsState is the pure part of \<open>cashback/earnings\<close>: the six states and their arrows, the two
  postings of each move, keys, the share of a commission. EarningsStore has the tables and statements;
  Entries has \<open>Open\<close>, \<open>Apply\<close>, \<open>Reverse\<close> and \<open>Confirm\<close>; Reservation has \<open>Covering\<close>, \<open>Reserve\<close> and \<open>Release\<close>. Books
  states what it is for the entries and the ledger to agree, up to the keys of attempts that are
  not completed, and proves once, in a locale over \<open>ledger_names\<close>, that every move keeps it;
  EarningsLedger interprets that locale on the in-process ledger and closes it under runs of all
  operations (\<open>earn_run\<close>), and Agreement reads off what that promises of a wallet: in every world any sequence of
  whole, failed and cut off operations leads to, the ledger account of each stage holds exactly the sum of the
  entries in it, up to the transfers of attempts that have not been repeated. Clickout, HoldRules, Matching,
  Lifecycle and Review model the click-out, the hold rules with their reads, the matching and the queue of
  reports nobody could be matched to, the three passes of the crediting job, and the decisions of an operator.

  \<^bold>\<open>Paying.\<close> PayoutRail models the port \<open>cashback/payout/rail.go\<close> and both rails of the repository
  (\<open>payout/manual\<close>, \<open>payout/stub\<close>); the contract of a rail is the locale \<open>payout_rail\<close> with an
  interpretation on each: no two accepted submissions of one key differ, whatever fails in between.
  PayoutStore has the tables and statements, Withdrawal the destinations and \<open>Request\<close>, Payments the decisions, the retry,
  the settlement and the sweep. PaymentSteps is an abstract machine in which a withdrawal is only in one of a few
  phases, and the refinement of every transaction of these operations to at most one of its steps;
  PaymentRun follows runs of the operations against a rail and shows that a withdrawal is paid once; PaymentSweep shows
  that an undisturbed sweep brings every payment home.

  \<^bold>\<open>Bounds and fuel.\<close> No definition runs on fuel: loops over rows are structural, scanners and trims recurse on a
  shorter text, and the fuse bounds calls of the environment, not steps of the code. The
  sweeps and passes take the rows their first statement returned, so they are finite as in the code;
  limits of a batch are the code's own. Bounds of the code (64 bit sums, the range of a rate, the length of
  a reference, of a note in runes, of a page) are kept as they are.

  \<^bold>\<open>Not modelled.\<close> The client of the external ledger (\<open>wallet/blnk\<close>), the network adapters, the
  translation providers, feed ingestion and identity are HTTP clients: what they do is decided by services
  that are not in the repository. The second ledger driver (\<open>wallet/postgres\<close>), the wallet's read
  side, the ingestion of network reports and the outbox dispatcher (\<open>platform/events\<close>) are not modelled;
  the events an operation writes are, as rows of the table it writes them to. HTTP handlers, middleware, configuration,
  wiring, the scheduler, telemetry, logging and the newsroom's pages hold little that is not
  input and output. Of the errors, the sentinel and its cause are modelled and the sentence is not. Time passes only where
  the clock is an argument of a statement.
\<close>

end
